(* ===== verification/Prelude.thy ===== *)
theory Prelude
  imports Main "HOL-Library.Word"
begin

text \<open>
  Shared vocabulary of the development: the C integer types, the names of the kernel's
  statically allocated objects (locks, sleep channels), the result type of a kernel routine with
  its sequencing combinator, and generic facts on lists used by several components.

  A C routine that reads and writes global variables is a function from the kernel state to a
  \<open>res\<close>: it returns (\<open>Ret\<close>), it gives the CPU away by calling \<open>swtch\<close> in \<open>sched()\<close>
  (\<open>Swtch\<close>, with the state the scheduler sees), it spins on a lock another CPU holds
  (\<open>Spin\<close>), or it never continues (\<open>Stop\<close>): it called \<open>panic\<close>, it did something C leaves
  undefined, such as an access outside an array, or a loop that may run forever used up the bound on
  its turns the model gives it (\<open>OutOfFuel\<close>).
\<close>

section \<open>C types\<close>

type_synonym uint = "32 word"
type_synonym ushort = "16 word"
type_synonym byte = "8 word"

text \<open>
  A C \<open>int\<close> is a HOL integer. Where the source converts between \<open>uint\<close> and \<open>int\<close> the
  conversion is written with \<^const>\<open>sint\<close> and \<^const>\<open>word_of_int\<close>, which is what the
  machine's two's complement representation gives.
\<close>

section \<open>Names of kernel objects\<close>

text \<open>
  Addresses of locks and of sleep channels are only ever compared for equality, so each object is
  a name. \<open>BufSl i\<close> and \<open>InodeSl i\<close> are the sleep locks inside \<open>bcache.buf[i]\<close> and
  \<open>icache.inode[i]\<close>; \<open>SleepLk l\<close> is the spinlock inside the sleep lock \<open>l\<close>; pipes are named
  by the address of the page that holds them.
\<close>

datatype sleepid = BufSl nat | InodeSl nat

datatype spinid =
    PtableLk | TicksLk | KmemLk | BcacheLk | LogLk | IcacheLk | FtableLk | ConsLk | IdeLk
  | PipeLk uint | SleepLk sleepid

datatype chan =
    ProcChan nat | TicksChan | LogChan | SleepChan sleepid | BufChan nat
  | PipeReadChan uint | PipeWriteChan uint | InputChan

section \<open>Results of kernel routines\<close>

datatype stop = Panic string | Undef string | OutOfFuel

datatype ('s, 'a) res =
    Ret 'a 's
  | Swtch 's
  | Spin spinid 's
  | Stop stop

type_synonym ('s, 'a) kfun = "'s \<Rightarrow> ('s, 'a) res"

definition ret :: "'a \<Rightarrow> ('s, 'a) kfun" where
  "ret x = (\<lambda>s. Ret x s)"

definition mbind :: "('s, 'a) kfun \<Rightarrow> ('a \<Rightarrow> ('s, 'b) kfun) \<Rightarrow> ('s, 'b) kfun" where
  "mbind m f = (\<lambda>s. case m s of
      Ret x t \<Rightarrow> f x t
    | Swtch t \<Rightarrow> Swtch t
    | Spin lk t \<Rightarrow> Spin lk t
    | Stop e \<Rightarrow> Stop e)"

definition panic :: "string \<Rightarrow> ('s, 'a) kfun" where
  "panic msg = (\<lambda>s. Stop (Panic msg))"

definition undef :: "string \<Rightarrow> ('s, 'a) kfun" where
  "undef msg = (\<lambda>s. Stop (Undef msg))"

definition stuck :: "('s, 'a) kfun" where
  "stuck = (\<lambda>s. Stop OutOfFuel)"

definition gets :: "('s \<Rightarrow> 'a) \<Rightarrow> ('s, 'a) kfun" where
  "gets f = (\<lambda>s. Ret (f s) s)"

definition modify :: "('s \<Rightarrow> 's) \<Rightarrow> ('s, unit) kfun" where
  "modify f = (\<lambda>s. Ret () (f s))"

lemma ret_apply [simp]: "ret x s = Ret x s"
  by (simp add: ret_def)

lemma mbind_apply [simp]:
  "mbind m f s = (case m s of
      Ret x t \<Rightarrow> f x t
    | Swtch t \<Rightarrow> Swtch t
    | Spin lk t \<Rightarrow> Spin lk t
    | Stop e \<Rightarrow> Stop e)"
  by (simp add: mbind_def)

lemma panic_apply [simp]: "panic msg s = Stop (Panic msg)"
  by (simp add: panic_def)

lemma undef_apply [simp]: "undef msg s = Stop (Undef msg)"
  by (simp add: undef_def)

lemma stuck_apply [simp]: "stuck s = Stop OutOfFuel"
  by (simp add: stuck_def)

lemma gets_apply [simp]: "gets f s = Ret (f s) s"
  by (simp add: gets_def)

lemma modify_apply [simp]: "modify f s = Ret () (f s)"
  by (simp add: modify_def)

lemma mbind_Ret_iff:
  "mbind m f s = Ret y u \<longleftrightarrow> (\<exists>x t. m s = Ret x t \<and> f x t = Ret y u)"
  by (simp split: res.splits)

text \<open>A loop that runs a routine once for every element of a list.\<close>

fun mforeach :: "'b list \<Rightarrow> ('b \<Rightarrow> ('s, unit) kfun) \<Rightarrow> ('s, unit) kfun" where
  "mforeach [] body = ret ()"
| "mforeach (x # xs) body = mbind (body x) (\<lambda>_. mforeach xs body)"

lemma mforeach_append:
  "mforeach (xs @ ys) body = mbind (mforeach xs body) (\<lambda>_. mforeach ys body)"
proof (induction xs)
  case Nil
  show ?case by (rule ext) simp
next
  case (Cons x xs)
  show ?case by (rule ext) (simp add: Cons split: res.splits)
qed

text \<open>An invariant of the body is an invariant of the loop; so is its totality.\<close>

lemma mforeach_invariant:
  assumes "\<And>x s. x \<in> set xs \<Longrightarrow> P s \<Longrightarrow> \<exists>t. body x s = Ret () t \<and> P t"
    and "P s"
  shows "\<exists>t. mforeach xs body s = Ret () t \<and> P t"
  using assms
proof (induction xs arbitrary: s)
  case Nil
  then show ?case by simp
next
  case (Cons x xs)
  from Cons.prems(1) [of x s] Cons.prems(2) obtain t where t: "body x s = Ret () t" "P t"
    by auto
  have "\<exists>u. mforeach xs body t = Ret () u \<and> P u"
    by (rule Cons.IH [OF Cons.prems(1) t(2)]) simp_all
  with t(1) show ?case by simp
qed

text \<open>A counting loop with a property of the counter and the state.\<close>

lemma mforeach_upt:
  assumes "Q 0 s" and "\<And>k t. k < n \<Longrightarrow> Q k t \<Longrightarrow> \<exists>u. body k t = Ret () u \<and> Q (Suc k) u"
  shows "\<exists>t. mforeach [0..<n] body s = Ret () t \<and> Q n t"
  using assms(2)
proof (induction n)
  case 0
  with assms(1) show ?case by simp
next
  case (Suc n)
  then obtain t where t: "mforeach [0..<n] body s = Ret () t" "Q n t" by (meson less_SucI)
  with Suc.prems [of n t] obtain u where "body n t = Ret () u" "Q (Suc n) u" by auto
  with t show ?case by (simp add: mforeach_append)
qed

section \<open>First match in an array\<close>

text \<open>
  Most tables of the kernel are fixed arrays searched from the front by a \<open>for\<close> loop that stops
  at the first entry satisfying a condition.
\<close>

fun find_idx :: "('a \<Rightarrow> bool) \<Rightarrow> 'a list \<Rightarrow> nat option" where
  "find_idx P [] = None"
| "find_idx P (x # xs) = (if P x then Some 0 else map_option Suc (find_idx P xs))"

lemma find_idx_None: "find_idx P xs = None \<longleftrightarrow> (\<forall>x \<in> set xs. \<not> P x)"
  by (induction xs) auto

lemma find_idx_Some:
  "find_idx P xs = Some i \<longleftrightarrow> i < length xs \<and> P (xs ! i) \<and> (\<forall>j < i. \<not> P (xs ! j))"
proof (induction xs arbitrary: i)
  case Nil
  then show ?case by simp
next
  case (Cons x xs)
  show ?case
  proof (cases i)
    case 0
    then show ?thesis by simp
  next
    case (Suc k)
    have "(\<forall>j < Suc k. \<not> P ((x # xs) ! j)) \<longleftrightarrow> \<not> P x \<and> (\<forall>j < k. \<not> P (xs ! j))"
      by (metis Suc_less_eq less_Suc_eq_0_disj nth_Cons_0 nth_Cons_Suc)
    with Suc Cons show ?thesis by auto
  qed
qed

lemma find_idx_in_range: "find_idx P xs = Some i \<Longrightarrow> i < length xs"
  by (simp add: find_idx_Some)

lemma find_idx_holds: "find_idx P xs = Some i \<Longrightarrow> P (xs ! i)"
  by (simp add: find_idx_Some)

lemma find_idx_cong:
  assumes "length xs = length ys" and "\<And>j. j < length xs \<Longrightarrow> P (xs ! j) = Q (ys ! j)"
  shows "find_idx P xs = find_idx Q ys"
proof (cases "find_idx P xs")
  case None
  with assms show ?thesis
    by (metis find_idx_None in_set_conv_nth)
next
  case (Some i)
  then have "find_idx Q ys = Some i"
    using assms by (auto simp: find_idx_Some)
  with Some show ?thesis by simp
qed

section \<open>Updating one entry of an array\<close>

definition upd_at :: "nat \<Rightarrow> ('a \<Rightarrow> 'a) \<Rightarrow> 'a list \<Rightarrow> 'a list" where
  "upd_at i f xs = (if i < length xs then xs[i := f (xs ! i)] else xs)"

lemma length_upd_at [simp]: "length (upd_at i f xs) = length xs"
  by (simp add: upd_at_def)

lemma nth_upd_at:
  "j < length xs \<Longrightarrow> upd_at i f xs ! j = (if i = j then f (xs ! j) else xs ! j)"
  by (auto simp: upd_at_def nth_list_update)

lemma nth_upd_at_same [simp]: "i < length xs \<Longrightarrow> upd_at i f xs ! i = f (xs ! i)"
  by (simp add: nth_upd_at)

lemma nth_upd_at_other [simp]: "i \<noteq> j \<Longrightarrow> upd_at i f xs ! j = xs ! j"
  by (simp add: upd_at_def nth_list_update)

lemma upd_at_twice [simp]: "upd_at i f (upd_at i g xs) = upd_at i (\<lambda>x. f (g x)) xs"
  by (simp add: upd_at_def)

lemma upd_at_id: "(i < length xs \<Longrightarrow> f (xs ! i) = xs ! i) \<Longrightarrow> upd_at i f xs = xs"
  by (simp add: upd_at_def)

lemma upd_at_cong: "(i < length xs \<Longrightarrow> f (xs ! i) = g (xs ! i)) \<Longrightarrow> upd_at i f xs = upd_at i g xs"
  by (simp add: upd_at_def)

lemma map_upd_at_inv:
  assumes "\<And>x. g (f x) = g x"
  shows "map g (upd_at i f xs) = map g xs"
  by (rule nth_equalityI) (auto simp: nth_upd_at assms)

end
