(* ===== verification/Spinlock.thy ===== *)
theory Spinlock
  imports Prelude
begin

text \<open>
  Model of \<open>spinlock.c\<close> and of the per-CPU part of \<open>proc.c\<close> and \<open>proc.h\<close>: the CPUs, the
  interrupt flag, and the mutual exclusion locks every other component takes.

  \<open>hw_if\<close> is the \<open>FL_IF\<close> bit of each processor's EFLAGS register and \<open>lapicid\<close> the local
  APIC id of the processor that executes the routine (the value \<open>lapicid()\<close> returns there). The call
  stacks a lock records for debugging (\<open>pcs\<close>) are not modelled.

  A step of the interleaving \<open>smp_step\<close> is an \<open>acquire\<close> up to its first \<open>xchg\<close>, one further \<open>xchg\<close> of a spinning
  processor, or a whole \<open>release\<close>: in between, apart from the test of \<open>holding\<close>, whose outcome no other processor
  can change, only the processor's own variables and the fields of a lock it holds are accessed.
\<close>

section \<open>State\<close>

record cpu =
  apicid :: byte
  ncli :: int
  intena :: bool
  cproc :: "nat option"
  cr3 :: uint
  ts_esp0 :: uint

record spinlock =
  locked :: bool
  lname :: string
  lcpu :: "nat option"

record machine =
  cpus :: "cpu list"
  lapicid :: byte
  hw_if :: "byte \<Rightarrow> bool"
  spin :: "spinid \<Rightarrow> spinlock"

section \<open>Operations\<close>

definition readeflags_if :: "('z machine_scheme, bool) kfun" where
  "readeflags_if = gets (\<lambda>s. hw_if s (lapicid s))"

definition cli :: "('z machine_scheme, unit) kfun" where
  "cli = modify (\<lambda>s. s\<lparr>hw_if := (hw_if s)(lapicid s := False)\<rparr>)"

definition sti :: "('z machine_scheme, unit) kfun" where
  "sti = modify (\<lambda>s. s\<lparr>hw_if := (hw_if s)(lapicid s := True)\<rparr>)"

text \<open>\<open>mycpu\<close> returns the index of the executing processor in \<open>cpus\<close>.\<close>

definition mycpu :: "('z machine_scheme, nat) kfun" where
  "mycpu =
     mbind readeflags_if (\<lambda>f.
     if f then panic ''mycpu called with interrupts enabled'' else
     mbind (gets (\<lambda>s. find_idx (\<lambda>c. apicid c = lapicid s) (cpus s))) (\<lambda>r.
     case r of Some i \<Rightarrow> ret i | None \<Rightarrow> panic ''unknown apicid''))"

definition cpuid :: "('z machine_scheme, nat) kfun" where
  "cpuid = mycpu"

definition upd_cpu :: "nat \<Rightarrow> (cpu \<Rightarrow> cpu) \<Rightarrow> ('z machine_scheme, unit) kfun" where
  "upd_cpu i f = modify (\<lambda>s. s\<lparr>cpus := upd_at i f (cpus s)\<rparr>)"

definition pushcli :: "('z machine_scheme, unit) kfun" where
  "pushcli =
     mbind readeflags_if (\<lambda>f.
     mbind cli (\<lambda>_.
     mbind mycpu (\<lambda>i.
     mbind (gets (\<lambda>s. ncli (cpus s ! i))) (\<lambda>n.
     mbind (if n = 0 then upd_cpu i (\<lambda>c. c\<lparr>intena := f\<rparr>) else ret ()) (\<lambda>_.
     upd_cpu i (\<lambda>c. c\<lparr>ncli := ncli c + 1\<rparr>))))))"

definition popcli :: "('z machine_scheme, unit) kfun" where
  "popcli =
     mbind readeflags_if (\<lambda>f.
     if f then panic ''popcli - interruptible'' else
     mbind mycpu (\<lambda>i.
     mbind (upd_cpu i (\<lambda>c. c\<lparr>ncli := ncli c - 1\<rparr>)) (\<lambda>_.
     mbind (gets (\<lambda>s. cpus s ! i)) (\<lambda>c.
     if ncli c < 0 then panic ''popcli''
     else if ncli c = 0 \<and> intena c then sti
     else ret ()))))"

definition myproc :: "('z machine_scheme, nat option) kfun" where
  "myproc =
     mbind pushcli (\<lambda>_.
     mbind mycpu (\<lambda>i.
     mbind (gets (\<lambda>s. cproc (cpus s ! i))) (\<lambda>p.
     mbind popcli (\<lambda>_.
     ret p))))"

definition initlock :: "spinid \<Rightarrow> string \<Rightarrow> ('z machine_scheme, unit) kfun" where
  "initlock lk nm =
     modify (\<lambda>s. s\<lparr>spin := (spin s)(lk := \<lparr>locked = False, lname = nm, lcpu = None\<rparr>)\<rparr>)"

definition holding :: "spinid \<Rightarrow> ('z machine_scheme, bool) kfun" where
  "holding lk =
     mbind pushcli (\<lambda>_.
     mbind mycpu (\<lambda>i.
     mbind (gets (\<lambda>s. locked (spin s lk) \<and> lcpu (spin s lk) = Some i)) (\<lambda>r.
     mbind popcli (\<lambda>_.
     ret r))))"

text \<open>
  One turn of \<open>while(xchg(&lk->locked, 1) != 0)\<close> and what follows it: the exchange stores 1 and
  yields the old value; on 0 the loop ends and the holder is recorded.
\<close>

definition xchg_turn :: "spinid \<Rightarrow> ('z machine_scheme, unit) kfun" where
  "xchg_turn lk = (\<lambda>s.
     if locked (spin s lk) then Spin lk s
     else mbind (modify (\<lambda>s. s\<lparr>spin := (spin s)(lk := (spin s lk)\<lparr>locked := True\<rparr>)\<rparr>)) (\<lambda>_.
          mbind mycpu (\<lambda>i.
          modify (\<lambda>s. s\<lparr>spin := (spin s)(lk := (spin s lk)\<lparr>lcpu := Some i\<rparr>)\<rparr>))) s)"

definition acquire :: "spinid \<Rightarrow> ('z machine_scheme, unit) kfun" where
  "acquire lk =
     mbind pushcli (\<lambda>_.
     mbind (holding lk) (\<lambda>h.
     if h then panic ''acquire'' else
     xchg_turn lk))"

definition release :: "spinid \<Rightarrow> ('z machine_scheme, unit) kfun" where
  "release lk =
     mbind (holding lk) (\<lambda>h.
     if \<not> h then panic ''release'' else
     mbind (modify (\<lambda>s. s\<lparr>spin := (spin s)(lk := (spin s lk)\<lparr>lcpu := None\<rparr>)\<rparr>)) (\<lambda>_.
     mbind (modify (\<lambda>s. s\<lparr>spin := (spin s)(lk := (spin s lk)\<lparr>locked := False\<rparr>)\<rparr>)) (\<lambda>_.
     popcli)))"

section \<open>The executing processor\<close>

definition this_idx :: "byte \<Rightarrow> cpu list \<Rightarrow> nat" where
  "this_idx l cs = the (find_idx (\<lambda>c. apicid c = l) cs)"

text \<open>
  The executing processor is known, its nesting depth is not negative, and interrupts are off
  whenever the depth is positive.
\<close>

definition mwf_at :: "cpu list \<Rightarrow> byte \<Rightarrow> (byte \<Rightarrow> bool) \<Rightarrow> bool" where
  "mwf_at cs l h \<longleftrightarrow> find_idx (\<lambda>c. apicid c = l) cs \<noteq> None \<and>
     0 \<le> ncli (cs ! this_idx l cs) \<and> (0 < ncli (cs ! this_idx l cs) \<longrightarrow> \<not> h l)"

abbreviation this_cpu :: "'z machine_scheme \<Rightarrow> nat" where
  "this_cpu s \<equiv> this_idx (lapicid s) (cpus s)"

abbreviation mwf :: "'z machine_scheme \<Rightarrow> bool" where
  "mwf s \<equiv> mwf_at (cpus s) (lapicid s) (hw_if s)"

definition spinfree :: "spinlock \<Rightarrow> bool" where
  "spinfree l \<longleftrightarrow> \<not> locked l \<and> lcpu l = None"

text \<open>The pieces of the machine state after \<open>pushcli\<close>, after \<open>acquire\<close>, and after a matched pair.\<close>

definition push_cpus :: "nat \<Rightarrow> bool \<Rightarrow> cpu list \<Rightarrow> cpu list" where
  "push_cpus i f cs =
     upd_at i (\<lambda>c. c\<lparr>ncli := ncli c + 1, intena := (if ncli c = 0 then f else intena c)\<rparr>) cs"

definition crit_cpus :: "nat \<Rightarrow> bool \<Rightarrow> cpu list \<Rightarrow> cpu list" where
  "crit_cpus i f cs = upd_at i (\<lambda>c. c\<lparr>intena := (if ncli c = 0 then f else intena c)\<rparr>) cs"

definition acq_spin :: "nat \<Rightarrow> spinid \<Rightarrow> (spinid \<Rightarrow> spinlock) \<Rightarrow> spinid \<Rightarrow> spinlock" where
  "acq_spin i lk sp = sp(lk := (sp lk)\<lparr>locked := True, lcpu := Some i\<rparr>)"

definition if_off :: "byte \<Rightarrow> (byte \<Rightarrow> bool) \<Rightarrow> byte \<Rightarrow> bool" where
  "if_off l h = h(l := False)"

lemma intena_ncli_commute: "c\<lparr>intena := a, ncli := n\<rparr> = c\<lparr>ncli := n, intena := a\<rparr>"
  by simp

lemma find_apicid_cong:
  assumes "map apicid cs = map apicid ds"
  shows "find_idx (\<lambda>c. apicid c = l) cs = find_idx (\<lambda>c. apicid c = l) ds"
  by (rule find_idx_cong) (use assms in \<open>auto simp: list_eq_iff_nth_eq\<close>)

lemma find_apicid_upd_at:
  assumes "\<And>c. apicid (f c) = apicid c"
  shows "find_idx (\<lambda>c. apicid c = l) (upd_at i f cs) = find_idx (\<lambda>c. apicid c = l) cs"
  by (rule find_apicid_cong) (rule map_upd_at_inv, rule assms)

lemma acq_spin_other [simp]: "lk \<noteq> lk' \<Longrightarrow> acq_spin i lk sp lk' = sp lk'"
  by (simp add: acq_spin_def)

lemma acq_spin_same [simp]:
  "acq_spin i lk sp lk = (sp lk)\<lparr>locked := True, lcpu := Some i\<rparr>"
  by (simp add: acq_spin_def)

lemma acq_spin_commute: "lk \<noteq> lk' \<Longrightarrow> acq_spin i lk (acq_spin i lk' sp) = acq_spin i lk' (acq_spin i lk sp)"
  by (auto simp: acq_spin_def)

lemma if_off_same [simp]: "if_off l h l = False"
  by (simp add: if_off_def)

lemma this_idx_push [simp]: "this_idx l (push_cpus i f cs) = this_idx l cs"
  by (simp add: this_idx_def push_cpus_def find_apicid_upd_at)

lemma this_idx_crit [simp]: "this_idx l (crit_cpus i f cs) = this_idx l cs"
  by (simp add: this_idx_def crit_cpus_def find_apicid_upd_at)

lemma this_idx_in_range: "mwf_at cs l h \<Longrightarrow> this_idx l cs < length cs"
  by (auto simp: mwf_at_def this_idx_def dest: find_idx_in_range)

lemma mwf_at_push [simp]:
  "mwf_at cs l h \<Longrightarrow> mwf_at (push_cpus (this_idx l cs) f cs) l (if_off l h)"
  using this_idx_in_range [of cs l h]
  by (simp add: mwf_at_def push_cpus_def find_apicid_upd_at this_idx_def)

lemma mwf_at_crit [simp]: "mwf_at cs l h \<Longrightarrow> mwf_at (crit_cpus (this_idx l cs) f cs) l h"
  using this_idx_in_range [of cs l h]
  by (simp add: mwf_at_def crit_cpus_def find_apicid_upd_at this_idx_def)

lemma crit_crit [simp]: "crit_cpus i f (crit_cpus i f cs) = crit_cpus i f cs"
  by (simp add: crit_cpus_def upd_at_def)

lemma crit_push [simp]:
  "mwf_at cs l h \<Longrightarrow>
   crit_cpus (this_idx l cs) g (push_cpus (this_idx l cs) f cs) = push_cpus (this_idx l cs) f cs"
  using this_idx_in_range [of cs l h]
  by (simp add: mwf_at_def crit_cpus_def push_cpus_def upd_at_def)

lemma push_crit [simp]:
  "push_cpus i f (crit_cpus i f cs) = push_cpus i f cs"
  by (simp add: crit_cpus_def push_cpus_def upd_at_def)

lemma cproc_push [simp]: "i < length cs \<Longrightarrow> cproc (push_cpus k f cs ! i) = cproc (cs ! i)"
  by (simp add: push_cpus_def nth_upd_at)

lemma cproc_crit [simp]: "i < length cs \<Longrightarrow> cproc (crit_cpus k f cs ! i) = cproc (cs ! i)"
  by (simp add: crit_cpus_def nth_upd_at)

lemma length_push [simp]: "length (push_cpus k f cs) = length cs"
  by (simp add: push_cpus_def)

lemma length_crit [simp]: "length (crit_cpus k f cs) = length cs"
  by (simp add: crit_cpus_def)

text \<open>One order for the updates of the machine fields.\<close>

named_theorems upd_order

lemma upd_order_hw_cpus [upd_order]: "s\<lparr>hw_if := a, cpus := c\<rparr> = s\<lparr>cpus := c, hw_if := a\<rparr>"
  by simp

lemma upd_order_spin_cpus [upd_order]: "s\<lparr>spin := a, cpus := c\<rparr> = s\<lparr>cpus := c, spin := a\<rparr>"
  by simp

lemma upd_order_spin_hw [upd_order]: "s\<lparr>spin := a, hw_if := c\<rparr> = s\<lparr>hw_if := c, spin := a\<rparr>"
  by simp

section \<open>What each operation does on a well-formed machine\<close>

lemma mycpu_eq: "mwf s \<Longrightarrow> \<not> hw_if s (lapicid s) \<Longrightarrow> mycpu s = Ret (this_cpu s) s"
  by (auto simp: mycpu_def readeflags_if_def mwf_at_def this_idx_def)

lemma pushcli_eq [simp]:
  assumes "mwf s"
  shows "pushcli s = Ret ()
    (s\<lparr>cpus := push_cpus (this_cpu s) (hw_if s (lapicid s)) (cpus s),
       hw_if := if_off (lapicid s) (hw_if s)\<rparr>)"
proof -
  let ?t = "s\<lparr>hw_if := (hw_if s)(lapicid s := False)\<rparr>"
  have "mycpu ?t = Ret (this_cpu s) ?t"
    using assms by (subst mycpu_eq) (simp_all add: mwf_at_def)
  with this_idx_in_range [OF assms] show ?thesis
    by (simp add: pushcli_def readeflags_if_def cli_def upd_cpu_def push_cpus_def if_off_def
        upd_at_def intena_ncli_commute)
qed

text \<open>\<open>popcli\<close> undoes a \<open>pushcli\<close> except that \<open>intena\<close> keeps the flag saved at depth 0.\<close>

lemma popcli_push:
  assumes "cpus t = push_cpus i f cs" and "hw_if t = if_off (lapicid t) h"
    and "mwf_at cs (lapicid t) h" and "i = this_idx (lapicid t) cs" and "f = h (lapicid t)"
  shows "popcli t = Ret () (t\<lparr>cpus := crit_cpus i f cs, hw_if := h\<rparr>)"
proof -
  have len: "i < length cs"
    using assms this_idx_in_range by blast
  have "mycpu t = Ret i t"
    using assms by (subst mycpu_eq) simp_all
  moreover have "(if_off (lapicid t) h)(lapicid t := True) = h" if "f"
    using that assms(5) by (simp add: if_off_def fun_upd_idem)
  moreover have "if_off (lapicid t) h = h" if "\<not> f"
    using that assms(5) by (simp add: if_off_def fun_upd_idem)
  ultimately show ?thesis
    using assms len
    by (auto simp: popcli_def readeflags_if_def upd_cpu_def sti_def push_cpus_def crit_cpus_def
        upd_at_def mwf_at_def)
qed

lemma myproc_eq [simp]:
  assumes "mwf s"
  shows "myproc s = Ret (cproc (cpus s ! this_cpu s))
    (s\<lparr>cpus := crit_cpus (this_cpu s) (hw_if s (lapicid s)) (cpus s)\<rparr>)"
  using assms this_idx_in_range [OF assms]
  by (simp add: myproc_def mycpu_eq popcli_push [where cs = "cpus s" and h = "hw_if s"])

lemma holding_eq [simp]:
  assumes "mwf s"
  shows "holding lk s = Ret (locked (spin s lk) \<and> lcpu (spin s lk) = Some (this_cpu s))
    (s\<lparr>cpus := crit_cpus (this_cpu s) (hw_if s (lapicid s)) (cpus s)\<rparr>)"
  using assms
  by (simp add: holding_def mycpu_eq popcli_push [where cs = "cpus s" and h = "hw_if s"])

lemma acquire_eq [simp]:
  assumes "mwf s" and "spinfree (spin s lk)"
  shows "acquire lk s = Ret ()
    (s\<lparr>cpus := push_cpus (this_cpu s) (hw_if s (lapicid s)) (cpus s),
       hw_if := if_off (lapicid s) (hw_if s),
       spin := acq_spin (this_cpu s) lk (spin s)\<rparr>)"
  using assms
  by (simp add: acquire_def xchg_turn_def mycpu_eq acq_spin_def spinfree_def)

lemma release_acq [simp]:
  assumes "cpus t = push_cpus i f cs" and "hw_if t = if_off (lapicid t) h"
    and "spin t = acq_spin i lk sp"
    and "mwf_at cs (lapicid t) h" and "i = this_idx (lapicid t) cs" and "f = h (lapicid t)"
    and "spinfree (sp lk)"
  shows "release lk t = Ret () (t\<lparr>cpus := crit_cpus i f cs, hw_if := h, spin := sp\<rparr>)"
proof -
  have eq: "(acq_spin i lk sp)(lk := (acq_spin i lk sp lk)\<lparr>lcpu := None, locked := False\<rparr>) = sp"
    using assms(7) by (auto simp: acq_spin_def spinfree_def)
  show ?thesis
    using assms eq
    by (simp add: release_def popcli_push [where cs = cs and h = h] acq_spin_def)
qed

lemma acquire_spins:
  assumes "mwf s" and "locked (spin s lk)" and "lcpu (spin s lk) \<noteq> Some (this_cpu s)"
  shows "acquire lk s = Spin lk
    (s\<lparr>cpus := push_cpus (this_cpu s) (hw_if s (lapicid s)) (cpus s),
       hw_if := if_off (lapicid s) (hw_if s)\<rparr>)"
  using assms by (simp add: acquire_def xchg_turn_def)

lemma acquire_twice_panics:
  assumes "mwf s" and "locked (spin s lk)" and "lcpu (spin s lk) = Some (this_cpu s)"
  shows "acquire lk s = Stop (Panic ''acquire'')"
  using assms by (simp add: acquire_def)

lemma release_not_held_panics:
  assumes "mwf s" and "\<not> (locked (spin s lk) \<and> lcpu (spin s lk) = Some (this_cpu s))"
  shows "release lk s = Stop (Panic ''release'')"
  using assms by (auto simp: release_def)

text \<open>\<open>release\<close> in any state in which the executing processor holds the lock.\<close>

lemma release_held:
  assumes "mwf s" and "locked (spin s lk)" and "lcpu (spin s lk) = Some (this_cpu s)"
    and "0 < ncli (cpus s ! this_cpu s)"
  shows "release lk s = Ret ()
    (s\<lparr>cpus := upd_at (this_cpu s) (\<lambda>c. c\<lparr>ncli := ncli c - 1\<rparr>) (cpus s),
       hw_if := (if ncli (cpus s ! this_cpu s) = 1 \<and> intena (cpus s ! this_cpu s)
                 then (hw_if s)(lapicid s := True) else hw_if s),
       spin := (spin s)(lk := (spin s lk)\<lparr>locked := False, lcpu := None\<rparr>)\<rparr>)"
proof -
  have len: "this_cpu s < length (cpus s)" by (rule this_idx_in_range [OF assms(1)])
  have crit: "crit_cpus (this_cpu s) f (cpus s) = cpus s" for f
    unfolding crit_cpus_def by (rule upd_at_id) (use assms(4) in simp)
  have off: "\<not> hw_if s (lapicid s)" using assms(1,4) by (simp add: mwf_at_def)
  have comm: "(l :: spinlock)\<lparr>lcpu := a, locked := b\<rparr> = l\<lparr>locked := b, lcpu := a\<rparr>" for l a b
    by simp
  let ?t = "s\<lparr>spin := (spin s)(lk := (spin s lk)\<lparr>locked := False, lcpu := None\<rparr>)\<rparr>"
  have "mycpu ?t = Ret (this_cpu s) ?t"
    using assms(1) off by (subst mycpu_eq) simp_all
  with assms len crit off show ?thesis
    by (auto simp: release_def popcli_def readeflags_if_def upd_cpu_def sti_def comm)
qed

section \<open>Mutual exclusion\<close>

text \<open>
  Several processors execute \<open>acquire\<close> and \<open>release\<close> in any order. \<open>held s a\<close> are the locks for
  which processor \<open>a\<close> has returned from \<open>acquire\<close> and not yet called \<open>release\<close>, \<open>waiting s a\<close> is
  the lock in whose \<open>xchg\<close> loop it is. A processor that holds nothing may have its interrupt flag
  changed (\<open>sti\<close>, entry to and return from user code).
\<close>

record smp = machine +
  held :: "byte \<Rightarrow> spinid list"
  waiting :: "byte \<Rightarrow> spinid option"

inductive smp_step :: "smp \<Rightarrow> smp \<Rightarrow> bool" where
  enter: "waiting s a = None \<Longrightarrow> a \<in> apicid ` set (cpus s) \<Longrightarrow> acquire lk (s\<lparr>lapicid := a\<rparr>) = Ret () t \<Longrightarrow>
    smp_step s (t\<lparr>held := (held t)(a := lk # held t a)\<rparr>)"
| spin_on: "waiting s a = None \<Longrightarrow> a \<in> apicid ` set (cpus s) \<Longrightarrow> acquire lk (s\<lparr>lapicid := a\<rparr>) = Spin lk t \<Longrightarrow>
    smp_step s (t\<lparr>waiting := (waiting t)(a := Some lk)\<rparr>)"
| retry: "waiting s a = Some lk \<Longrightarrow> xchg_turn lk (s\<lparr>lapicid := a\<rparr>) = Ret () t \<Longrightarrow>
    smp_step s (t\<lparr>held := (held t)(a := lk # held t a), waiting := (waiting t)(a := None)\<rparr>)"
| leave: "waiting s a = None \<Longrightarrow> a \<in> apicid ` set (cpus s) \<Longrightarrow> release lk (s\<lparr>lapicid := a\<rparr>) = Ret () t \<Longrightarrow>
    smp_step s (t\<lparr>held := (held t)(a := remove1 lk (held t a))\<rparr>)"
| set_if: "held s a = [] \<Longrightarrow> waiting s a = None \<Longrightarrow>
    smp_step s (s\<lparr>hw_if := (hw_if s)(a := f)\<rparr>)"

definition smp_init :: "smp \<Rightarrow> bool" where
  "smp_init s \<longleftrightarrow> distinct (map apicid (cpus s)) \<and> (\<forall>c \<in> set (cpus s). ncli c = 0) \<and>
     (\<forall>lk. spinfree (spin s lk)) \<and> (\<forall>a. held s a = [] \<and> waiting s a = None)"

inductive smp_reach :: "smp \<Rightarrow> smp \<Rightarrow> bool" for s0 where
  start: "smp_reach s0 s0"
| step: "smp_reach s0 s \<Longrightarrow> smp_step s t \<Longrightarrow> smp_reach s0 t"

text \<open>The depth counter counts the locks held and the one waited for; a lock's fields name its holder.\<close>

definition cpu_ok :: "smp \<Rightarrow> nat \<Rightarrow> bool" where
  "cpu_ok s i \<longleftrightarrow> (let c = cpus s ! i; a = apicid c in
     ncli c = int (length (held s a)) + (if waiting s a = None then 0 else 1) \<and>
     (0 < ncli c \<longrightarrow> \<not> hw_if s a) \<and> distinct (held s a))"

definition lock_ok :: "smp \<Rightarrow> spinid \<Rightarrow> bool" where
  "lock_ok s lk \<longleftrightarrow>
     (if locked (spin s lk)
      then (\<exists>i < length (cpus s). lcpu (spin s lk) = Some i \<and>
             (\<forall>a. lk \<in> set (held s a) \<longleftrightarrow> a = apicid (cpus s ! i)))
      else lcpu (spin s lk) = None \<and> (\<forall>a. lk \<notin> set (held s a)))"

definition smp_inv :: "smp \<Rightarrow> bool" where
  "smp_inv s \<longleftrightarrow> distinct (map apicid (cpus s)) \<and> (\<forall>i < length (cpus s). cpu_ok s i) \<and>
     (\<forall>lk. lock_ok s lk) \<and> (\<forall>a. waiting s a \<noteq> None \<longrightarrow> a \<in> apicid ` set (cpus s))"

lemma smp_init_inv: "smp_init s \<Longrightarrow> smp_inv s"
  by (auto simp: smp_init_def smp_inv_def cpu_ok_def lock_ok_def spinfree_def)

lemma find_apicid_distinct:
  assumes "distinct (map apicid cs)" and "i < length cs"
  shows "find_idx (\<lambda>c. apicid c = apicid (cs ! i)) cs = Some i"
proof -
  have "apicid (cs ! j) \<noteq> apicid (cs ! i)" if "j < i" for j
    using that assms nth_eq_iff_index_eq [of "map apicid cs" j i] by simp
  then show ?thesis using assms(2) by (simp add: find_idx_Some)
qed

text \<open>A processor of the table executes on a well-formed machine.\<close>

lemma smp_inv_mwf:
  assumes "smp_inv s" and "i < length (cpus s)"
  shows "mwf (s\<lparr>lapicid := apicid (cpus s ! i)\<rparr>)"
    and "this_cpu (s\<lparr>lapicid := apicid (cpus s ! i)\<rparr>) = i"
proof -
  have f: "find_idx (\<lambda>c. apicid c = apicid (cpus s ! i)) (cpus s) = Some i"
    using assms by (intro find_apicid_distinct) (simp_all add: smp_inv_def)
  have ok: "cpu_ok s i" using assms by (simp add: smp_inv_def)
  from f show "this_cpu (s\<lparr>lapicid := apicid (cpus s ! i)\<rparr>) = i" by (simp add: this_idx_def)
  from f ok show "mwf (s\<lparr>lapicid := apicid (cpus s ! i)\<rparr>)"
    by (auto simp: mwf_at_def this_idx_def cpu_ok_def Let_def)
qed

text \<open>A step of one processor on one lock keeps the invariant if it keeps the two parts it touches.\<close>

lemma smp_inv_local:
  assumes inv: "smp_inv s" and i: "i < length (cpus s)" and a: "a = apicid (cpus s ! i)"
    and cpus: "cpus t = upd_at i f (cpus s)" "\<And>c. apicid (f c) = apicid c"
    and frame: "\<And>b. b \<noteq> a \<Longrightarrow> hw_if t b = hw_if s b \<and> held t b = held s b \<and> waiting t b = waiting s b"
    and cpu: "cpu_ok t i"
    and spin: "\<And>lk'. lk' \<noteq> lk \<Longrightarrow> spin t lk' = spin s lk'"
    and heldt: "\<And>lk'. lk' \<noteq> lk \<Longrightarrow> lk' \<in> set (held t a) \<longleftrightarrow> lk' \<in> set (held s a)"
    and lock: "lock_ok t lk"
  shows "smp_inv t"
proof -
  have ap: "map apicid (cpus t) = map apicid (cpus s)"
    unfolding cpus(1) by (rule map_upd_at_inv) (rule cpus(2))
  have len: "length (cpus t) = length (cpus s)" by (simp add: cpus)
  have apj: "apicid (cpus t ! j) = apicid (cpus s ! j)" if "j < length (cpus s)" for j
    using ap that len by (metis nth_map)
  have dist: "distinct (map apicid (cpus s))" using inv by (simp add: smp_inv_def)
  have cpus_ok: "cpu_ok t j" if "j < length (cpus s)" for j
  proof (cases "j = i")
    case True
    with cpu show ?thesis by simp
  next
    case False
    with that i a dist have "apicid (cpus s ! j) \<noteq> a"
      using nth_eq_iff_index_eq [of "map apicid (cpus s)" j i] by simp
    moreover have "cpu_ok s j" using inv that by (simp add: smp_inv_def)
    moreover have "cpus t ! j = cpus s ! j" using False by (simp add: cpus)
    ultimately show ?thesis using frame by (simp add: cpu_ok_def Let_def)
  qed
  have held_iff: "lk' \<in> set (held t b) \<longleftrightarrow> lk' \<in> set (held s b)" if "lk' \<noteq> lk" for lk' b
    using frame heldt that by (cases "b = a") auto
  have "lock_ok t lk'" for lk'
  proof (cases "lk' = lk")
    case True
    with lock show ?thesis by simp
  next
    case False
    have "lock_ok s lk'" using inv by (simp add: smp_inv_def)
    with False spin held_iff apj len show ?thesis
      by (auto simp: lock_ok_def split: if_splits)
  qed
  moreover have "apicid ` set (cpus t) = apicid ` set (cpus s)"
    using ap by (metis image_set)
  moreover have "a \<in> apicid ` set (cpus s)" using i a by simp
  ultimately show ?thesis
    using dist ap cpus_ok len frame inv unfolding smp_inv_def by metis
qed

lemma smp_enter_inv:
  assumes "waiting s a = None" "a \<in> apicid ` set (cpus s)" "acquire lk (s\<lparr>lapicid := a\<rparr>) = Ret () t" "smp_inv s"
  shows "smp_inv (t\<lparr>held := (held t)(a := lk # held t a)\<rparr>)"
proof -
  obtain i where i: "i < length (cpus s)" "a = apicid (cpus s ! i)"
    using assms(2) by (auto simp: in_set_conv_nth)
  note m = smp_inv_mwf [OF assms(4) i(1), folded i(2)]
  have ok: "cpu_ok s i" "lock_ok s lk" using assms(4) i by (simp_all add: smp_inv_def)
  have free: "spinfree (spin s lk)"
    using assms(3) m acquire_spins [OF m(1), of lk] acquire_twice_panics [OF m(1), of lk] ok(2)
    by (auto simp: spinfree_def lock_ok_def split: if_splits)
  have t: "t = s\<lparr>lapicid := a, cpus := push_cpus i (hw_if s a) (cpus s), hw_if := if_off a (hw_if s),
      spin := acq_spin i lk (spin s)\<rparr>"
    using assms(3) acquire_eq [OF m(1), of lk] free m(2) by simp
  show ?thesis
    by (rule smp_inv_local [OF assms(4) i, where lk = lk,
          where f = "\<lambda>c. c\<lparr>ncli := ncli c + 1, intena := (if ncli c = 0 then hw_if s a else intena c)\<rparr>"])
      (use ok i assms(1) free in
        \<open>auto simp: t push_cpus_def if_off_def cpu_ok_def Let_def lock_ok_def spinfree_def\<close>)
qed

lemma smp_spin_on_inv:
  assumes "waiting s a = None" "a \<in> apicid ` set (cpus s)" "acquire lk (s\<lparr>lapicid := a\<rparr>) = Spin lk t" "smp_inv s"
  shows "smp_inv (t\<lparr>waiting := (waiting t)(a := Some lk)\<rparr>)"
proof -
  obtain i where i: "i < length (cpus s)" "a = apicid (cpus s ! i)"
    using assms(2) by (auto simp: in_set_conv_nth)
  note m = smp_inv_mwf [OF assms(4) i(1), folded i(2)]
  have ok: "cpu_ok s i" "lock_ok s lk" using assms(4) i by (simp_all add: smp_inv_def)
  have notfree: "locked (spin s lk)" "lcpu (spin s lk) \<noteq> Some i"
    using assms(3) m acquire_eq [OF m(1), of lk] acquire_twice_panics [OF m(1), of lk] ok(2)
    by (auto simp: spinfree_def lock_ok_def split: if_splits)
  have t: "t = s\<lparr>lapicid := a, cpus := push_cpus i (hw_if s a) (cpus s), hw_if := if_off a (hw_if s)\<rparr>"
    using assms(3) acquire_spins [OF m(1), of lk] notfree m(2) by simp
  show ?thesis
    by (rule smp_inv_local [OF assms(4) i, where lk = lk,
          where f = "\<lambda>c. c\<lparr>ncli := ncli c + 1, intena := (if ncli c = 0 then hw_if s a else intena c)\<rparr>"])
      (use ok i assms(1) in
        \<open>auto simp: t push_cpus_def if_off_def cpu_ok_def Let_def lock_ok_def nth_upd_at split: if_splits\<close>)
qed

lemma smp_retry_inv:
  assumes "waiting s a = Some lk" "xchg_turn lk (s\<lparr>lapicid := a\<rparr>) = Ret () t" "smp_inv s"
  shows "smp_inv (t\<lparr>held := (held t)(a := lk # held t a), waiting := (waiting t)(a := None)\<rparr>)"
proof -
  have "a \<in> apicid ` set (cpus s)" using assms by (auto simp: smp_inv_def)
  then obtain i where i: "i < length (cpus s)" "a = apicid (cpus s ! i)"
    by (auto simp: in_set_conv_nth)
  note m = smp_inv_mwf [OF assms(3) i(1), folded i(2)]
  have ok: "cpu_ok s i" "lock_ok s lk" using assms(3) i by (simp_all add: smp_inv_def)
  have off: "\<not> hw_if s a" using ok(1) i(2) assms(1) by (auto simp: cpu_ok_def Let_def)
  have free: "\<not> locked (spin s lk)"
    using assms(2) by (auto simp: xchg_turn_def split: if_splits)
  let ?u = "s\<lparr>lapicid := a, spin := (spin s)(lk := (spin s lk)\<lparr>locked := True\<rparr>)\<rparr>"
  have "mycpu ?u = Ret i ?u" using m off by (subst mycpu_eq) simp_all
  then have t: "t = s\<lparr>lapicid := a, spin := acq_spin i lk (spin s)\<rparr>"
    using assms(2) free by (simp add: xchg_turn_def acq_spin_def)
  show ?thesis
    by (rule smp_inv_local [OF assms(3) i, where lk = lk and f = id])
      (use ok i assms(1) free in
        \<open>auto simp: t upd_at_id cpu_ok_def Let_def lock_ok_def\<close>)
qed

lemma smp_leave_inv:
  assumes "waiting s a = None" "a \<in> apicid ` set (cpus s)" "release lk (s\<lparr>lapicid := a\<rparr>) = Ret () t" "smp_inv s"
  shows "smp_inv (t\<lparr>held := (held t)(a := remove1 lk (held t a))\<rparr>)"
proof -
  obtain i where i: "i < length (cpus s)" "a = apicid (cpus s ! i)"
    using assms(2) by (auto simp: in_set_conv_nth)
  note m = smp_inv_mwf [OF assms(4) i(1), folded i(2)]
  have ok: "cpu_ok s i" "lock_ok s lk" using assms(4) i by (simp_all add: smp_inv_def)
  have h: "locked (spin s lk)" "lcpu (spin s lk) = Some i"
    using assms(3) release_not_held_panics [OF m(1), of lk] m(2) by auto
  have mem: "lk \<in> set (held s a)" using ok(2) h i by (auto simp: lock_ok_def)
  then have pos: "0 < length (held s a)" by auto
  have n: "ncli (cpus s ! i) = int (length (held s a))"
    using ok(1) i(2) assms(1) by (simp add: cpu_ok_def Let_def)
  have len: "int (length (remove1 lk (held s a))) = int (length (held s a)) - 1"
  proof -
    have "length (remove1 lk (held s a)) = length (held s a) - 1"
      using mem by (simp add: length_remove1)
    with pos show ?thesis by linarith
  qed
  have t: "t = s\<lparr>lapicid := a, cpus := upd_at i (\<lambda>c. c\<lparr>ncli := ncli c - 1\<rparr>) (cpus s),
      hw_if := (if ncli (cpus s ! i) = 1 \<and> intena (cpus s ! i) then (hw_if s)(a := True) else hw_if s),
      spin := (spin s)(lk := (spin s lk)\<lparr>locked := False, lcpu := None\<rparr>)\<rparr>"
    using assms(3) release_held [OF m(1), of lk] m(2) h n pos by simp
  show ?thesis
    by (rule smp_inv_local [OF assms(4) i, where lk = lk and f = "\<lambda>c. c\<lparr>ncli := ncli c - 1\<rparr>"])
      (use ok i assms(1) h n len mem in
        \<open>auto simp: t cpu_ok_def Let_def lock_ok_def simp del: of_nat_diff\<close>)
qed

lemma smp_step_inv:
  assumes "smp_step s t" and "smp_inv s"
  shows "smp_inv t"
  using assms
proof (induction rule: smp_step.induct)
  case (enter s a lk t)
  then show ?case by (rule smp_enter_inv)
next
  case (spin_on s a lk t)
  then show ?case by (rule smp_spin_on_inv)
next
  case (retry s a lk t)
  then show ?case by (rule smp_retry_inv)
next
  case (leave s a lk t)
  then show ?case by (rule smp_leave_inv)
next
  case (set_if s a f)
  then show ?case by (force simp: smp_inv_def cpu_ok_def lock_ok_def Let_def)
qed

lemma smp_reach_inv: "smp_reach s0 s \<Longrightarrow> smp_init s0 \<Longrightarrow> smp_inv s"
  by (induction rule: smp_reach.induct) (auto intro: smp_init_inv smp_step_inv)

text \<open>
  C1: however the processors interleave their acquires, spins and releases, no two of them are
  between acquire and release of the same lock, and a processor that is has interrupts disabled.
\<close>

theorem mutual_exclusion:
  assumes "smp_init s0" and "smp_reach s0 s" and "lk \<in> set (held s a)" and "lk \<in> set (held s b)"
  shows "a = b \<and> \<not> hw_if s a"
proof -
  have inv: "smp_inv s" by (rule smp_reach_inv [OF assms(2,1)])
  then have "lock_ok s lk" by (simp add: smp_inv_def)
  then obtain i where i: "i < length (cpus s)" "\<forall>c. lk \<in> set (held s c) \<longleftrightarrow> c = apicid (cpus s ! i)"
    using assms(3) by (auto simp: lock_ok_def split: if_splits)
  have "cpu_ok s i" using inv i by (simp add: smp_inv_def)
  moreover have "held s (apicid (cpus s ! i)) \<noteq> []" using i by force
  ultimately show ?thesis using i assms(3,4) by (auto simp: cpu_ok_def Let_def)
qed

definition smp_ex :: smp where
  "smp_ex = \<lparr>cpus = [\<lparr>apicid = 0, ncli = 0, intena = False, cproc = None, cr3 = 0, ts_esp0 = 0\<rparr>,
                    \<lparr>apicid = 1, ncli = 0, intena = False, cproc = None, cr3 = 0, ts_esp0 = 0\<rparr>],
     lapicid = 0, hw_if = (\<lambda>_. True),
     spin = (\<lambda>_. \<lparr>locked = False, lname = [], lcpu = None\<rparr>),
     held = (\<lambda>_. []), waiting = (\<lambda>_. None)\<rparr>"

theorem mutual_exclusion_witness:
  "\<exists>s. smp_init smp_ex \<and> smp_reach smp_ex s \<and> PtableLk \<in> set (held s 1) \<and> \<not> hw_if s 1"
proof -
  have init: "smp_init smp_ex" by (simp add: smp_init_def smp_ex_def spinfree_def)
  have m: "mwf (smp_ex\<lparr>lapicid := 1\<rparr>)" "spinfree (spin (smp_ex\<lparr>lapicid := 1\<rparr>) PtableLk)"
    by (simp_all add: mwf_at_def this_idx_def smp_ex_def spinfree_def)
  obtain t where t: "acquire PtableLk (smp_ex\<lparr>lapicid := 1\<rparr>) = Ret () t"
    using acquire_eq [OF m] by blast
  let ?s = "t\<lparr>held := (held t)(1 := PtableLk # held t 1)\<rparr>"
  have "smp_step smp_ex ?s"
    by (rule smp_step.enter [OF _ _ t]) (simp_all add: smp_ex_def)
  then have "smp_reach smp_ex ?s"
    by (rule smp_reach.step [OF smp_reach.start])
  with mutual_exclusion [OF init this, of PtableLk 1 1] init show ?thesis by force
qed

end
