(* ===== verification/Memory.thy ===== *)
theory Memory
  imports Prelude
begin

unbundle bit_operations_syntax

text \<open>
  The byte-addressed memory of the machine and the routines of \<open>string.c\<close> over it. Addresses
  are 32-bit words, so pointer arithmetic wraps as it does on the machine. The string instructions
  \<open>rep stosb\<close> and \<open>rep stosl\<close> of \<open>x86.h\<close> store the same byte or word at consecutive addresses.
\<close>

section \<open>Bytes and words in memory\<close>

type_synonym mem = "uint \<Rightarrow> byte"

definition load32 :: "mem \<Rightarrow> uint \<Rightarrow> uint" where
  "load32 m a = ucast (m a) OR push_bit 8 (ucast (m (a + 1)))
     OR push_bit 16 (ucast (m (a + 2))) OR push_bit 24 (ucast (m (a + 3)))"

definition store32 :: "mem \<Rightarrow> uint \<Rightarrow> uint \<Rightarrow> mem" where
  "store32 m a v = m(a := ucast v, a + 1 := ucast (drop_bit 8 v),
     a + 2 := ucast (drop_bit 16 v), a + 3 := ucast (drop_bit 24 v))"

section \<open>The string routines\<close>

fun stosb :: "mem \<Rightarrow> uint \<Rightarrow> byte \<Rightarrow> nat \<Rightarrow> mem" where
  "stosb m a b 0 = m"
| "stosb m a b (Suc n) = stosb (m(a := b)) (a + 1) b n"

fun stosl :: "mem \<Rightarrow> uint \<Rightarrow> uint \<Rightarrow> nat \<Rightarrow> mem" where
  "stosl m a v 0 = m"
| "stosl m a v (Suc n) = stosl (store32 m a v) (a + 4) v n"

definition memset :: "mem \<Rightarrow> uint \<Rightarrow> uint \<Rightarrow> uint \<Rightarrow> mem" where
  "memset m dst c n =
     (if sint dst mod 4 = 0 \<and> n mod 4 = 0
      then let c = c AND 0xFF in
           stosl m dst (push_bit 24 c OR push_bit 16 c OR push_bit 8 c OR c) (unat (n div 4))
      else stosb m dst (ucast c) (unat n))"

fun memcmp :: "mem \<Rightarrow> uint \<Rightarrow> uint \<Rightarrow> nat \<Rightarrow> int" where
  "memcmp m s1 s2 0 = 0"
| "memcmp m s1 s2 (Suc n) =
     (if m s1 \<noteq> m s2 then uint (m s1) - uint (m s2) else memcmp m (s1 + 1) (s2 + 1) n)"

fun copy_down :: "mem \<Rightarrow> uint \<Rightarrow> uint \<Rightarrow> nat \<Rightarrow> mem" where
  "copy_down m d s 0 = m"
| "copy_down m d s (Suc n) = copy_down (m(d - 1 := m (s - 1))) (d - 1) (s - 1) n"

fun copy_up :: "mem \<Rightarrow> uint \<Rightarrow> uint \<Rightarrow> nat \<Rightarrow> mem" where
  "copy_up m d s 0 = m"
| "copy_up m d s (Suc n) = copy_up (m(d := m s)) (d + 1) (s + 1) n"

definition memmove :: "mem \<Rightarrow> uint \<Rightarrow> uint \<Rightarrow> uint \<Rightarrow> mem" where
  "memmove m dst src n =
     (if src < dst \<and> src + n > dst then copy_down m (dst + n) (src + n) (unat n)
      else copy_up m dst src (unat n))"

definition memcpy :: "mem \<Rightarrow> uint \<Rightarrow> uint \<Rightarrow> uint \<Rightarrow> mem" where
  "memcpy m dst src n = memmove m dst src n"

fun strncmp :: "mem \<Rightarrow> uint \<Rightarrow> uint \<Rightarrow> nat \<Rightarrow> int" where
  "strncmp m p q 0 = 0"
| "strncmp m p q (Suc n) =
     (if m p \<noteq> 0 \<and> m p = m q then strncmp m (p + 1) (q + 1) n
      else uint (m p) - uint (m q))"

text \<open>The two loops of \<open>strncpy\<close>: copy up to and including the NUL, then pad with zeros.\<close>

fun strncpy_copy :: "mem \<Rightarrow> uint \<Rightarrow> uint \<Rightarrow> nat \<Rightarrow> mem" where
  "strncpy_copy m s t 0 = m"
| "strncpy_copy m s t (Suc n) =
     (let m' = m(s := m t) in
      if m t \<noteq> 0 then strncpy_copy m' (s + 1) (t + 1) n else stosb m' (s + 1) 0 n)"

definition strncpy :: "mem \<Rightarrow> uint \<Rightarrow> uint \<Rightarrow> int \<Rightarrow> mem" where
  "strncpy m s t n = strncpy_copy m s t (nat n)"

fun safestrcpy_copy :: "mem \<Rightarrow> uint \<Rightarrow> uint \<Rightarrow> nat \<Rightarrow> mem" where
  "safestrcpy_copy m s t 0 = m(s := 0)"
| "safestrcpy_copy m s t (Suc n) =
     (let m' = m(s := m t) in
      if m t \<noteq> 0 then safestrcpy_copy m' (s + 1) (t + 1) n else m'(s + 1 := 0))"

definition safestrcpy :: "mem \<Rightarrow> uint \<Rightarrow> uint \<Rightarrow> int \<Rightarrow> mem" where
  "safestrcpy m s t n = (if n \<le> 0 then m else safestrcpy_copy m s t (nat (n - 1)))"

partial_function (option) strlen_from :: "mem \<Rightarrow> uint \<Rightarrow> int \<Rightarrow> int option" where
  "strlen_from m s n =
     (if m (s + word_of_int n) = 0 then Some n else strlen_from m s (n + 1))"

definition strlen :: "mem \<Rightarrow> uint \<Rightarrow> int option" where
  "strlen m s = strlen_from m s 0"

section \<open>Addresses\<close>

text \<open>\<open>off a x\<close> is the distance from \<open>a\<close> up to \<open>x\<close>: \<open>x\<close> lies in the \<open>n\<close> bytes at \<open>a\<close> iff it is below \<open>n\<close>.\<close>

abbreviation off :: "uint \<Rightarrow> uint \<Rightarrow> nat" where
  "off a x \<equiv> unat (x - a)"

lemma unat32_lt: "unat (w :: uint) < 4294967296"
  using unsigned_less [of w, where 'a = nat] by simp

lemma off_Suc:
  assumes "x \<noteq> a"
  shows "off a x = Suc (off (a + 1) x)"
proof -
  have "x - a \<noteq> 0" using assms by simp
  then have "unat (x - a) = Suc (unat (x - a - 1))"
    by (metis Suc_pred unat_minus_one unat_gt_0 neq0_conv unat_eq_zero One_nat_def)
  then show ?thesis by (simp add: diff_diff_eq)
qed

lemma off_shift:
  assumes "off a x \<ge> k" and "k < 2 ^ 32"
  shows "off a x = k + off (a + of_nat k) x"
proof -
  have "of_nat k \<le> x - a" using assms by (simp add: word_le_nat_alt unat_of_nat)
  then have "unat (x - a - of_nat k) = unat (x - a) - k"
    using assms by (simp add: unat_sub unat_of_nat)
  then show ?thesis using assms by (simp add: diff_diff_eq)
qed

section \<open>Loads and stores\<close>

lemma load32_store32_same [simp]: "load32 (store32 m a v) a = v"
proof -
  have "load32 (store32 m a v) a =
    ucast (ucast v :: byte) OR push_bit 8 (ucast (ucast (drop_bit 8 v) :: byte))
     OR push_bit 16 (ucast (ucast (drop_bit 16 v) :: byte))
     OR push_bit 24 (ucast (ucast (drop_bit 24 v) :: byte))"
    by (simp add: load32_def store32_def)
  also have "\<dots> = v"
  proof (rule bit_word_eqI)
    fix n :: nat
    assume "n < LENGTH(32)"
    moreover have "n < 8 \<or> (8 \<le> n \<and> n < 16) \<or> (16 \<le> n \<and> n < 24) \<or> 24 \<le> n" by linarith
    ultimately show "bit ((ucast (ucast v :: byte) :: uint)
        OR push_bit 8 (ucast (ucast (drop_bit 8 v) :: byte))
        OR push_bit 16 (ucast (ucast (drop_bit 16 v) :: byte))
        OR push_bit 24 (ucast (ucast (drop_bit 24 v) :: byte))) n = bit v n"
      by (elim disjE) (auto simp: bit_simps)
  qed
  finally show ?thesis .
qed

lemma load32_cong: "(\<And>k. k < 4 \<Longrightarrow> m (a + of_nat k) = m' (a + of_nat k)) \<Longrightarrow> load32 m a = load32 m' a"
proof -
  assume "\<And>k. k < 4 \<Longrightarrow> m (a + of_nat k) = m' (a + of_nat k)"
  from this [of 0] this [of 1] this [of 2] this [of 3] show ?thesis
    by (simp add: load32_def)
qed

lemma store32_other: "4 \<le> off a x \<Longrightarrow> store32 m a v x = m x"
  by (auto simp: store32_def)

section \<open>Filling\<close>

lemma stosb_fill: "stosb m a b n = (\<lambda>x. if off a x < n then b else m x)"
proof (induction n arbitrary: m a)
  case (Suc n)
  show ?case
  proof
    fix x
    show "stosb m a b (Suc n) x = (if off a x < Suc n then b else m x)"
      using Suc by (cases "x = a") (auto simp: off_Suc)
  qed
qed simp

lemma stosb_add: "stosb m a b (j + k) = stosb (stosb m a b j) (a + of_nat j) b k"
  by (induction j arbitrary: m a) (auto simp: add.assoc)

lemma store32_rep:
  fixes c :: uint
  defines "d \<equiv> c AND 0xFF"
  shows "store32 m a (push_bit 24 d OR push_bit 16 d OR push_bit 8 d OR d) = stosb m a (ucast c) 4"
proof -
  have "d = take_bit 8 c" by (simp add: d_def take_bit_eq_mask mask_eq_decr_exp)
  then have "ucast (push_bit 24 d OR push_bit 16 d OR push_bit 8 d OR d) = (ucast c :: byte)"
    and "ucast (drop_bit 8 (push_bit 24 d OR push_bit 16 d OR push_bit 8 d OR d)) = (ucast c :: byte)"
    and "ucast (drop_bit 16 (push_bit 24 d OR push_bit 16 d OR push_bit 8 d OR d)) = (ucast c :: byte)"
    and "ucast (drop_bit 24 (push_bit 24 d OR push_bit 16 d OR push_bit 8 d OR d)) = (ucast c :: byte)"
    by (auto intro!: bit_word_eqI simp: bit_simps)
  then show ?thesis
    by (simp add: store32_def numeral_eq_Suc add.assoc)
qed

lemma stosl_stosb:
  assumes "\<And>m a. store32 m a v = stosb m a b 4"
  shows "stosl m a v n = stosb m a b (4 * n)"
proof (induction n arbitrary: m a)
  case (Suc n)
  have "stosb m a b (4 * Suc n) = stosb (stosb m a b 4) (a + 4) b (4 * n)"
    using stosb_add [of m a b 4 "4 * n"] by simp
  then show ?case using Suc by (simp add: assms)
qed simp

lemma memset_eq_fill:
  "memset m dst c n = (\<lambda>x. if off dst x < unat n then ucast c else m x)"
proof (cases "sint dst mod 4 = 0 \<and> n mod 4 = 0")
  case True
  have "4 * unat (n div 4) = unat n"
  proof -
    have "unat (n mod 4) = 0" using True by simp
    then have "unat n mod 4 = 0" by (simp add: unat_mod)
    then have "4 * (unat n div 4) = unat n" by presburger
    then show ?thesis by (simp add: unat_div)
  qed
  with True show ?thesis
    unfolding memset_def Let_def by (simp only: stosl_stosb [OF store32_rep] stosb_fill) simp
qed (auto simp: memset_def stosb_fill)

section \<open>Copying\<close>

lemma copy_up_eq:
  assumes "\<And>k. k < n \<Longrightarrow> k \<le> off d (s + of_nat k)" and "n \<le> 2 ^ 32"
  shows "copy_up m d s n = (\<lambda>x. if off d x < n then m (s + (x - d)) else m x)"
  using assms
proof (induction n arbitrary: m d s)
  case (Suc n)
  have ih: "copy_up (m(d := m s)) (d + 1) (s + 1) n =
      (\<lambda>x. if off (d + 1) x < n then (m(d := m s)) (s + 1 + (x - (d + 1))) else (m(d := m s)) x)"
  proof (rule Suc.IH)
    fix k
    assume "k < n"
    then show "k \<le> off (d + 1) (s + 1 + of_nat k)"
      using Suc.prems(1) [of k] by (simp add: algebra_simps)
  qed (use Suc.prems in simp)
  show ?case
  proof
    fix x
    show "copy_up m d s (Suc n) x = (if off d x < Suc n then m (s + (x - d)) else m x)"
    proof (cases "x = d")
      case True
      have "s - 1 + (d - d + 1) = s" by simp
      have "s + 1 + (d - (d + 1)) = s" by (simp add: algebra_simps)
      then show ?thesis using True by (simp add: ih)
    next
      case False
      have r: "s + 1 + (x - (d + 1)) = s + (x - d)" by (simp add: algebra_simps)
      have "s + (x - d) \<noteq> d" if "off d x < Suc n"
      proof
        assume "s + (x - d) = d"
        then show False
          using Suc.prems(1) [OF that] False by (simp add: unat_eq_zero)
      qed
      then show ?thesis using False by (auto simp: ih r off_Suc)
    qed
  qed
qed simp

lemma copy_down_eq:
  assumes "\<And>k. k < n \<Longrightarrow> k \<le> unat (d - s + of_nat k)" and "n \<le> 2 ^ 32"
  shows "copy_down m d s n = (\<lambda>x. if unat (d - 1 - x) < n then m (s - (d - x)) else m x)"
  using assms
proof (induction n arbitrary: m d s)
  case (Suc n)
  let ?m = "m(d - 1 := m (s - 1))"
  have ih: "copy_down ?m (d - 1) (s - 1) n =
      (\<lambda>x. if unat (d - 1 - 1 - x) < n then ?m (s - 1 - (d - 1 - x)) else ?m x)"
    by (rule Suc.IH) (use Suc.prems in auto)
  show ?case
  proof
    fix x
    have r: "s - 1 - (d - 1 - x) = s - (d - x)" by (simp add: algebra_simps)
    show "copy_down m d s (Suc n) x =
        (if unat (d - 1 - x) < Suc n then m (s - (d - x)) else m x)"
    proof (cases "x = d - 1")
      case False
      have "d - 1 - x \<noteq> 0" using False by auto
      then have *: "unat (d - 1 - x) = Suc (unat (d - 1 - 1 - x))"
        using off_Suc [of "d - 1 - x" 0] by (simp add: algebra_simps)
      have "s - (d - x) \<noteq> d - 1" if "unat (d - 1 - x) < Suc n"
      proof
        assume eq: "s - (d - x) = d - 1"
        have "d - s + of_nat (unat (d - 1 - x)) = d - 1 - (s - (d - x))"
          by (simp add: algebra_simps)
        also have "\<dots> = 0" by (simp only: eq) simp
        finally show False using Suc.prems(1) [OF that] * by simp
      qed
      then show ?thesis using * by (auto simp: ih r)
    qed (simp add: ih r)
  qed
qed simp

lemma mirror_less:
  fixes n y :: uint
  assumes "n \<noteq> 0"
  shows "unat (n - 1 - y) < unat n \<longleftrightarrow> unat y < unat n"
proof -
  have p: "unat (n - 1) = unat n - 1" and pos: "0 < unat n"
    using assms by (simp_all add: unat_minus_one unat_gt_0)
  show ?thesis
  proof (cases "y \<le> n - 1")
    case True
    then have "unat (n - 1 - y) = unat n - 1 - unat y" by (simp add: unat_sub p)
    moreover have "unat y \<le> unat n - 1" using True p by (simp add: word_le_nat_alt)
    ultimately show ?thesis using pos by linarith
  next
    case False
    then have lt: "unat n - 1 < unat y" using p by (simp add: word_le_nat_alt)
    have "unat (n - 1 - y) = unat (n - 1) + 4294967296 - unat y"
      using False by (subst unat_sub_if') (simp add: word_le_nat_alt)
    then show ?thesis using lt p pos unat32_lt [of y] by linarith
  qed
qed

lemma memmove_eq:
  assumes "unat src + unat n < 2 ^ 32" and "unat dst + unat n \<le> 2 ^ 32"
  shows "memmove m dst src n = (\<lambda>x. if off dst x < unat n then m (src + (x - dst)) else m x)"
proof (cases "src < dst \<and> src + n > dst")
  case True
  have le: "unat n \<le> 2 ^ 32" using unat32_lt [of n] by simp
  have sn: "unat (src + n) = unat src + unat n"
    using assms by (simp add: unat_word_ariths)
  have up: "unat (dst - src) = unat dst - unat src"
    using True by (simp add: unat_sub word_less_nat_alt order_less_imp_le)
  have ok: "k \<le> unat (dst + n - (src + n) + of_nat k)" if "k < unat n" for k
  proof -
    have "unat (dst - src) + k < 2 ^ 32" using assms that up by linarith
    then show ?thesis
      using that assms by (simp add: unat_word_ariths unat_of_nat)
  qed
  have dom: "(unat (dst + n - 1 - x) < unat n) = (off dst x < unat n)" for x
  proof -
    have n0: "n \<noteq> 0" using True by (auto simp: word_less_nat_alt)
    have r: "dst + n - 1 - x = n - 1 - (x - dst)" by (simp add: algebra_simps)
    show ?thesis unfolding r by (rule mirror_less [OF n0])
  qed
  have r: "src + n - (dst + n - x) = src + (x - dst)" for x by (simp add: algebra_simps)
  from True show ?thesis
    by (auto simp: memmove_def copy_down_eq [OF ok le] dom r)
next
  case False
  have le: "unat n \<le> 2 ^ 32" using unat32_lt [of n] by simp
  have ok: "k \<le> off dst (src + of_nat k)" if k: "k < unat n" for k
  proof (cases "dst \<le> src")
    case True
    have *: "src + of_nat k - dst = src - dst + of_nat k" by simp
    have "unat (src - dst) + k < 2 ^ 32"
      using assms k True by (simp add: unat_sub)
    then show ?thesis unfolding * using k by (simp add: unat_word_ariths unat_of_nat)
  next
    case lt: False
    have "unat (src + n) = unat src + unat n"
      using assms by (simp add: unat_word_ariths)
    with False lt have "unat src + unat n \<le> unat dst"
      by (simp add: word_le_nat_alt word_less_nat_alt)
    then show ?thesis
      using k unat32_lt [of dst] unat32_lt [of src] assms
      by (simp add: unat_sub_if' word_le_nat_alt unat_word_ariths unat_of_nat)
  qed
  with False show ?thesis
    by (auto simp: memmove_def copy_up_eq [OF ok le])
qed

section \<open>Strings\<close>

text \<open>The string a pointer names: the bytes up to the NUL, at most \<open>n\<close> of them.\<close>

fun cstrn :: "mem \<Rightarrow> uint \<Rightarrow> nat \<Rightarrow> byte list" where
  "cstrn m p 0 = []"
| "cstrn m p (Suc n) = (if m p = 0 then [] else m p # cstrn m (p + 1) n)"

lemma cstrn_numeral [simp]:
  "cstrn m p (numeral k) = (if m p = 0 then [] else m p # cstrn m (p + 1) (pred_numeral k))"
  by (simp add: numeral_eq_Suc)

lemma cstrn_cong: "(\<And>k. k < n \<Longrightarrow> m (p + of_nat k) = m' (p + of_nat k)) \<Longrightarrow> cstrn m p n = cstrn m' p n"
proof (induction n arbitrary: p)
  case (Suc n)
  have "m (p + 1 + of_nat k) = m' (p + 1 + of_nat k)" if "k < n" for k
    using Suc.prems [of "Suc k"] that by (simp add: add.assoc)
  with Suc.IH [of "p + 1"] Suc.prems [of 0] show ?case by simp
qed simp

lemma strncmp_eq_0: "strncmp m p q n = 0 \<longleftrightarrow> cstrn m p n = cstrn m q n"
  by (induction n arbitrary: p q) (auto simp: word_uint_eq_iff)

lemma strncmp_neg: "strncmp m p q n < 0 \<longleftrightarrow> ord_class.lexordp (cstrn m p n) (cstrn m q n)"
  by (induction n arbitrary: p q)
    (auto simp: word_less_def word_uint_eq_iff less_le)

lemma safestrcpy_copy_ok:
  assumes "\<And>k. k < Suc n \<Longrightarrow> Suc n \<le> off s (t + of_nat k)" and "n < 2 ^ 32"
  shows "cstrn (safestrcpy_copy m s t n) s (Suc n) = cstrn m t n \<and>
    (\<forall>x. Suc n \<le> off s x \<longrightarrow> safestrcpy_copy m s t n x = m x)"
  using assms
proof (induction n arbitrary: m s t)
  case (Suc n)
  let ?m = "m(s := m t)"
  have far: "t + of_nat k \<noteq> s" if "k < Suc (Suc n)" for k
    using Suc.prems(1) [OF that] by auto
  have t: "t \<noteq> s" using far [of 0] by simp
  have pre: "Suc n \<le> off (s + 1) (t + 1 + of_nat k)" if "k < Suc n" for k
  proof -
    have "Suc (Suc n) \<le> off s (t + of_nat (Suc k))"
      using Suc.prems(1) [of "Suc k"] that by (simp only: Suc_less_eq)
    then show ?thesis
      using far [of "Suc k"] that by (simp add: off_Suc add.assoc)
  qed
  have n: "n < 2 ^ 32" using Suc.prems by simp
  have last: "Suc n \<le> off (s + 1) s"
  proof -
    have "s - (s + 1) = - 1" by simp
    then have "off (s + 1) s = 4294967295" by (simp add: unsigned_minus_1_eq_mask mask_eq_exp_minus_1)
    then show ?thesis using Suc.prems(2) by simp
  qed
  have ihc: "cstrn (safestrcpy_copy ?m (s + 1) (t + 1) n) (s + 1) (Suc n) = cstrn ?m (t + 1) n \<and>
      (\<forall>x. Suc n \<le> off (s + 1) x \<longrightarrow> safestrcpy_copy ?m (s + 1) (t + 1) n x = ?m x)"
    by (rule Suc.IH) (use pre n in auto)
  note ih = conjunct1 [OF ihc] conjunct2 [OF ihc, rule_format]
  have tl: "cstrn ?m (t + 1) n = cstrn m (t + 1) n"
  proof (rule cstrn_cong)
    fix k
    assume "k < n"
    then show "?m (t + 1 + of_nat k) = m (t + 1 + of_nat k)"
      using far [of "Suc k"] by (simp add: add.assoc)
  qed
  have "safestrcpy_copy m s t (Suc n) x = m x" if "Suc (Suc n) \<le> off s x" for x
  proof -
    have x: "x \<noteq> s" using that by auto
    then have o: "Suc n \<le> off (s + 1) x" using that by (simp add: off_Suc)
    then have "x \<noteq> s + 1" by auto
    then show ?thesis using x ih(2) [OF o] by (auto simp: Let_def)
  qed
  moreover have "cstrn (safestrcpy_copy m s t (Suc n)) s (Suc (Suc n)) = cstrn m t (Suc n)"
    using t ih(1) tl ih(2) [OF last] by (auto simp: Let_def)
  ultimately show ?case by blast
qed auto

lemma strlen_from_eq:
  assumes "m (s + of_nat k) = 0" and "\<And>i. i < k \<Longrightarrow> m (s + of_nat i) \<noteq> 0" and "j \<le> k"
  shows "strlen_from m s (int j) = Some (int k)"
  using assms(3)
proof (induction "k - j" arbitrary: j)
  case 0
  then show ?case using assms by (subst strlen_from.simps) simp
next
  case (Suc d)
  then have "m (s + of_nat j) \<noteq> 0" "d = k - Suc j" "Suc j \<le> k" using assms by auto
  with Suc.hyps(1) [of "Suc j"] show ?case
    by (subst strlen_from.simps) (simp add: add.commute)
qed

section \<open>Properties\<close>

text \<open>
  C32: \<open>memmove\<close> copies correctly even when source and destination overlap: afterwards every
  destination byte is the byte the corresponding source address held before the call, and no other
  byte changed. The only requirement is that neither range runs past the end of the address space.
\<close>

theorem memmove_correct:
  assumes "unat src + unat n < 2 ^ 32" and "unat dst + unat n \<le> 2 ^ 32"
  shows "(i < unat n \<longrightarrow> memmove m dst src n (dst + of_nat i) = m (src + of_nat i)) \<and>
    (unat n \<le> off dst x \<longrightarrow> memmove m dst src n x = m x)"
proof -
  have "unat (of_nat i :: uint) = i" if "i < unat n"
    using that unat32_lt [of n] by (simp add: unat_of_nat)
  then show ?thesis by (auto simp: memmove_eq [OF assms])
qed

theorem memmove_correct_witness:
  "memmove (\<lambda>a. ucast a) 102 100 5 (102 + of_nat 4) = (104 :: byte) \<and>
   memmove (\<lambda>a. ucast a) 102 100 5 107 = (107 :: byte)"
  using memmove_correct [of 100 5 102 4 "\<lambda>a. ucast a" 107] by simp

text \<open>
  C33: If the bytes it may read lie outside the \<open>n\<close> bytes of the destination, \<open>safestrcpy\<close> with a positive size leaves a NUL-terminated string that is the source string cut
  to \<open>n - 1\<close> bytes, and writes only inside the \<open>n\<close> bytes of the destination; with a size that is
  not positive it writes nothing.
\<close>

theorem safestrcpy_correct:
  assumes "n < 2 ^ 31" and "\<And>k. k < nat n \<Longrightarrow> nat n \<le> off s (t + of_nat k)"
  shows "(0 < n \<longrightarrow> cstrn (safestrcpy m s t n) s (nat n) = cstrn m t (nat n - 1)) \<and>
    (\<forall>x. nat n \<le> off s x \<longrightarrow> safestrcpy m s t n x = m x)"
proof (cases "0 < n")
  case True
  define k where "k = nat n - 1"
  have k: "nat n = Suc k" "nat (n - 1) = k" "n = int (Suc k)" using True by (auto simp: k_def)
  have "cstrn (safestrcpy_copy m s t k) s (Suc k) = cstrn m t k \<and>
    (\<forall>x. Suc k \<le> off s x \<longrightarrow> safestrcpy_copy m s t k x = m x)"
    by (rule safestrcpy_copy_ok) (use assms(2) assms(1) in \<open>simp_all add: k(1)\<close>, use k(3) in simp)
  then show ?thesis using True k by (auto simp: safestrcpy_def)
qed (simp add: safestrcpy_def)

theorem safestrcpy_correct_witness:
  "cstrn (safestrcpy (\<lambda>a. if a < 7 then 65 else 0) 100 2 4) 100 4 = [65, 65, 65] \<and>
   safestrcpy (\<lambda>a. if a < 7 then 65 else 0) 100 2 4 104 = 0"
proof -
  have pre: "nat 4 \<le> off 100 (2 + of_nat k)" if "k < nat 4" for k
  proof -
    have "k = 0 \<or> k = 1 \<or> k = 2 \<or> k = 3" using that by linarith
    then show ?thesis by (elim disjE) simp_all
  qed
  let ?m = "\<lambda>a :: uint. if a < 7 then 65 else 0 :: byte"
  have "cstrn ?m 2 (nat 4 - 1) = [65, 65, 65]" by simp
  moreover have "(0 < (4 :: int) \<longrightarrow> cstrn (safestrcpy ?m 100 2 4) 100 (nat 4) = cstrn ?m 2 (nat 4 - 1)) \<and>
    (\<forall>x. nat 4 \<le> off 100 x \<longrightarrow> safestrcpy ?m 100 2 4 x = ?m x)"
    by (rule safestrcpy_correct) (use pre in simp_all)
  then have "cstrn (safestrcpy ?m 100 2 4) 100 4 = cstrn ?m 2 (nat 4 - 1)"
    and "safestrcpy ?m 100 2 4 104 = ?m 104"
    by (simp_all only: zero_less_numeral simp_thms nat_numeral) simp
  ultimately show ?thesis by (simp only:) simp
qed

end
