(* ===== verification/Contracts.thy ===== *)
theory Contracts
  imports Prelude
begin

text \<open>
  Interfaces several components of the kernel offer, as locales, with the facts their clients use.
  Each is interpreted on the model of the code that provides it, in that component's theory.
\<close>

section \<open>Allocators\<close>

text \<open>
  A pool of resources: pages, blocks, table slots. \<open>avail s\<close> are the free ones and \<open>got x\<close> reads
  what the routine returned. \<open>allocator\<close> promises what a call does while something is free;
  \<open>soft_allocator\<close> also that an exhausted pool is reported to the caller and nothing else happens.
\<close>

locale allocator =
  fixes ok :: "'s \<Rightarrow> bool"
    and avail :: "'s \<Rightarrow> 'r set"
    and alloc :: "('s, 'a) kfun"
    and got :: "'a \<Rightarrow> 'r option"
  assumes alloc_some: "ok s \<Longrightarrow> avail s \<noteq> {} \<Longrightarrow>
    \<exists>x t r. alloc s = Ret x t \<and> got x = Some r \<and> r \<in> avail s \<and> avail t = avail s - {r} \<and> ok t"
begin

text \<open>\<open>n\<close> calls in a row; the results in the order of the calls.\<close>

fun alloc_n :: "nat \<Rightarrow> ('s, 'a list) kfun" where
  "alloc_n 0 = ret []"
| "alloc_n (Suc n) = mbind alloc (\<lambda>x. mbind (alloc_n n) (\<lambda>xs. ret (x # xs)))"

lemma alloc_n_distinct:
  assumes "ok s" and "finite (avail s)" and "n \<le> card (avail s)"
  shows "\<exists>xs t rs. alloc_n n s = Ret xs t \<and> map got xs = map Some rs \<and> length rs = n \<and>
    distinct rs \<and> set rs \<subseteq> avail s \<and> avail t = avail s - set rs \<and> ok t"
  using assms
proof (induction n arbitrary: s)
  case (Suc n)
  then have "avail s \<noteq> {}" by auto
  with alloc_some Suc.prems(1) obtain x t r where x: "alloc s = Ret x t" "got x = Some r"
    "r \<in> avail s" "avail t = avail s - {r}" "ok t"
    by blast
  have "finite (avail t)" "n \<le> card (avail t)" using x Suc.prems by auto
  with Suc.IH [OF x(5)] obtain xs u rs where "alloc_n n t = Ret xs u" "map got xs = map Some rs"
    "length rs = n" "distinct rs" "set rs \<subseteq> avail t" "avail u = avail t - set rs" "ok u"
    by blast
  with x show ?case
    by (intro exI [of _ "x # xs"] exI [of _ u] exI [of _ "r # rs"]) auto
qed simp

end

locale soft_allocator = allocator +
  assumes alloc_none: "ok s \<Longrightarrow> avail s = {} \<Longrightarrow>
    \<exists>x t. alloc s = Ret x t \<and> got x = None \<and> avail t = {} \<and> ok t"
begin

lemma alloc_returns:
  assumes "ok s"
  shows "\<exists>x t. alloc s = Ret x t \<and> ok t \<and> (got x = None \<longleftrightarrow> avail s = {})"
  using alloc_some [OF assms] alloc_none [OF assms] by (cases "avail s = {}") fastforce+

end

text \<open>Giving back: the resource is available again, and the next call therefore succeeds.\<close>

locale recycler = allocator ok avail alloc got
  for ok :: "'s \<Rightarrow> bool" and avail :: "'s \<Rightarrow> 'r set" and alloc :: "('s, 'a) kfun" and got :: "'a \<Rightarrow> 'r option" +
  fixes free :: "'r \<Rightarrow> ('s, unit) kfun"
    and may_free :: "'s \<Rightarrow> 'r \<Rightarrow> bool"
  assumes free_law: "ok s \<Longrightarrow> may_free s r \<Longrightarrow> r \<notin> avail s \<Longrightarrow>
    \<exists>t. free r s = Ret () t \<and> avail t = insert r (avail s) \<and> ok t"
begin

lemma alloc_after_free:
  assumes "ok s" and "may_free s r" and "r \<notin> avail s"
  shows "\<exists>t x u r'. free r s = Ret () t \<and> alloc t = Ret x u \<and> got x = Some r' \<and>
    r' \<in> insert r (avail s) \<and> avail u = insert r (avail s) - {r'} \<and> ok u"
  using free_law [OF assms] alloc_some by (metis insert_not_empty)

end

end
