(* ===== verification/Kalloc.thy ===== *)
theory Kalloc
  imports Spinlock Memory Contracts
begin

text \<open>
  Model of \<open>kalloc.c\<close>: the physical page allocator. The free list is threaded through the free
  pages themselves, so its links live in the modelled memory: \<open>r->next\<close> is the word stored at
  address \<open>r\<close>. \<open>kend\<close> is the symbol \<open>end\<close> the linker script defines.
\<close>

section \<open>State\<close>

record kmem_state = machine +
  mem :: mem
  kend :: uint
  use_lock :: bool
  freelist :: uint

abbreviation PGSIZE :: uint where "PGSIZE \<equiv> 4096"
abbreviation KERNBASE :: uint where "KERNBASE \<equiv> 0x80000000"
abbreviation PHYSTOP :: uint where "PHYSTOP \<equiv> 0xE000000"

definition V2P :: "uint \<Rightarrow> uint" where
  "V2P a = a - KERNBASE"

definition P2V :: "uint \<Rightarrow> uint" where
  "P2V a = a + KERNBASE"

definition PGROUNDUP :: "uint \<Rightarrow> uint" where
  "PGROUNDUP sz = (sz + PGSIZE - 1) AND NOT (PGSIZE - 1)"

definition PGROUNDDOWN :: "uint \<Rightarrow> uint" where
  "PGROUNDDOWN a = a AND NOT (PGSIZE - 1)"

section \<open>Operations\<close>

definition kfree :: "uint \<Rightarrow> ('z kmem_state_scheme, unit) kfun" where
  "kfree v =
     mbind (gets (\<lambda>s. v mod PGSIZE \<noteq> 0 \<or> v < kend s \<or> V2P v \<ge> PHYSTOP)) (\<lambda>bad.
     if bad then panic ''kfree'' else
     mbind (modify (\<lambda>s. s\<lparr>mem := memset (mem s) v 1 PGSIZE\<rparr>)) (\<lambda>_.
     mbind (gets use_lock) (\<lambda>ul.
     mbind (if ul then acquire KmemLk else ret ()) (\<lambda>_.
     mbind (modify (\<lambda>s. s\<lparr>mem := store32 (mem s) v (freelist s)\<rparr>)) (\<lambda>_.
     mbind (modify (\<lambda>s. s\<lparr>freelist := v\<rparr>)) (\<lambda>_.
     mbind (gets use_lock) (\<lambda>ul.
     if ul then release KmemLk else ret ())))))))"

definition kalloc :: "('z kmem_state_scheme, uint) kfun" where
  "kalloc =
     mbind (gets use_lock) (\<lambda>ul.
     mbind (if ul then acquire KmemLk else ret ()) (\<lambda>_.
     mbind (gets freelist) (\<lambda>r.
     mbind (if r \<noteq> 0 then modify (\<lambda>s. s\<lparr>freelist := load32 (mem s) r\<rparr>) else ret ()) (\<lambda>_.
     mbind (gets use_lock) (\<lambda>ul.
     mbind (if ul then release KmemLk else ret ()) (\<lambda>_.
     ret r))))))"

text \<open>The loop of \<open>freerange\<close>; pointer arithmetic past the end of the address space is undefined.\<close>

function freerange_loop :: "uint \<Rightarrow> uint \<Rightarrow> ('z kmem_state_scheme, unit) kfun" where
  "freerange_loop p vend =
     (if unat p + 4096 \<ge> 2 ^ 32 then undef ''pointer overflow''
      else if p + PGSIZE \<le> vend
      then mbind (kfree p) (\<lambda>_. freerange_loop (p + PGSIZE) vend)
      else ret ())"
  by pat_completeness auto
termination
  by (relation "measure (\<lambda>(p, _). 2 ^ 32 - unat p)")
    (auto simp: unat_word_ariths)

declare freerange_loop.simps [simp del]

definition freerange :: "uint \<Rightarrow> uint \<Rightarrow> ('z kmem_state_scheme, unit) kfun" where
  "freerange vstart vend = freerange_loop (PGROUNDUP vstart) vend"

definition kinit1 :: "uint \<Rightarrow> uint \<Rightarrow> ('z kmem_state_scheme, unit) kfun" where
  "kinit1 vstart vend =
     mbind (initlock KmemLk ''kmem'') (\<lambda>_.
     mbind (modify (\<lambda>s. s\<lparr>use_lock := False\<rparr>)) (\<lambda>_.
     freerange vstart vend))"

definition kinit2 :: "uint \<Rightarrow> uint \<Rightarrow> ('z kmem_state_scheme, unit) kfun" where
  "kinit2 vstart vend =
     mbind (freerange vstart vend) (\<lambda>_.
     modify (\<lambda>s. s\<lparr>use_lock := True\<rparr>))"

section \<open>Pages\<close>

text \<open>The pages \<open>kfree\<close> accepts.\<close>

definition kpage :: "uint \<Rightarrow> uint \<Rightarrow> bool" where
  "kpage e v \<longleftrightarrow> v mod PGSIZE = 0 \<and> e \<le> v \<and> V2P v < PHYSTOP"

lemma unat_aligned: "v mod PGSIZE = 0 \<longleftrightarrow> 4096 dvd unat v"
proof -
  have "v mod PGSIZE = 0 \<longleftrightarrow> unat (v mod PGSIZE) = 0" by (simp only: unat_eq_zero)
  also have "\<dots> \<longleftrightarrow> unat v mod 4096 = 0" by (subst unat_mod) simp
  finally show ?thesis by (simp add: dvd_eq_mod_eq_0)
qed

lemma kpage_nz: "kpage e v \<Longrightarrow> v \<noteq> 0"
  by (auto simp: kpage_def V2P_def)

lemma unat_PGROUNDDOWN: "unat (PGROUNDDOWN a) = unat a div 4096 * 4096"
proof -
  have m: "(PGSIZE - 1 :: uint) = mask 12" by (simp add: mask_eq_decr_exp)
  have "PGROUNDDOWN a = push_bit 12 (drop_bit 12 a)"
    unfolding PGROUNDDOWN_def m by (rule bit_word_eqI) (auto simp: bit_simps)
  then have "unat (PGROUNDDOWN a) = take_bit 32 (unat a div 4096 * 4096)"
    by (simp add: push_bit_eq_mult drop_bit_eq_div take_bit_eq_mod unat_word_ariths unat_div
        mod_mult_left_eq)
  also have "\<dots> = unat a div 4096 * 4096"
  proof -
    have "unat a div 4096 * 4096 \<le> unat a" by simp
    then show ?thesis using unat32_lt [of a] by (simp add: take_bit_eq_mod)
  qed
  finally show ?thesis .
qed

lemma PGROUNDUP_eq: "PGROUNDUP sz = PGROUNDDOWN (sz + 4095)"
  by (simp add: PGROUNDUP_def PGROUNDDOWN_def add.commute)

lemma unat_PGROUNDUP:
  assumes "unat sz + 4095 < 2 ^ 32"
  shows "unat (PGROUNDUP sz) = (unat sz + 4095) div 4096 * 4096"
  using assms by (simp add: PGROUNDUP_eq unat_PGROUNDDOWN unat_word_ariths)

lemma PGROUNDUP_aligned: "PGROUNDUP sz mod PGSIZE = 0"
  by (simp only: unat_aligned PGROUNDUP_eq unat_PGROUNDDOWN) simp

text \<open>Two different pages do not share a byte.\<close>

lemma aligned_diff:
  assumes "v mod PGSIZE = 0" and "p mod PGSIZE = 0"
  shows "4096 dvd unat (p - v)"
proof -
  have a: "4096 dvd unat v" "4096 dvd unat p" using assms by (simp_all add: unat_aligned)
  have b: "(4096 :: nat) dvd 4294967296" by simp
  have c: "unat (p - v) = (if unat v \<le> unat p then unat p - unat v else unat p + 4294967296 - unat v)"
    by (subst unat_sub_if') simp
  show ?thesis unfolding c using a b by (simp add: dvd_diff_nat)
qed

lemma pages_disjoint:
  assumes "v mod PGSIZE = 0" and "p mod PGSIZE = 0" and "p \<noteq> v" and "k < 4096"
  shows "4096 \<le> off v (p + of_nat k)"
proof -
  obtain q where q: "unat (p - v) = 4096 * q" using aligned_diff [OF assms(1,2)] by (auto elim: dvdE)
  have nz: "q \<noteq> 0" using assms(3) q by (metis mult_0_right right_minus_eq unat_eq_zero)
  have "q < 1048576" using q unat32_lt [of "p - v"] by linarith
  then have lt: "unat (p - v) + k < 2 ^ 32" using q assms(4) by simp
  have "off v (p + of_nat k) = unat (p - v + of_nat k)" by (simp add: algebra_simps)
  also have "\<dots> = unat (p - v) + k" using lt assms(4) by (simp add: unat_word_ariths unat_of_nat)
  finally show ?thesis using q nz by simp
qed

section \<open>The free list\<close>

text \<open>\<open>flist m a ps\<close>: following the links from \<open>a\<close> visits exactly the pages \<open>ps\<close> and ends in NULL.\<close>

fun flist :: "mem \<Rightarrow> uint \<Rightarrow> uint list \<Rightarrow> bool" where
  "flist m a [] \<longleftrightarrow> a = 0"
| "flist m a (p # ps) \<longleftrightarrow> a = p \<and> p \<noteq> 0 \<and> flist m (load32 m p) ps"

lemma flist_unique: "flist m a ps \<Longrightarrow> flist m a qs \<Longrightarrow> ps = qs"
proof (induction ps arbitrary: a qs)
  case Nil
  then show ?case by (cases qs) auto
next
  case (Cons p ps)
  then show ?case by (cases qs) auto
qed

lemma flist_frame:
  assumes "\<And>p k. p \<in> set ps \<Longrightarrow> k < 4 \<Longrightarrow> m' (p + of_nat k) = m (p + of_nat k)"
  shows "flist m' a ps = flist m a ps"
  using assms
proof (induction ps arbitrary: a)
  case (Cons p ps)
  have "load32 m' p = load32 m p" by (rule load32_cong) (use Cons.prems in simp)
  with Cons show ?case by simp
qed simp

text \<open>Writes inside one page outside the list leave the list alone.\<close>

lemma flist_page_write:
  assumes "\<And>x. 4096 \<le> off v x \<Longrightarrow> m' x = m x" and "v mod PGSIZE = 0" and "v \<notin> set ps"
    and "\<And>p. p \<in> set ps \<Longrightarrow> p mod PGSIZE = 0"
  shows "flist m' a ps = flist m a ps"
proof (rule flist_frame)
  fix p k
  assume "p \<in> set ps" "k < (4 :: nat)"
  with assms(3) have "p \<noteq> v" "k < 4096" by auto
  with pages_disjoint [OF assms(2,4)] \<open>p \<in> set ps\<close>
  show "m' (p + of_nat k) = m (p + of_nat k)" by (intro assms(1)) simp
qed

text \<open>The allocator's invariant, with the free pages \<open>ps\<close> in list order.\<close>

definition kmem_list :: "'z kmem_state_scheme \<Rightarrow> uint list \<Rightarrow> bool" where
  "kmem_list s ps \<longleftrightarrow> flist (mem s) (freelist s) ps \<and> distinct ps \<and> (\<forall>p \<in> set ps. kpage (kend s) p)"

definition klock_ok :: "'z kmem_state_scheme \<Rightarrow> bool" where
  "klock_ok s \<longleftrightarrow> (use_lock s \<longrightarrow> mwf s \<and> spinfree (spin s KmemLk))"

text \<open>What a critical section leaves behind: the interrupt flag saved at nesting depth 0.\<close>

definition kcrit :: "'z kmem_state_scheme \<Rightarrow> cpu list" where
  "kcrit s = (if use_lock s then crit_cpus (this_cpu s) (hw_if s (lapicid s)) (cpus s) else cpus s)"

lemma kalloc_eq:
  assumes "klock_ok s"
  shows "kalloc s = Ret (freelist s)
    (s\<lparr>cpus := kcrit s,
       freelist := (if freelist s = 0 then 0 else load32 (mem s) (freelist s))\<rparr>)"
  using assms by (auto simp: kalloc_def klock_ok_def kcrit_def)

lemma kfree_eq:
  assumes "klock_ok s" and "kpage (kend s) v"
  shows "kfree v s = Ret ()
    (s\<lparr>cpus := kcrit s, mem := store32 (memset (mem s) v 1 PGSIZE) v (freelist s), freelist := v\<rparr>)"
  using assms by (auto simp: kfree_def klock_ok_def kcrit_def kpage_def not_le not_less)

lemma kfree_panics: "\<not> kpage (kend s) v \<Longrightarrow> kfree v s = Stop (Panic ''kfree'')"
  by (auto simp: kfree_def kpage_def not_le not_less)

lemma klock_ok_kcrit: "klock_ok s \<Longrightarrow> use_lock s \<Longrightarrow> mwf_at (kcrit s) (lapicid s) (hw_if s)"
  by (simp add: klock_ok_def kcrit_def)

lemma kfree_mem_frame:
  assumes "4096 \<le> off v x"
  shows "store32 (memset m v 1 PGSIZE) v a x = m x"
  using assms by (simp add: store32_other memset_eq_fill)

lemma kalloc_list:
  assumes "klock_ok s" and "kmem_list s (p # ps)"
  shows "\<exists>t. kalloc s = Ret p t \<and> kmem_list t ps \<and> klock_ok t \<and> mem t = mem s \<and> kend t = kend s"
proof -
  let ?t = "s\<lparr>cpus := kcrit s, freelist := load32 (mem s) p\<rparr>"
  have "freelist s = p" "p \<noteq> 0" using assms(2) by (auto simp: kmem_list_def)
  then have "kalloc s = Ret p ?t" using kalloc_eq [OF assms(1)] by simp
  moreover have "kmem_list ?t ps" using assms(2) by (auto simp: kmem_list_def)
  moreover have "klock_ok ?t"
    using assms(1) klock_ok_kcrit [OF assms(1)] by (simp add: klock_ok_def)
  ultimately show ?thesis by auto
qed

lemma kalloc_list_empty:
  assumes "klock_ok s" and "kmem_list s []"
  shows "\<exists>t. kalloc s = Ret 0 t \<and> kmem_list t [] \<and> klock_ok t \<and> mem t = mem s \<and> kend t = kend s"
proof -
  let ?t = "s\<lparr>cpus := kcrit s, freelist := 0\<rparr>"
  have "kalloc s = Ret 0 ?t" using kalloc_eq [OF assms(1)] assms(2) by (simp add: kmem_list_def)
  moreover have "klock_ok ?t"
    using assms(1) klock_ok_kcrit [OF assms(1)] by (simp add: klock_ok_def)
  ultimately show ?thesis by (auto simp: kmem_list_def)
qed

lemma kfree_list:
  assumes "klock_ok s" and "kmem_list s ps" and "kpage (kend s) v" and "v \<notin> set ps"
  shows "\<exists>t. kfree v s = Ret () t \<and> kmem_list t (v # ps) \<and> klock_ok t \<and> kend t = kend s \<and>
    use_lock t = use_lock s \<and> (\<forall>x. 4096 \<le> off v x \<longrightarrow> mem t x = mem s x)"
proof -
  let ?m = "store32 (memset (mem s) v 1 PGSIZE) v (freelist s)"
  let ?t = "s\<lparr>cpus := kcrit s, mem := ?m, freelist := v\<rparr>"
  have "flist ?m (freelist s) ps = flist (mem s) (freelist s) ps"
    by (rule flist_page_write [where v = v])
      (use assms in \<open>auto simp: kmem_list_def kpage_def kfree_mem_frame\<close>)
  then have "kmem_list ?t (v # ps)"
    using assms kpage_nz [OF assms(3)] by (auto simp: kmem_list_def)
  moreover have "klock_ok ?t"
    using assms(1) klock_ok_kcrit [OF assms(1)] by (simp add: klock_ok_def)
  ultimately show ?thesis
    using kfree_eq [OF assms(1,3)] by (auto simp: kfree_mem_frame)
qed

section \<open>The allocator contract\<close>

definition free_pages :: "'z kmem_state_scheme \<Rightarrow> uint set" where
  "free_pages s = {p. \<exists>ps. kmem_list s ps \<and> p \<in> set ps}"

definition kmem_ok :: "'z kmem_state_scheme \<Rightarrow> bool" where
  "kmem_ok s \<longleftrightarrow> klock_ok s \<and> (\<exists>ps. kmem_list s ps)"

definition page_got :: "uint \<Rightarrow> uint option" where
  "page_got p = (if p = 0 then None else Some p)"

lemma free_pages_eq: "kmem_list s ps \<Longrightarrow> free_pages s = set ps"
  by (auto simp: free_pages_def kmem_list_def dest: flist_unique)

interpretation page: soft_allocator kmem_ok free_pages kalloc page_got
proof
  fix s :: "'z kmem_state_scheme"
  assume ok: "kmem_ok s"
  then obtain ps where ps: "klock_ok s" "kmem_list s ps" by (auto simp: kmem_ok_def)
  { assume "free_pages s \<noteq> {}"
    with ps obtain p qs where qs: "ps = p # qs" by (cases ps) (auto simp: free_pages_eq)
    with ps obtain t where t: "kalloc s = Ret p t" "kmem_list t qs" "klock_ok t"
      using kalloc_list by blast
    moreover have "p \<noteq> 0" "p \<notin> set qs" using ps qs by (auto simp: kmem_list_def)
    ultimately show "\<exists>x t r. kalloc s = Ret x t \<and> page_got x = Some r \<and> r \<in> free_pages s \<and>
        free_pages t = free_pages s - {r} \<and> kmem_ok t"
      using ps qs by (auto simp: page_got_def free_pages_eq kmem_ok_def) }
  { assume "free_pages s = {}"
    with ps have "ps = []" by (simp add: free_pages_eq)
    with ps obtain t where "kalloc s = Ret 0 t" "kmem_list t []" "klock_ok t"
      using kalloc_list_empty by blast
    then show "\<exists>x t. kalloc s = Ret x t \<and> page_got x = None \<and> free_pages t = {} \<and> kmem_ok t"
      by (auto simp: page_got_def free_pages_eq kmem_ok_def) }
qed

interpretation page: recycler kmem_ok free_pages kalloc page_got kfree "\<lambda>s v. kpage (kend s) v"
proof
  fix s :: "'z kmem_state_scheme" and v
  assume "kmem_ok s" "kpage (kend s) v" "v \<notin> free_pages s"
  moreover from this obtain ps where ps: "klock_ok s" "kmem_list s ps" by (auto simp: kmem_ok_def)
  ultimately obtain t where "kfree v s = Ret () t" "kmem_list t (v # ps)" "klock_ok t"
    using kfree_list [of s ps v] by (auto simp: free_pages_eq)
  with ps show "\<exists>t. kfree v s = Ret () t \<and> free_pages t = insert v (free_pages s) \<and> kmem_ok t"
    by (auto simp: free_pages_eq kmem_ok_def)
qed

section \<open>Initialisation\<close>

function range_pages :: "uint \<Rightarrow> uint \<Rightarrow> uint list" where
  "range_pages p vend =
     (if unat p + 4096 \<le> unat vend then p # range_pages (p + PGSIZE) vend else [])"
  by pat_completeness auto
termination
proof (relation "measure (\<lambda>(p, vend). unat vend - unat p)")
  fix p vend :: uint
  assume "unat p + 4096 \<le> unat vend"
  then have "unat (p + PGSIZE) = unat p + 4096"
    using unat32_lt [of vend] by (simp add: unat_word_ariths)
  with \<open>unat p + 4096 \<le> unat vend\<close>
  show "((p + PGSIZE, vend), p, vend) \<in> measure (\<lambda>(p, vend). unat vend - unat p)" by simp
qed simp

declare range_pages.simps [simp del]

lemma range_pages_bounds:
  assumes "p \<in> set (range_pages a vend)" and "a mod PGSIZE = 0"
  shows "p mod PGSIZE = 0 \<and> unat a \<le> unat p \<and> unat p + 4096 \<le> unat vend"
  using assms
proof (induction a vend rule: range_pages.induct)
  case (1 a vend)
  show ?case
  proof (cases "unat a + 4096 \<le> unat vend")
    case True
    have u: "unat (a + PGSIZE) = unat a + 4096"
      using True unat32_lt [of vend] by (simp add: unat_word_ariths)
    have "(a + PGSIZE) mod PGSIZE = 0" using 1(3) u by (simp only: unat_aligned) simp
    then have "p \<in> set (range_pages (a + PGSIZE) vend) \<Longrightarrow> ?thesis"
      using 1(1) [OF True] u by simp
    moreover have "p = a \<or> p \<in> set (range_pages (a + PGSIZE) vend)"
      using 1(2) True by (simp add: range_pages.simps [of a])
    ultimately show ?thesis using 1(3) True by blast
  next
    case False
    with 1 show ?thesis by (simp add: range_pages.simps [of a])
  qed
qed

lemma range_pages_all:
  assumes "a mod PGSIZE = 0" and "p mod PGSIZE = 0" and "unat a \<le> unat p" and "unat p + 4096 \<le> unat vend"
  shows "p \<in> set (range_pages a vend)"
  using assms
proof (induction a vend rule: range_pages.induct)
  case (1 a vend)
  then have lt: "unat a + 4096 \<le> unat vend" by simp
  have u: "unat (a + PGSIZE) = unat a + 4096"
    using lt unat32_lt [of vend] by (simp add: unat_word_ariths)
  have al: "(a + PGSIZE) mod PGSIZE = 0" using 1(2) u by (simp only: unat_aligned) simp
  show ?case
  proof (cases "p = a")
    case False
    then have "unat a \<noteq> unat p" by (simp add: word_unat_eq_iff)
    moreover have "4096 dvd unat p" "4096 dvd unat a" using 1(2,3) by (simp_all only: unat_aligned)
    ultimately have "unat a + 4096 \<le> unat p" using 1(4) by (auto elim!: dvdE)
    then have "p \<in> set (range_pages (a + PGSIZE) vend)" using 1(1) [OF lt al 1(3) _ 1(5)] u by simp
    then show ?thesis using lt by (subst range_pages.simps) simp
  qed (use lt in \<open>subst range_pages.simps, simp\<close>)
qed

lemma range_pages_distinct: "a mod PGSIZE = 0 \<Longrightarrow> distinct (range_pages a vend)"
proof (induction a vend rule: range_pages.induct)
  case (1 a vend)
  show ?case
  proof (cases "unat a + 4096 \<le> unat vend")
    case True
    have u: "unat (a + PGSIZE) = unat a + 4096"
      using True unat32_lt [of vend] by (simp add: unat_word_ariths)
    have al: "(a + PGSIZE) mod PGSIZE = 0" using 1(2) u by (simp only: unat_aligned) simp
    then have "a \<notin> set (range_pages (a + PGSIZE) vend)"
      using range_pages_bounds [of a "a + PGSIZE" vend] u by auto
    with 1(1) [OF True al] True show ?thesis by (subst range_pages.simps) simp
  qed (subst range_pages.simps, simp)
qed

lemma freerange_loop_list:
  assumes "klock_ok s" and "kmem_list s ps" and "p mod PGSIZE = 0" and "kend s \<le> p"
    and "KERNBASE \<le> p" and "vend \<le> KERNBASE + PHYSTOP" and "p \<le> vend"
    and "set (range_pages p vend) \<inter> set ps = {}"
  shows "\<exists>t. freerange_loop p vend s = Ret () t \<and> kmem_list t (rev (range_pages p vend) @ ps) \<and>
    klock_ok t \<and> kend t = kend s \<and> use_lock t = use_lock s"
  using assms
proof (induction p vend arbitrary: s ps rule: range_pages.induct)
  case (1 p vend)
  have b: "unat vend \<le> 2382364672" and lo: "2147483648 \<le> unat p" "unat (kend s) \<le> unat p"
    using 1 by (simp_all add: word_le_nat_alt)
  have le: "unat p \<le> unat vend" using 1 by (simp add: word_le_nat_alt)
  have u: "unat (p + PGSIZE) = unat p + 4096"
    using b le by (simp add: unat_word_ariths)
  have iff: "p + PGSIZE \<le> vend \<longleftrightarrow> unat p + 4096 \<le> unat vend" by (simp add: word_le_nat_alt u)
  show ?case
  proof (cases "unat p + 4096 \<le> unat vend")
    case True
    have al: "(p + PGSIZE) mod PGSIZE = 0" using 1(4) u by (simp only: unat_aligned) simp
    have r: "range_pages p vend = p # range_pages (p + PGSIZE) vend"
      using True by (subst range_pages.simps) simp
    have "unat (V2P p) = unat p - 2147483648" using lo by (simp add: V2P_def unat_sub word_le_nat_alt)
    then have kp: "kpage (kend s) p"
      using 1(4,5) True b by (simp add: kpage_def word_less_nat_alt)
    have "p \<notin> set ps" using 1(9) r by auto
    from kfree_list [OF 1(2,3) kp this] obtain t where
      t: "kfree p s = Ret () t" "kmem_list t (p # ps)" "klock_ok t" "kend t = kend s" "use_lock t = use_lock s"
      by blast
    have "distinct (range_pages p vend)" by (rule range_pages_distinct [OF 1(4)])
    then have dis: "set (range_pages (p + PGSIZE) vend) \<inter> set (p # ps) = {}" using 1(9) r by auto
    have "kend t \<le> p + PGSIZE" "KERNBASE \<le> p + PGSIZE" "p + PGSIZE \<le> vend"
      using lo u t(4) True by (simp_all add: word_le_nat_alt)
    from 1(1) [OF True t(3,2) al this(1,2) 1(7) this(3) dis] t
    show ?thesis using True b iff r by (subst freerange_loop.simps) auto
  next
    case False
    have "range_pages p vend = []" using False by (subst range_pages.simps) simp
    with False 1 b le iff show ?thesis by (subst freerange_loop.simps) auto
  qed
qed

lemma freerange_list:
  assumes "klock_ok s" and "kmem_list s ps" and "kend s \<le> vstart" and "KERNBASE \<le> vstart"
    and "unat vstart + 4096 \<le> unat vend" and "vend \<le> KERNBASE + PHYSTOP"
    and "\<And>p. p \<in> set ps \<Longrightarrow> p < vstart"
  shows "\<exists>t. freerange vstart vend s = Ret () t \<and> klock_ok t \<and> kend t = kend s \<and> use_lock t = use_lock s \<and>
    kmem_list t (rev (range_pages (PGROUNDUP vstart) vend) @ ps)"
proof -
  have b: "unat vend \<le> 2382364672" "2147483648 \<le> unat vstart" "unat (kend s) \<le> unat vstart"
    using assms by (simp_all add: word_le_nat_alt)
  have u: "unat (PGROUNDUP vstart) = (unat vstart + 4095) div 4096 * 4096"
    using assms(5) b by (intro unat_PGROUNDUP) simp
  then have lo: "unat vstart \<le> unat (PGROUNDUP vstart)" and hi: "unat (PGROUNDUP vstart) \<le> unat vend"
    using assms(5) by linarith+
  have "p \<notin> set ps" if "p \<in> set (range_pages (PGROUNDUP vstart) vend)" for p
    using range_pages_bounds [OF that PGROUNDUP_aligned] lo assms(7) [of p]
    by (auto simp: word_less_nat_alt)
  then have dis: "set (range_pages (PGROUNDUP vstart) vend) \<inter> set ps = {}" by auto
  have "kend s \<le> PGROUNDUP vstart" "KERNBASE \<le> PGROUNDUP vstart" "PGROUNDUP vstart \<le> vend"
    using lo hi b by (simp_all add: word_le_nat_alt)
  from freerange_loop_list [OF assms(1,2) PGROUNDUP_aligned this(1,2) assms(6) this(3) dis]
  show ?thesis by (auto simp: freerange_def)
qed

section \<open>Properties\<close>

text \<open>
  C2: The page allocator never hands out a page twice. From a state in which the free list is well
  formed and holds at least \<open>n\<close> pages, \<open>n\<close> calls of \<open>kalloc\<close> return \<open>n\<close> different pages, all of which were
  free before, and leave exactly the others free; a call on an empty list returns 0 and changes
  nothing of the list; and a page given back by \<open>kfree\<close> is free again, every other byte of memory
  unchanged.
\<close>

theorem kalloc_kfree_contract:
  assumes "kmem_ok s"
  shows "(n \<le> card (free_pages s) \<and> finite (free_pages s) \<longrightarrow>
      (\<exists>ps t. page.alloc_n n s = Ret ps t \<and> length ps = n \<and> distinct ps \<and> set ps \<subseteq> free_pages s \<and>
        free_pages t = free_pages s - set ps \<and> kmem_ok t)) \<and>
    (free_pages s = {} \<longrightarrow> (\<exists>t. kalloc s = Ret 0 t \<and> free_pages t = {} \<and> kmem_ok t)) \<and>
    (kpage (kend s) v \<and> v \<notin> free_pages s \<longrightarrow>
      (\<exists>t. kfree v s = Ret () t \<and> free_pages t = insert v (free_pages s) \<and> kmem_ok t \<and>
        (\<forall>x. 4096 \<le> off v x \<longrightarrow> mem t x = mem s x)))"
proof (intro conjI impI)
  assume "n \<le> card (free_pages s) \<and> finite (free_pages s)"
  with page.alloc_n_distinct [OF assms, of n] obtain xs t rs where
    r: "page.alloc_n n s = Ret xs t" "map page_got xs = map Some rs" "length rs = n" "distinct rs"
    "set rs \<subseteq> free_pages s" "free_pages t = free_pages s - set rs" "kmem_ok t"
    by blast
  have "xs = rs" using r(2)
  proof (induction xs arbitrary: rs)
    case (Cons x xs)
    then show ?case by (cases rs) (auto simp: page_got_def split: if_splits)
  qed simp
  with r show "\<exists>ps t. page.alloc_n n s = Ret ps t \<and> length ps = n \<and> distinct ps \<and>
      set ps \<subseteq> free_pages s \<and> free_pages t = free_pages s - set ps \<and> kmem_ok t"
    by blast
next
  assume "free_pages s = {}"
  with page.alloc_none [OF assms] show "\<exists>t. kalloc s = Ret 0 t \<and> free_pages t = {} \<and> kmem_ok t"
    by (auto simp: page_got_def split: if_splits)
next
  assume v: "kpage (kend s) v \<and> v \<notin> free_pages s"
  obtain ps where ps: "klock_ok s" "kmem_list s ps" using assms by (auto simp: kmem_ok_def)
  with v kfree_list [of s ps v] obtain t where "kfree v s = Ret () t" "kmem_list t (v # ps)" "klock_ok t"
    "\<forall>x. 4096 \<le> off v x \<longrightarrow> mem t x = mem s x"
    by (auto simp: free_pages_eq)
  with ps show "\<exists>t. kfree v s = Ret () t \<and> free_pages t = insert v (free_pages s) \<and> kmem_ok t \<and>
      (\<forall>x. 4096 \<le> off v x \<longrightarrow> mem t x = mem s x)"
    by (auto simp: free_pages_eq kmem_ok_def)
qed

text \<open>A state with two free pages, for examples.\<close>

definition two_pages :: kmem_state where
  "two_pages = \<lparr>cpus = [], lapicid = 0, hw_if = (\<lambda>_. False),
     spin = (\<lambda>_. \<lparr>locked = False, lname = [], lcpu = None\<rparr>),
     mem = store32 (\<lambda>_. 0) 0x80200000 0x80300000, kend = 0x80100000, use_lock = False,
     freelist = 0x80200000\<rparr>"

lemma two_pages_list: "kmem_list two_pages [0x80200000, 0x80300000]"
proof -
  have "load32 (store32 (\<lambda>_. 0) 0x80200000 0x80300000) 0x80300000 = 0"
    by (simp add: load32_def store32_def)
  then show ?thesis by (simp add: kmem_list_def two_pages_def kpage_def V2P_def)
qed

lemma two_pages_ok: "kmem_ok two_pages"
  using two_pages_list by (auto simp: kmem_ok_def klock_ok_def) (simp_all add: two_pages_def)

theorem kalloc_kfree_contract_witness:
  "\<exists>ps t. page.alloc_n 2 two_pages = Ret ps t \<and> length ps = 2 \<and> distinct ps \<and>
     set ps \<subseteq> {0x80200000, 0x80300000} \<and> free_pages t = {0x80200000, 0x80300000} - set ps"
  using kalloc_kfree_contract [OF two_pages_ok, of 2 0]
  by (auto simp: free_pages_eq [OF two_pages_list])

lemma PGROUNDUP_page:
  assumes "v mod PGSIZE = 0" "unat v + 4096 < 2 ^ 32"
  shows "PGROUNDUP v = v"
proof -
  have "4096 dvd unat v" using assms(1) by (simp only: unat_aligned)
  then obtain q where q: "unat v = 4096 * q" by (auto elim: dvdE)
  have "unat (PGROUNDUP v) = (unat v + 4095) div 4096 * 4096" using assms(2) by (intro unat_PGROUNDUP) simp
  then have "unat (PGROUNDUP v) = unat v" using q by simp
  then show ?thesis by (simp add: word_unat_eq_iff)
qed

text \<open>The pages of two adjacent ranges are those of the whole.\<close>

lemma range_pages_two:
  assumes mid: "v mod PGSIZE = 0" and pu: "unat (PGROUNDUP s) = (unat s + 4095) div 4096 * 4096"
    and le: "unat s + 4096 \<le> unat v" "unat v + 4096 \<le> unat e"
  shows "set (range_pages v e) \<union> set (range_pages (PGROUNDUP s) v) = {p. p mod PGSIZE = 0 \<and> s \<le> p \<and> unat p + 4096 \<le> unat e}" (is "_ = ?R")
proof
  show "set (range_pages v e) \<union> set (range_pages (PGROUNDUP s) v) \<subseteq> ?R"
    using range_pages_bounds [OF _ mid, of _ e] range_pages_bounds [OF _ PGROUNDUP_aligned, of _ s v] le pu
    by (fastforce simp: word_le_nat_alt)
  show "?R \<subseteq> set (range_pages v e) \<union> set (range_pages (PGROUNDUP s) v)"
  proof
    fix p
    assume p: "p \<in> ?R"
    then have d: "4096 dvd unat p" "4096 dvd unat v" using mid by (simp_all only: unat_aligned mem_Collect_eq)
    show "p \<in> set (range_pages v e) \<union> set (range_pages (PGROUNDUP s) v)"
    proof (cases "v \<le> p")
      case True
      then show ?thesis using p mid by (intro UnI1 range_pages_all) (auto simp: word_le_nat_alt)
    next
      case False
      then have "unat p + 4096 \<le> unat v" using d by (auto simp: word_le_nat_alt elim!: dvdE)
      moreover have "unat (PGROUNDUP s) \<le> unat p" using p d pu by (auto simp: word_le_nat_alt elim!: dvdE)
      ultimately show ?thesis using p by (intro UnI2 range_pages_all) (auto simp: PGROUNDUP_aligned)
    qed
  qed
qed

text \<open>
  C28: After \<open>kinit1\<close> and \<open>kinit2\<close> the free list holds exactly the page-aligned pages that lie
  wholly between the first page boundary after the kernel image and the end of physical memory,
  each once, and the allocator's lock is in use.
\<close>

theorem kinit_frees_all_pages:
  assumes "freelist s = 0" and "kend s \<le> vstart" and "KERNBASE \<le> vstart"
    and "unat vstart + 4096 \<le> unat vmid" and "vmid mod PGSIZE = 0"
    and "unat vmid + 4096 \<le> unat vend" and "vend \<le> KERNBASE + PHYSTOP"
  shows "\<exists>t ps. mbind (kinit1 vstart vmid) (\<lambda>_. kinit2 vmid vend) s = Ret () t \<and> use_lock t \<and>
    flist (mem t) (freelist t) ps \<and> distinct ps \<and>
    set ps = {p. p mod PGSIZE = 0 \<and> vstart \<le> p \<and> unat p + 4096 \<le> unat vend}"
proof -
  let ?s = "s\<lparr>spin := (spin s)(KmemLk := \<lparr>locked = False, lname = ''kmem'', lcpu = None\<rparr>), use_lock := False\<rparr>"
  have b: "unat vend \<le> 2382364672" "2147483648 \<le> unat vstart" "unat (kend s) \<le> unat vstart"
    using assms by (simp_all add: word_le_nat_alt)
  have "\<exists>t. freerange vstart vmid ?s = Ret () t \<and> klock_ok t \<and> kend t = kend ?s \<and> use_lock t = use_lock ?s \<and>
    kmem_list t (rev (range_pages (PGROUNDUP vstart) vmid) @ [])"
    by (rule freerange_list)
      (use assms b in \<open>simp_all add: klock_ok_def kmem_list_def word_le_nat_alt\<close>)
  then obtain t where t: "freerange vstart vmid ?s = Ret () t" "klock_ok t" "kend t = kend s" "\<not> use_lock t"
    "kmem_list t (rev (range_pages (PGROUNDUP vstart) vmid))"
    by auto
  have pu: "unat (PGROUNDUP vstart) = (unat vstart + 4095) div 4096 * 4096"
    using assms(4,6) b by (intro unat_PGROUNDUP) simp
  have mid: "PGROUNDUP vmid = vmid" using assms(5,6) b by (intro PGROUNDUP_page) simp_all
  have below: "p < vmid" if "p \<in> set (rev (range_pages (PGROUNDUP vstart) vmid))" for p
    using that range_pages_bounds [of p _ vmid] PGROUNDUP_aligned by (fastforce simp: word_less_nat_alt)
  have "\<exists>u. freerange vmid vend t = Ret () u \<and> klock_ok u \<and> kend u = kend t \<and> use_lock u = use_lock t \<and>
    kmem_list u (rev (range_pages (PGROUNDUP vmid) vend) @ rev (range_pages (PGROUNDUP vstart) vmid))"
    by (rule freerange_list)
      (use t assms b below in \<open>simp_all add: word_le_nat_alt\<close>)
  then obtain u where u: "freerange vmid vend t = Ret () u"
    "kmem_list u (rev (range_pages vmid vend) @ rev (range_pages (PGROUNDUP vstart) vmid))"
    by (auto simp: mid)
  let ?ps = "rev (range_pages vmid vend) @ rev (range_pages (PGROUNDUP vstart) vmid)"
  have "set ?ps = {p. p mod PGSIZE = 0 \<and> vstart \<le> p \<and> unat p + 4096 \<le> unat vend}"
    unfolding set_append set_rev by (rule range_pages_two [OF assms(5) pu assms(4,6)])
  moreover have "mbind (kinit1 vstart vmid) (\<lambda>_. kinit2 vmid vend) s = Ret () (u\<lparr>use_lock := True\<rparr>)"
    using t(1) u(1) by (simp add: kinit1_def kinit2_def initlock_def)
  ultimately show ?thesis
    using u(2) by (intro exI [of _ "u\<lparr>use_lock := True\<rparr>"] exI [of _ ?ps]) (simp add: kmem_list_def)
qed

theorem kinit_frees_all_pages_witness:
  "\<exists>t ps. mbind (kinit1 0x80100000 0x80400000) (\<lambda>_. kinit2 0x80400000 0x8E000000)
      (two_pages\<lparr>freelist := 0\<rparr>) = Ret () t \<and> use_lock t \<and> flist (mem t) (freelist t) ps \<and> distinct ps \<and>
    set ps = {p. p mod PGSIZE = 0 \<and> 0x80100000 \<le> p \<and> unat p + 4096 \<le> unat (0x8E000000 :: uint)}"
  by (rule kinit_frees_all_pages) (simp_all add: two_pages_def)

end
