(* ===== verification/Vm.thy ===== *)
theory Vm
  imports Kalloc
begin

text \<open>
  Model of \<open>vm.c\<close>: two-level page tables kept in the modelled memory, the kernel part every page
  table shares, user memory growth, shrinking, copying and teardown, and copying to user addresses.
  \<open>loaduvm\<close> is modelled with \<open>exec\<close>, \<open>switchuvm\<close> with the process table.

  \<open>vtrans\<close> is what the processor's page walk does with a virtual address; \<open>kdata\<close> is the linker
  symbol \<open>data\<close>. \<open>cons_out\<close> collects the messages the kernel prints with \<open>cprintf\<close>, format and
  arguments, in order.
\<close>

section \<open>State and page table entries\<close>

datatype fmtarg = Num int | Str "byte list"

record vm_state = kmem_state +
  kdata :: uint
  kpgdir :: uint
  cons_out :: "(string \<times> fmtarg list) list"

abbreviation EXTMEM :: uint where "EXTMEM \<equiv> 0x100000"
abbreviation DEVSPACE :: uint where "DEVSPACE \<equiv> 0xFE000000"
abbreviation KERNLINK :: uint where "KERNLINK \<equiv> 0x80100000"
abbreviation PTE_P :: uint where "PTE_P \<equiv> 1"
abbreviation PTE_W :: uint where "PTE_W \<equiv> 2"
abbreviation PTE_U :: uint where "PTE_U \<equiv> 4"

definition PDX :: "uint \<Rightarrow> uint" where
  "PDX va = drop_bit 22 va AND 0x3FF"

definition PTX :: "uint \<Rightarrow> uint" where
  "PTX va = drop_bit 12 va AND 0x3FF"

definition PGADDR :: "uint \<Rightarrow> uint \<Rightarrow> uint \<Rightarrow> uint" where
  "PGADDR d t ofs = push_bit 22 d OR push_bit 12 t OR ofs"

definition PTE_ADDR :: "uint \<Rightarrow> uint" where
  "PTE_ADDR pte = pte AND NOT 0xFFF"

definition PTE_FLAGS :: "uint \<Rightarrow> uint" where
  "PTE_FLAGS pte = pte AND 0xFFF"

definition cprintf :: "string \<Rightarrow> fmtarg list \<Rightarrow> ('z vm_state_scheme, unit) kfun" where
  "cprintf fmt args = modify (\<lambda>s. s\<lparr>cons_out := cons_out s @ [(fmt, args)]\<rparr>)"

section \<open>Loops over addresses\<close>

text \<open>
  \<open>for(a = start; a < lim; a += PGSIZE) body\<close>. The body either makes the function return
  (\<open>Inl\<close>) or goes on with a value of \<open>a\<close> (\<open>Inr\<close>), to which the loop adds \<open>PGSIZE\<close>. The limits
  in the code are at most \<open>KERNBASE\<close>, so \<open>a\<close> never wraps around; a wrap is made an error here.
\<close>

function pgloop :: "uint \<Rightarrow> uint \<Rightarrow> (uint \<Rightarrow> ('s, 'r + uint) kfun) \<Rightarrow> ('s, 'r option) kfun" where
  "pgloop a lim body =
     (if a < lim
      then mbind (body a) (\<lambda>r. case r of
             Inl x \<Rightarrow> ret (Some x)
           | Inr a' \<Rightarrow> if a' + PGSIZE \<le> a then undef ''address wrap'' else pgloop (a' + PGSIZE) lim body)
      else ret None)"
  by pat_completeness auto
termination
  by (relation "measure (\<lambda>(a, _, _). 2 ^ 32 - unat a)")
    (auto simp: not_le word_less_nat_alt intro!: diff_less_mono2 order_less_le_trans [OF unat32_lt])

declare pgloop.simps [simp del]

section \<open>Page tables\<close>

definition walkpgdir :: "uint \<Rightarrow> uint \<Rightarrow> bool \<Rightarrow> ('z vm_state_scheme, uint) kfun" where
  "walkpgdir pgdir va alloc =
     mbind (gets (\<lambda>s. load32 (mem s) (pgdir + 4 * PDX va))) (\<lambda>pde.
     if pde AND PTE_P \<noteq> 0 then ret (P2V (PTE_ADDR pde) + 4 * PTX va)
     else if \<not> alloc then ret 0
     else mbind kalloc (\<lambda>pgtab.
          if pgtab = 0 then ret 0 else
          mbind (modify (\<lambda>s. s\<lparr>mem := memset (mem s) pgtab 0 PGSIZE\<rparr>)) (\<lambda>_.
          mbind (modify (\<lambda>s. s\<lparr>mem := store32 (mem s) (pgdir + 4 * PDX va)
                   (V2P pgtab OR PTE_P OR PTE_W OR PTE_U)\<rparr>)) (\<lambda>_.
          ret (pgtab + 4 * PTX va)))))"

text \<open>
  The loop of \<open>mappages\<close>. Both \<open>a\<close> and \<open>lst\<close> are page aligned, so \<open>a\<close> reaches \<open>lst\<close>; a distance
  below a page, which alignment excludes, is made an error.
\<close>

function mappages_loop :: "uint \<Rightarrow> uint \<Rightarrow> uint \<Rightarrow> uint \<Rightarrow> uint \<Rightarrow> ('z vm_state_scheme, int) kfun" where
  "mappages_loop pgdir a lst pa perm =
     mbind (walkpgdir pgdir a True) (\<lambda>pte.
     if pte = 0 then ret (-1) else
     mbind (gets (\<lambda>s. load32 (mem s) pte)) (\<lambda>e.
     if e AND PTE_P \<noteq> 0 then panic ''remap'' else
     mbind (modify (\<lambda>s. s\<lparr>mem := store32 (mem s) pte (pa OR perm OR PTE_P)\<rparr>)) (\<lambda>_.
     if a = lst then ret 0
     else if unat (lst - a) < 4096 then undef ''misaligned''
     else mappages_loop pgdir (a + PGSIZE) lst (pa + PGSIZE) perm)))"
  by pat_completeness auto
termination
proof (relation "measure (\<lambda>(_, a, lst, _, _). unat (lst - a))")
  fix a lst :: uint
  assume "\<not> unat (lst - a) < 4096"
  then have "unat (lst - a - PGSIZE) = unat (lst - a) - 4096"
    by (simp add: unat_sub word_le_nat_alt)
  with \<open>\<not> unat (lst - a) < 4096\<close>
  show "((pgdir, a + PGSIZE, lst, pa + PGSIZE, perm), pgdir, a, lst, pa, perm)
    \<in> measure (\<lambda>(_, a, lst, _, _). unat (lst - a))" for pgdir pa perm :: uint
    by (simp add: diff_diff_eq)
qed simp

declare mappages_loop.simps [simp del]

definition mappages :: "uint \<Rightarrow> uint \<Rightarrow> uint \<Rightarrow> uint \<Rightarrow> uint \<Rightarrow> ('z vm_state_scheme, int) kfun" where
  "mappages pgdir va sz pa perm =
     mappages_loop pgdir (PGROUNDDOWN va) (PGROUNDDOWN (va + sz - 1)) pa perm"

definition deallocuvm :: "uint \<Rightarrow> uint \<Rightarrow> uint \<Rightarrow> ('z vm_state_scheme, uint) kfun" where
  "deallocuvm pgdir oldsz newsz =
     (if newsz \<ge> oldsz then ret oldsz else
      mbind (pgloop (PGROUNDUP newsz) oldsz (\<lambda>a.
        mbind (walkpgdir pgdir a False) (\<lambda>pte.
        if pte = 0 then ret (Inr (PGADDR (PDX a + 1) 0 0 - PGSIZE)) else
        mbind (gets (\<lambda>s. load32 (mem s) pte)) (\<lambda>e.
        if e AND PTE_P \<noteq> 0 then
          (if PTE_ADDR e = 0 then panic ''kfree'' else
           mbind (kfree (P2V (PTE_ADDR e))) (\<lambda>_.
           mbind (modify (\<lambda>s. s\<lparr>mem := store32 (mem s) pte 0\<rparr>)) (\<lambda>_.
           ret (Inr a))))
        else ret (Inr a))) :: ('z vm_state_scheme, unit + uint) kfun)) (\<lambda>_.
      ret newsz))"

definition freevm :: "uint \<Rightarrow> ('z vm_state_scheme, unit) kfun" where
  "freevm pgdir =
     (if pgdir = 0 then panic ''freevm: no pgdir'' else
      mbind (deallocuvm pgdir KERNBASE 0) (\<lambda>_.
      mbind (mforeach [0..<1024] (\<lambda>i.
        mbind (gets (\<lambda>s. load32 (mem s) (pgdir + 4 * of_nat i))) (\<lambda>pde.
        if pde AND PTE_P \<noteq> 0 then kfree (P2V (PTE_ADDR pde)) else ret ()))) (\<lambda>_.
      kfree pgdir)))"

definition kmap :: "uint \<Rightarrow> (uint \<times> uint \<times> uint \<times> uint) list" where
  "kmap data =
     [(KERNBASE, 0, EXTMEM, PTE_W),
      (KERNLINK, V2P KERNLINK, V2P data, 0),
      (data, V2P data, PHYSTOP, PTE_W),
      (DEVSPACE, DEVSPACE, 0, PTE_W)]"

fun setupkvm_loop :: "uint \<Rightarrow> (uint \<times> uint \<times> uint \<times> uint) list \<Rightarrow> ('z vm_state_scheme, uint) kfun" where
  "setupkvm_loop pgdir [] = ret pgdir"
| "setupkvm_loop pgdir ((virt, phys_start, phys_end, perm) # ks) =
     mbind (mappages pgdir virt (phys_end - phys_start) phys_start perm) (\<lambda>r.
     if r < 0 then mbind (freevm pgdir) (\<lambda>_. ret 0) else setupkvm_loop pgdir ks)"

definition setupkvm :: "('z vm_state_scheme, uint) kfun" where
  "setupkvm =
     mbind kalloc (\<lambda>pgdir.
     if pgdir = 0 then ret 0 else
     mbind (modify (\<lambda>s. s\<lparr>mem := memset (mem s) pgdir 0 PGSIZE\<rparr>)) (\<lambda>_.
     if P2V PHYSTOP > DEVSPACE then panic ''PHYSTOP too high'' else
     mbind (gets (\<lambda>s. kmap (kdata s))) (\<lambda>ks.
     setupkvm_loop pgdir ks)))"

text \<open>\<open>lcr3\<close> loads the page table register of the executing processor.\<close>

definition lcr3 :: "uint \<Rightarrow> ('z machine_scheme, unit) kfun" where
  "lcr3 v = (\<lambda>s. case find_idx (\<lambda>c. apicid c = lapicid s) (cpus s) of
       None \<Rightarrow> Stop (Undef ''unknown processor'')
     | Some i \<Rightarrow> upd_cpu i (\<lambda>c. c\<lparr>cr3 := v\<rparr>) s)"

definition switchkvm :: "('z vm_state_scheme, unit) kfun" where
  "switchkvm = mbind (gets kpgdir) (\<lambda>d. lcr3 (V2P d))"

definition kvmalloc :: "('z vm_state_scheme, unit) kfun" where
  "kvmalloc =
     mbind setupkvm (\<lambda>d.
     mbind (modify (\<lambda>s. s\<lparr>kpgdir := d\<rparr>)) (\<lambda>_.
     switchkvm))"

section \<open>User memory\<close>

text \<open>\<open>init\<close> is the kernel address of the boot program. The result of \<open>mappages\<close> is ignored.\<close>

definition inituvm :: "uint \<Rightarrow> uint \<Rightarrow> uint \<Rightarrow> ('z vm_state_scheme, unit) kfun" where
  "inituvm pgdir init sz =
     (if sz \<ge> PGSIZE then panic ''inituvm: more than a page'' else
      mbind kalloc (\<lambda>m.
      mbind (modify (\<lambda>s. s\<lparr>mem := memset (mem s) m 0 PGSIZE\<rparr>)) (\<lambda>_.
      mbind (mappages pgdir 0 PGSIZE (V2P m) (PTE_W OR PTE_U)) (\<lambda>_.
      modify (\<lambda>s. s\<lparr>mem := memmove (mem s) m init sz\<rparr>)))))"

definition allocuvm :: "uint \<Rightarrow> uint \<Rightarrow> uint \<Rightarrow> ('z vm_state_scheme, uint) kfun" where
  "allocuvm pgdir oldsz newsz =
     (if newsz \<ge> KERNBASE then ret 0
      else if newsz < oldsz then ret oldsz
      else mbind (pgloop (PGROUNDUP oldsz) newsz (\<lambda>a.
        mbind kalloc (\<lambda>m.
        if m = 0 then
          mbind (cprintf ''allocuvm out of memory'' []) (\<lambda>_.
          mbind (deallocuvm pgdir newsz oldsz) (\<lambda>_.
          ret (Inl 0)))
        else
          mbind (modify (\<lambda>s. s\<lparr>mem := memset (mem s) m 0 PGSIZE\<rparr>)) (\<lambda>_.
          mbind (mappages pgdir a PGSIZE (V2P m) (PTE_W OR PTE_U)) (\<lambda>r.
          if r < 0 then
            mbind (cprintf ''allocuvm out of memory (2)'' []) (\<lambda>_.
            mbind (deallocuvm pgdir newsz oldsz) (\<lambda>_.
            mbind (kfree m) (\<lambda>_.
            ret (Inl 0))))
          else ret (Inr a)))))) (\<lambda>r.
      case r of Some x \<Rightarrow> ret x | None \<Rightarrow> ret newsz))"

definition clearpteu :: "uint \<Rightarrow> uint \<Rightarrow> ('z vm_state_scheme, unit) kfun" where
  "clearpteu pgdir uva =
     mbind (walkpgdir pgdir uva False) (\<lambda>pte.
     if pte = 0 then panic ''clearpteu'' else
     modify (\<lambda>s. s\<lparr>mem := store32 (mem s) pte (load32 (mem s) pte AND NOT PTE_U)\<rparr>))"

definition copyuvm :: "uint \<Rightarrow> uint \<Rightarrow> ('z vm_state_scheme, uint) kfun" where
  "copyuvm pgdir sz =
     mbind setupkvm (\<lambda>d.
     if d = 0 then ret 0 else
     mbind (pgloop 0 sz (\<lambda>i.
       mbind (walkpgdir pgdir i False) (\<lambda>pte.
       if pte = 0 then panic ''copyuvm: pte should exist'' else
       mbind (gets (\<lambda>s. load32 (mem s) pte)) (\<lambda>e.
       if e AND PTE_P = 0 then panic ''copyuvm: page not present'' else
       mbind kalloc (\<lambda>m.
       if m = 0 then ret (Inl ()) else
       mbind (modify (\<lambda>s. s\<lparr>mem := memmove (mem s) m (P2V (PTE_ADDR e)) PGSIZE\<rparr>)) (\<lambda>_.
       mbind (mappages d i PGSIZE (V2P m) (PTE_FLAGS e)) (\<lambda>r.
       if r < 0 then mbind (kfree m) (\<lambda>_. ret (Inl ()))
       else ret (Inr i)))))))) (\<lambda>r.
     case r of
       None \<Rightarrow> ret d
     | Some _ \<Rightarrow> mbind (freevm d) (\<lambda>_. ret 0)))"

text \<open>The result of \<open>walkpgdir\<close> is not tested: with no page table for the address, NULL is read.\<close>

definition uva2ka :: "uint \<Rightarrow> uint \<Rightarrow> ('z vm_state_scheme, uint) kfun" where
  "uva2ka pgdir uva =
     mbind (walkpgdir pgdir uva False) (\<lambda>pte.
     if pte = 0 then undef ''NULL dereference'' else
     mbind (gets (\<lambda>s. load32 (mem s) pte)) (\<lambda>e.
     if e AND PTE_P = 0 then ret 0
     else if e AND PTE_U = 0 then ret 0
     else ret (P2V (PTE_ADDR e))))"

lemma page_rest_pos: "0 < unat (PGSIZE - (va - PGROUNDDOWN va))"
proof -
  have "unat (PGROUNDDOWN va) \<le> unat va" by (simp add: unat_PGROUNDDOWN)
  then have "unat (va - PGROUNDDOWN va) = unat va mod 4096"
    by (simp add: unat_sub word_le_nat_alt unat_PGROUNDDOWN minus_div_mult_eq_mod)
  then have "unat (PGSIZE - (va - PGROUNDDOWN va)) = 4096 - unat va mod 4096"
    by (simp add: unat_sub word_le_nat_alt)
  then show ?thesis by simp
qed

text \<open>
  \<open>copyout\<close> copies bytes to a user address of \<open>pgdir\<close>. Its callers pass a string of the current address space
  or a local variable; the bytes there are the argument \<open>bs\<close>. Each turn of the loop copies at least one.
\<close>

fun store_bytes :: "mem \<Rightarrow> uint \<Rightarrow> byte list \<Rightarrow> mem" where
  "store_bytes m a [] = m"
| "store_bytes m a (b # bs) = store_bytes (m(a := b)) (a + 1) bs"

function copyout :: "uint \<Rightarrow> uint \<Rightarrow> byte list \<Rightarrow> ('z vm_state_scheme, int) kfun" where
  "copyout pgdir va bs =
     (if bs = [] then ret 0 else
      let va0 = PGROUNDDOWN va in
      mbind (uva2ka pgdir va0) (\<lambda>pa0.
      if pa0 = 0 then ret (-1) else
      let n = unat (PGSIZE - (va - va0)); n = (if n > length bs then length bs else n) in
      mbind (modify (\<lambda>s. s\<lparr>mem := store_bytes (mem s) (pa0 + (va - va0)) (take n bs)\<rparr>)) (\<lambda>_.
      copyout pgdir (va0 + PGSIZE) (drop n bs))))"
  by pat_completeness auto
termination
proof (relation "measure (\<lambda>(_, _, bs). length bs)")
  fix pgdir va x :: uint and bs :: "byte list" and xb xc :: nat
  assume bs: "bs \<noteq> []" and x: "x = PGROUNDDOWN va" and xb: "xb = unat (PGSIZE - (va - x))"
    and xc: "xc = (if length bs < xb then length bs else xb)"
  have "0 < xb" unfolding xb x by (rule page_rest_pos)
  with bs have "0 < xc" "length bs > 0" by (auto simp: xc)
  then show "((pgdir, x + PGSIZE, drop xc bs), pgdir, va, bs) \<in> measure (\<lambda>(_, _, bs). length bs)"
    by simp
qed simp

declare copyout.simps [simp del]

section \<open>Kernel accesses to user addresses\<close>

text \<open>
  The kernel dereferences user pointers directly, so the processor translates them with the page
  table in its \<open>cr3\<close>. Kernel addresses are the keys of \<open>mem\<close>. \<open>need\<close> are the bits both
  levels must have: \<open>PTE_P\<close> for a load, also \<open>PTE_W\<close> for a store. A fault in kernel mode ends in the
  \<open>panic\<close> of \<open>trap()\<close>.
\<close>

definition vtrans :: "mem \<Rightarrow> uint \<Rightarrow> uint \<Rightarrow> uint \<Rightarrow> uint option" where
  "vtrans m pgdir need va =
     (if va \<ge> KERNBASE then Some va else
      let pde = load32 m (pgdir + 4 * PDX va) in
      if pde AND need \<noteq> need then None else
      let pte = load32 m (P2V (PTE_ADDR pde) + 4 * PTX va) in
      if pte AND need \<noteq> need then None else
      Some (P2V (PTE_ADDR pte) + (va AND 0xFFF)))"

definition cur_pgdir :: "('z machine_scheme, uint) kfun" where
  "cur_pgdir = (\<lambda>s. case find_idx (\<lambda>c. apicid c = lapicid s) (cpus s) of
       None \<Rightarrow> Stop (Undef ''unknown processor'')
     | Some i \<Rightarrow> Ret (P2V (cr3 (cpus s ! i))) s)"

definition uload8 :: "uint \<Rightarrow> ('z kmem_state_scheme, byte) kfun" where
  "uload8 va =
     mbind cur_pgdir (\<lambda>d.
     mbind (gets (\<lambda>s. vtrans (mem s) d PTE_P va)) (\<lambda>r. case r of
       None \<Rightarrow> panic ''trap''
     | Some a \<Rightarrow> gets (\<lambda>s. mem s a)))"

definition ustore8 :: "uint \<Rightarrow> byte \<Rightarrow> ('z kmem_state_scheme, unit) kfun" where
  "ustore8 va b =
     mbind cur_pgdir (\<lambda>d.
     mbind (gets (\<lambda>s. vtrans (mem s) d (PTE_P OR PTE_W) va)) (\<lambda>r. case r of
       None \<Rightarrow> panic ''trap''
     | Some a \<Rightarrow> modify (\<lambda>s. s\<lparr>mem := (mem s)(a := b)\<rparr>)))"

definition uload32 :: "uint \<Rightarrow> ('z kmem_state_scheme, uint) kfun" where
  "uload32 va =
     mbind (uload8 va) (\<lambda>b0. mbind (uload8 (va + 1)) (\<lambda>b1.
     mbind (uload8 (va + 2)) (\<lambda>b2. mbind (uload8 (va + 3)) (\<lambda>b3.
     ret (ucast b0 OR push_bit 8 (ucast b1) OR push_bit 16 (ucast b2) OR push_bit 24 (ucast b3))))))"

definition ustore32 :: "uint \<Rightarrow> uint \<Rightarrow> ('z kmem_state_scheme, unit) kfun" where
  "ustore32 va v =
     mbind (ustore8 va (ucast v)) (\<lambda>_. mbind (ustore8 (va + 1) (ucast (drop_bit 8 v))) (\<lambda>_.
     mbind (ustore8 (va + 2) (ucast (drop_bit 16 v))) (\<lambda>_.
     ustore8 (va + 3) (ucast (drop_bit 24 v)))))"

end
