(* ===== verification/Proc.thy ===== *)
theory Proc
  imports Vm
begin

text \<open>
  Model of the scheduling half of \<open>proc.c\<close>: the process table, the five multi-level feedback queues,
  sleep and wakeup, \<open>kill\<close>, and the scheduler under each of the three policies the kernel can be
  built with. Creation and termination of processes and threads are in \<open>Proclife\<close>.

  A \<open>struct proc *\<close> is an index into the process table, \<open>queue\<close> holds such pointers (\<open>None\<close> is
  NULL), and a queue's valid entries are those up to \<open>q_tail\<close>. The \<open>SCHEDULER\<close> macro of the build is
  the field \<open>policy\<close>, which no operation writes. The process and group
  numbers and the counters of ticks are unbounded integers, where the \<open>int\<close> fields of \<open>struct proc\<close> overflow at \<open>2^31\<close>.
\<close>

section \<open>State\<close>

datatype policy = RR | FCFS | MLFQ

datatype procstate = UNUSED | EMBRYO | SLEEPING | RUNNABLE | RUNNING | ZOMBIE

record proc =
  sz :: uint
  pgdir :: uint
  kstack :: uint
  tstack :: uint
  state :: procstate
  pid :: int
  tgid :: int
  parent :: "nat option"
  tf :: uint
  pcontext :: uint
  chan :: "chan option"
  killed :: bool
  ofile :: "nat option list"
  cwd :: "nat option"
  pname :: "byte list"
  iotime :: int
  rtime :: int
  ctime :: int
  etime :: int
  waitshh :: int
  priority :: int
  num_run :: int
  qticks :: "int list"
  pqueue :: int
  curr_ticks :: int
  change_q :: bool
  enter :: int
  tfunction :: uint
  pticks :: int

record pstate = vm_state +
  policy :: policy
  procs :: "proc list"
  queue :: "nat option list list"
  q_tail :: "int list"
  initproc :: "nat option"
  nextpid :: int
  nexttgid :: int
  ticks :: uint

section \<open>Access to the table\<close>

definition getp :: "nat \<Rightarrow> ('z pstate_scheme, proc) kfun" where
  "getp p = (\<lambda>s. if p < length (procs s) then Ret (procs s ! p) s else Stop (Undef ''proc pointer''))"

definition upd_proc :: "nat \<Rightarrow> (proc \<Rightarrow> proc) \<Rightarrow> ('z pstate_scheme, unit) kfun" where
  "upd_proc p f = modify (\<lambda>s. s\<lparr>procs := upd_at p f (procs s)\<rparr>)"

definition get_tail :: "int \<Rightarrow> ('z pstate_scheme, int) kfun" where
  "get_tail q = (\<lambda>s. if 0 \<le> q \<and> nat q < length (q_tail s) then Ret (q_tail s ! nat q) s
                      else Stop (Undef ''q_tail index''))"

definition set_tail :: "int \<Rightarrow> int \<Rightarrow> ('z pstate_scheme, unit) kfun" where
  "set_tail q t = modify (\<lambda>s. s\<lparr>q_tail := (q_tail s)[nat q := t]\<rparr>)"

definition q_read :: "int \<Rightarrow> int \<Rightarrow> ('z pstate_scheme, nat option) kfun" where
  "q_read q i = (\<lambda>s.
     if 0 \<le> q \<and> nat q < length (queue s) \<and> 0 \<le> i \<and> nat i < length (queue s ! nat q)
     then Ret (queue s ! nat q ! nat i) s else Stop (Undef ''queue index''))"

definition q_write :: "int \<Rightarrow> int \<Rightarrow> nat option \<Rightarrow> ('z pstate_scheme, unit) kfun" where
  "q_write q i v = (\<lambda>s.
     if 0 \<le> q \<and> nat q < length (queue s) \<and> 0 \<le> i \<and> nat i < length (queue s ! nat q)
     then Ret () (s\<lparr>queue := (queue s)[nat q := (queue s ! nat q)[nat i := v]]\<rparr>)
     else Stop (Undef ''queue index''))"

definition deref :: "nat option \<Rightarrow> ('z pstate_scheme, nat) kfun" where
  "deref r = (case r of Some p \<Rightarrow> ret p | None \<Rightarrow> undef ''NULL dereference'')"

section \<open>The feedback queues\<close>

definition ticking :: "('z pstate_scheme, unit) kfun" where
  "ticking = modify (\<lambda>s. s\<lparr>procs := map (\<lambda>p.
     if state p = RUNNING then p\<lparr>rtime := rtime p + 1\<rparr>
     else if state p = SLEEPING then p\<lparr>iotime := iotime p + 1\<rparr>
     else p) (procs s)\<rparr>)"

text \<open>The first of the given positions of queue \<open>q\<close> that holds a process with the given pid.\<close>

fun q_search :: "nat list \<Rightarrow> int \<Rightarrow> int \<Rightarrow> ('z pstate_scheme, nat option) kfun" where
  "q_search [] q n = ret None"
| "q_search (i # is) q n =
     mbind (q_read q (int i)) (\<lambda>r.
     mbind (deref r) (\<lambda>p.
     mbind (getp p) (\<lambda>pr.
     if pid pr = n then ret (Some i) else q_search is q n)))"

definition add_proc_to_q :: "nat \<Rightarrow> int \<Rightarrow> ('z pstate_scheme, int) kfun" where
  "add_proc_to_q p q_no =
     mbind (get_tail q_no) (\<lambda>t.
     mbind (getp p) (\<lambda>pr.
     mbind (q_search [0..<nat t] q_no (pid pr)) (\<lambda>r. case r of
       Some _ \<Rightarrow> ret (-1)
     | None \<Rightarrow>
       mbind (gets ticks) (\<lambda>now.
       mbind (upd_proc p (\<lambda>x. x\<lparr>enter := sint now\<rparr>)) (\<lambda>_.
       mbind (upd_proc p (\<lambda>x. x\<lparr>pqueue := q_no\<rparr>)) (\<lambda>_.
       mbind (set_tail q_no (t + 1)) (\<lambda>_.
       mbind (q_write q_no (t + 1) (Some p)) (\<lambda>_.
       ret 1))))))))"

definition remove_proc_from_q :: "nat \<Rightarrow> int \<Rightarrow> ('z pstate_scheme, int) kfun" where
  "remove_proc_from_q p q_no =
     mbind (get_tail q_no) (\<lambda>t.
     mbind (getp p) (\<lambda>pr.
     mbind (q_search [0..<nat (t + 1)] q_no (pid pr)) (\<lambda>r. case r of
       None \<Rightarrow> ret (-1)
     | Some rem \<Rightarrow>
       mbind (mforeach [rem..<nat t] (\<lambda>i.
         mbind (q_read q_no (int i + 1)) (\<lambda>v. q_write q_no (int i) v))) (\<lambda>_.
       mbind (set_tail q_no (t - 1)) (\<lambda>_.
       ret 1)))))"

definition change_q_flag :: "nat \<Rightarrow> ('z pstate_scheme, unit) kfun" where
  "change_q_flag p =
     mbind (acquire PtableLk) (\<lambda>_.
     mbind (upd_proc p (\<lambda>x. x\<lparr>change_q := True\<rparr>)) (\<lambda>_.
     release PtableLk))"

definition incr_curr_ticks :: "nat \<Rightarrow> ('z pstate_scheme, unit) kfun" where
  "incr_curr_ticks p =
     mbind (acquire PtableLk) (\<lambda>_.
     mbind (upd_proc p (\<lambda>x. x\<lparr>curr_ticks := curr_ticks x + 1\<rparr>)) (\<lambda>_.
     mbind (getp p) (\<lambda>pr.
     mbind (if 0 \<le> pqueue pr \<and> nat (pqueue pr) < length (qticks pr)
            then upd_proc p (\<lambda>x. x\<lparr>qticks := (qticks x)[nat (pqueue x) := qticks x ! nat (pqueue x) + 1]\<rparr>)
            else undef ''qticks index'') (\<lambda>_.
     release PtableLk))))"

definition pinit :: "('z pstate_scheme, unit) kfun" where
  "pinit = initlock PtableLk ''ptable''"

section \<open>Address space switching\<close>

text \<open>
  \<open>switchuvm\<close>: the task state segment is represented by the one field the kernel relies on, the
  stack the processor enters the kernel with.
\<close>

definition switchuvm :: "nat \<Rightarrow> ('z pstate_scheme, unit) kfun" where
  "switchuvm p =
     mbind (getp p) (\<lambda>pr.
     if kstack pr = 0 then panic ''switchuvm: no kstack''
     else if pgdir pr = 0 then panic ''switchuvm: no pgdir''
     else mbind pushcli (\<lambda>_.
          mbind mycpu (\<lambda>i.
          mbind (upd_cpu i (\<lambda>c. c\<lparr>ts_esp0 := kstack pr + 4096\<rparr>)) (\<lambda>_.
          mbind (lcr3 (V2P (pgdir pr))) (\<lambda>_.
          popcli)))))"

section \<open>Giving up the CPU\<close>

text \<open>
  \<open>sched\<close> ends in \<open>swtch\<close>, which saves the process and enters the scheduler: the result is
  \<open>Swtch\<close>. \<open>sched_resume\<close> is what remains to be done when the scheduler later switches back, with the
  value of the local variable \<open>intena\<close>. \<open>yield_resume\<close> and \<open>sleep_resume\<close> are the parts of \<open>yield\<close> and
  \<open>sleep\<close> after their call of \<open>sched\<close>.
\<close>

definition sched :: "('z pstate_scheme, unit) kfun" where
  "sched =
     mbind myproc (\<lambda>r.
     mbind (holding PtableLk) (\<lambda>h.
     if \<not> h then panic ''sched ptable.lock'' else
     mbind mycpu (\<lambda>i.
     mbind (gets (\<lambda>s. ncli (cpus s ! i))) (\<lambda>n.
     if n \<noteq> 1 then panic ''sched locks'' else
     mbind (deref r) (\<lambda>p.
     mbind (getp p) (\<lambda>pr.
     if state pr = RUNNING then panic ''sched running'' else
     mbind readeflags_if (\<lambda>f.
     if f then panic ''sched interruptible'' else
     (\<lambda>s. Swtch s))))))))"

definition sched_resume :: "bool \<Rightarrow> ('z pstate_scheme, unit) kfun" where
  "sched_resume ie = mbind mycpu (\<lambda>i. upd_cpu i (\<lambda>c. c\<lparr>intena := ie\<rparr>))"

definition yield :: "('z pstate_scheme, unit) kfun" where
  "yield =
     mbind (acquire PtableLk) (\<lambda>_.
     mbind myproc (\<lambda>r.
     mbind (deref r) (\<lambda>p.
     mbind (upd_proc p (\<lambda>x. x\<lparr>state := RUNNABLE\<rparr>)) (\<lambda>_.
     sched))))"

definition yield_resume :: "bool \<Rightarrow> ('z pstate_scheme, unit) kfun" where
  "yield_resume ie = mbind (sched_resume ie) (\<lambda>_. release PtableLk)"

definition sleep :: "chan \<Rightarrow> spinid \<Rightarrow> ('z pstate_scheme, unit) kfun" where
  "sleep ch lk =
     mbind myproc (\<lambda>r. case r of
       None \<Rightarrow> panic ''sleep''
     | Some p \<Rightarrow>
       mbind (if lk \<noteq> PtableLk then mbind (acquire PtableLk) (\<lambda>_. release lk) else ret ()) (\<lambda>_.
       mbind (upd_proc p (\<lambda>x. x\<lparr>chan := Some ch\<rparr>)) (\<lambda>_.
       mbind (upd_proc p (\<lambda>x. x\<lparr>state := SLEEPING\<rparr>)) (\<lambda>_.
       sched))))"

definition sleep_resume :: "nat \<Rightarrow> spinid \<Rightarrow> bool \<Rightarrow> ('z pstate_scheme, unit) kfun" where
  "sleep_resume p lk ie =
     mbind (sched_resume ie) (\<lambda>_.
     mbind (upd_proc p (\<lambda>x. x\<lparr>chan := None\<rparr>)) (\<lambda>_.
     if lk \<noteq> PtableLk then mbind (release PtableLk) (\<lambda>_. acquire lk) else ret ()))"

section \<open>Waking up\<close>

text \<open>The tail both \<open>wakeup1\<close> and \<open>kill\<close> have for a sleeping process under MLFQ.\<close>

definition mlfq_wake :: "nat \<Rightarrow> ('z pstate_scheme, unit) kfun" where
  "mlfq_wake p =
     mbind (gets policy) (\<lambda>pol.
     if pol = MLFQ then
       mbind (upd_proc p (\<lambda>x. x\<lparr>curr_ticks := 0\<rparr>)) (\<lambda>_.
       mbind (getp p) (\<lambda>pr.
       mbind (add_proc_to_q p (pqueue pr)) (\<lambda>_.
       ret ())))
     else ret ())"

definition wakeup1 :: "chan \<Rightarrow> ('z pstate_scheme, unit) kfun" where
  "wakeup1 ch =
     mbind (gets (\<lambda>s. length (procs s))) (\<lambda>n.
     mforeach [0..<n] (\<lambda>p.
       mbind (getp p) (\<lambda>pr.
       if state pr = SLEEPING \<and> chan pr = Some ch then
         mbind (upd_proc p (\<lambda>x. x\<lparr>state := RUNNABLE\<rparr>)) (\<lambda>_.
         mlfq_wake p)
       else ret ())))"

definition wakeup :: "chan \<Rightarrow> ('z pstate_scheme, unit) kfun" where
  "wakeup ch =
     mbind (acquire PtableLk) (\<lambda>_.
     mbind (wakeup1 ch) (\<lambda>_.
     release PtableLk))"

definition kill :: "int \<Rightarrow> ('z pstate_scheme, int) kfun" where
  "kill n =
     mbind (acquire PtableLk) (\<lambda>_.
     mbind (gets (\<lambda>s. find_idx (\<lambda>x. pid x = n) (procs s))) (\<lambda>r. case r of
       None \<Rightarrow> mbind (release PtableLk) (\<lambda>_. ret (-1))
     | Some p \<Rightarrow>
       mbind (upd_proc p (\<lambda>x. x\<lparr>killed := True\<rparr>)) (\<lambda>_.
       mbind (getp p) (\<lambda>pr.
       mbind (if state pr = SLEEPING then
                mbind (upd_proc p (\<lambda>x. x\<lparr>state := RUNNABLE\<rparr>)) (\<lambda>_.
                mlfq_wake p)
              else ret ()) (\<lambda>_.
       mbind (release PtableLk) (\<lambda>_.
       ret 0))))))"

section \<open>The scheduler\<close>

text \<open>
  \<open>swtch p\<close> stands for \<open>swtch(&c->scheduler, p->context)\<close> of \<open>swtch.S\<close>: it resumes process \<open>p\<close> and
  returns when that process next enters the scheduler. \<open>c\<close> is the index of the processor.
\<close>

definition set_cproc :: "nat \<Rightarrow> nat option \<Rightarrow> ('z machine_scheme, unit) kfun" where
  "set_cproc c v = upd_cpu c (\<lambda>x. x\<lparr>cproc := v\<rparr>)"

definition sched_rr :: "(nat \<Rightarrow> ('z pstate_scheme, unit) kfun) \<Rightarrow> nat \<Rightarrow> ('z pstate_scheme, unit) kfun" where
  "sched_rr swtch c =
     mbind (gets (\<lambda>s. length (procs s))) (\<lambda>n.
     mforeach [0..<n] (\<lambda>p.
       mbind (getp p) (\<lambda>pr.
       if state pr \<noteq> RUNNABLE then ret () else
       mbind (set_cproc c (Some p)) (\<lambda>_.
       mbind (switchuvm p) (\<lambda>_.
       mbind (upd_proc p (\<lambda>x. x\<lparr>num_run := num_run x + 1\<rparr>)) (\<lambda>_.
       mbind (upd_proc p (\<lambda>x. x\<lparr>state := RUNNING\<rparr>)) (\<lambda>_.
       mbind (swtch p) (\<lambda>_.
       mbind switchkvm (\<lambda>_.
       set_cproc c None)))))))))"

fun fcfs_scan :: "nat list \<Rightarrow> nat option \<Rightarrow> ('z pstate_scheme, nat option) kfun" where
  "fcfs_scan [] best = ret best"
| "fcfs_scan (p # ps) best =
     mbind (getp p) (\<lambda>pr.
     if state pr \<noteq> RUNNABLE then fcfs_scan ps best
     else case best of
       None \<Rightarrow> fcfs_scan ps (Some p)
     | Some b \<Rightarrow> mbind (getp b) (\<lambda>br. fcfs_scan ps (if ctime pr < ctime br then Some p else Some b)))"

definition sched_fcfs :: "(nat \<Rightarrow> ('z pstate_scheme, unit) kfun) \<Rightarrow> nat \<Rightarrow> ('z pstate_scheme, unit) kfun" where
  "sched_fcfs swtch c =
     mbind (gets (\<lambda>s. length (procs s))) (\<lambda>n.
     mbind (fcfs_scan [0..<n] None) (\<lambda>r. case r of
       None \<Rightarrow> ret ()
     | Some p \<Rightarrow>
       mbind (getp p) (\<lambda>pr.
       if state pr \<noteq> RUNNABLE then ret () else
       mbind (set_cproc c (Some p)) (\<lambda>_.
       mbind (switchuvm p) (\<lambda>_.
       mbind (upd_proc p (\<lambda>x. x\<lparr>num_run := num_run x + 1\<rparr>)) (\<lambda>_.
       mbind (upd_proc p (\<lambda>x. x\<lparr>state := RUNNING\<rparr>)) (\<lambda>_.
       mbind (swtch p) (\<lambda>_.
       mbind switchkvm (\<lambda>_.
       set_cproc c None)))))))))"

text \<open>
  The aging loops. The inner loop ends when \<open>j\<close> passes the tail, which only shrinks while it runs;
  so visiting every index of the array and doing nothing past the tail is the same loop.
\<close>

definition age_turn :: "nat \<Rightarrow> nat \<Rightarrow> ('z pstate_scheme, unit) kfun" where
  "age_turn i j =
     mbind (get_tail (int i)) (\<lambda>t.
     if int j \<le> t then
       mbind (q_read (int i) (int j)) (\<lambda>r.
       mbind (deref r) (\<lambda>p.
       mbind (getp p) (\<lambda>pr.
       mbind (gets ticks) (\<lambda>now.
       if sint (now - word_of_int (enter pr)) > 30 then
         mbind (remove_proc_from_q p (int i)) (\<lambda>_.
         mbind (add_proc_to_q p (int i - 1)) (\<lambda>_.
         ret ()))
       else ret ()))))
     else ret ())"

definition mlfq_age :: "('z pstate_scheme, unit) kfun" where
  "mlfq_age =
     mforeach [1..<5] (\<lambda>i.
       mbind (gets (\<lambda>s. length (queue s ! i))) (\<lambda>n.
       mforeach [0..<n] (age_turn i)))"

fun mlfq_pick :: "nat list \<Rightarrow> ('z pstate_scheme, nat option) kfun" where
  "mlfq_pick [] = ret None"
| "mlfq_pick (i # is) =
     mbind (get_tail (int i)) (\<lambda>t.
     if t \<ge> 0 then
       mbind (q_read (int i) 0) (\<lambda>r.
       mbind (deref r) (\<lambda>p.
       mbind (remove_proc_from_q p (int i)) (\<lambda>_.
       ret (Some p))))
     else mlfq_pick is)"

text \<open>What the scheduler does with a process that gave the CPU back while still runnable.\<close>

definition mlfq_requeue :: "nat \<Rightarrow> ('z pstate_scheme, unit) kfun" where
  "mlfq_requeue p =
     mbind (getp p) (\<lambda>pr.
     if state pr = RUNNABLE then
       mbind (if change_q pr then
                mbind (upd_proc p (\<lambda>x. x\<lparr>change_q := False\<rparr>)) (\<lambda>_.
                mbind (upd_proc p (\<lambda>x. x\<lparr>curr_ticks := 0\<rparr>)) (\<lambda>_.
                if pqueue pr \<noteq> 4 then upd_proc p (\<lambda>x. x\<lparr>pqueue := pqueue x + 1\<rparr>) else ret ()))
              else upd_proc p (\<lambda>x. x\<lparr>curr_ticks := 0\<rparr>)) (\<lambda>_.
       mbind (getp p) (\<lambda>pr.
       mbind (add_proc_to_q p (pqueue pr)) (\<lambda>_.
       ret ())))
     else ret ())"

definition sched_mlfq :: "(nat \<Rightarrow> ('z pstate_scheme, unit) kfun) \<Rightarrow> nat \<Rightarrow> ('z pstate_scheme, unit) kfun" where
  "sched_mlfq swtch c =
     mbind mlfq_age (\<lambda>_.
     mbind (mlfq_pick [0..<5]) (\<lambda>r. case r of
       None \<Rightarrow> ret ()
     | Some p \<Rightarrow>
       mbind (getp p) (\<lambda>pr.
       if state pr \<noteq> RUNNABLE then ret () else
       mbind (upd_proc p (\<lambda>x. x\<lparr>num_run := num_run x + 1\<rparr>)) (\<lambda>_.
       mbind (set_cproc c (Some p)) (\<lambda>_.
       mbind (switchuvm p) (\<lambda>_.
       mbind (upd_proc p (\<lambda>x. x\<lparr>state := RUNNING\<rparr>)) (\<lambda>_.
       mbind (swtch p) (\<lambda>_.
       mbind switchkvm (\<lambda>_.
       mbind (set_cproc c None) (\<lambda>_.
       mlfq_requeue p))))))))))"

text \<open>One turn of the endless loop of \<open>scheduler\<close>, and what precedes the loop.\<close>

definition scheduler_turn :: "(nat \<Rightarrow> ('z pstate_scheme, unit) kfun) \<Rightarrow> nat \<Rightarrow> ('z pstate_scheme, unit) kfun" where
  "scheduler_turn swtch c =
     mbind sti (\<lambda>_.
     mbind (acquire PtableLk) (\<lambda>_.
     mbind (gets policy) (\<lambda>pol.
     mbind (case pol of RR \<Rightarrow> sched_rr swtch c | FCFS \<Rightarrow> sched_fcfs swtch c | MLFQ \<Rightarrow> sched_mlfq swtch c) (\<lambda>_.
     release PtableLk))))"

definition scheduler_start :: "('z pstate_scheme, nat) kfun" where
  "scheduler_start = mbind mycpu (\<lambda>c. mbind (set_cproc c None) (\<lambda>_. ret c))"

end
