(* ===== verification/Mlfq.thy ===== *)
theory Mlfq
  imports Proc "HOL-Library.Multiset"
begin

text \<open>
  The multi-level feedback queues of \<open>proc.c\<close> as lists: what \<open>add_proc_to_q\<close> and
  \<open>remove_proc_from_q\<close> do to them, the invariant that ties them to the process states, and its
  preservation by everything that runs under \<open>ptable.lock\<close>.
\<close>

section \<open>Queues as lists\<close>

text \<open>The contents of an array queue with tail index \<open>t\<close>, front first.\<close>

definition row_of :: "int \<Rightarrow> nat option list \<Rightarrow> nat list" where
  "row_of t xs = map the (take (nat (t + 1)) xs)"

definition row_ok :: "nat \<Rightarrow> int \<Rightarrow> nat option list \<Rightarrow> bool" where
  "row_ok n t xs \<longleftrightarrow> -1 \<le> t \<and> nat (t + 1) \<le> length xs \<and>
     (\<forall>x \<in> set (take (nat (t + 1)) xs). \<exists>p < n. x = Some p)"

abbreviation qrow :: "'z pstate_scheme \<Rightarrow> nat \<Rightarrow> nat list" where
  "qrow s q \<equiv> row_of (q_tail s ! q) (queue s ! q)"

definition q_ok_at :: "nat \<Rightarrow> nat option list list \<Rightarrow> int list \<Rightarrow> bool" where
  "q_ok_at n qs ts \<longleftrightarrow> length qs = 5 \<and> length ts = 5 \<and> (\<forall>q < 5. row_ok n (ts ! q) (qs ! q))"

abbreviation q_ok :: "'z pstate_scheme \<Rightarrow> bool" where
  "q_ok s \<equiv> q_ok_at (length (procs s)) (queue s) (q_tail s)"

lemmas q_ok_def = q_ok_at_def

lemma length_row_of: "row_ok n t xs \<Longrightarrow> length (row_of t xs) = nat (t + 1)"
  by (simp add: row_of_def row_ok_def)

lemma nth_row_ok:
  assumes "row_ok n t xs" and "i < nat (t + 1)"
  shows "xs ! i = Some (row_of t xs ! i)" and "row_of t xs ! i < n"
proof -
  have "xs ! i \<in> set (take (nat (t + 1)) xs)"
    using assms by (auto simp: row_ok_def in_set_conv_nth intro!: exI [of _ i])
  then obtain p where "p < n" "xs ! i = Some p" using assms(1) by (auto simp: row_ok_def)
  with assms show "xs ! i = Some (row_of t xs ! i)" "row_of t xs ! i < n"
    by (auto simp: row_of_def row_ok_def)
qed

lemma set_row_ok: "row_ok n t xs \<Longrightarrow> p \<in> set (row_of t xs) \<Longrightarrow> p < n"
  by (auto simp: row_ok_def row_of_def)

lemma row_of_append:
  assumes "row_ok n t xs" and "nat (t + 1) < length xs" and "p < n"
  shows "row_of (t + 1) (xs[nat (t + 1) := Some p]) = row_of t xs @ [p]"
    and "row_ok n (t + 1) (xs[nat (t + 1) := Some p])"
proof -
  have n: "nat (2 + t) = Suc (nat (t + 1))" using assms(1) by (auto simp: row_ok_def)
  have "take (Suc (nat (t + 1))) (xs[nat (t + 1) := Some p]) = take (nat (t + 1)) xs @ [Some p]"
    using assms(2) by (simp add: take_Suc_conv_app_nth)
  then show "row_of (t + 1) (xs[nat (t + 1) := Some p]) = row_of t xs @ [p]"
    and "row_ok n (t + 1) (xs[nat (t + 1) := Some p])"
    using assms by (auto simp: row_of_def row_ok_def n)
qed

text \<open>Closing the gap at position \<open>a\<close> by moving \<open>k\<close> entries down.\<close>

definition shift_row :: "nat \<Rightarrow> nat \<Rightarrow> 'a list \<Rightarrow> 'a list" where
  "shift_row a k xs = take a xs @ take k (drop (Suc a) xs) @ drop (a + k) xs"

lemma length_shift_row [simp]: "a + k < length xs \<Longrightarrow> length (shift_row a k xs) = length xs"
proof -
  assume "a + k < length xs"
  then have "k \<le> length xs - Suc a" by linarith
  with \<open>a + k < length xs\<close> show ?thesis by (simp add: shift_row_def min_absorb2)
qed

lemma shift_row_0 [simp]: "shift_row a 0 xs = xs"
  by (simp add: shift_row_def)

lemma shift_row_Suc:
  assumes len: "Suc (a + k) < length xs"
  shows "(shift_row a k xs)[a + k := shift_row a k xs ! Suc (a + k)] = shift_row a (Suc k) xs"
proof -
  have k: "k \<le> length xs - Suc a" using len by linarith
  have "take (Suc k) (drop (Suc a) xs) = take k (drop (Suc a) xs) @ [xs ! Suc (a + k)]"
    using len by (simp add: take_Suc_conv_app_nth)
  moreover have "drop (a + k) xs = xs ! (a + k) # drop (a + Suc k) xs"
    using len by (simp add: Cons_nth_drop_Suc)
  moreover have "shift_row a k xs ! Suc (a + k) = xs ! Suc (a + k)"
    using len by (simp add: shift_row_def nth_append min_absorb2 k)
  ultimately show ?thesis
    using len by (simp add: shift_row_def list_update_append min_absorb2 k)
qed

lemma row_of_shift:
  assumes "row_ok n t xs" and "a < nat (t + 1)"
  shows "row_of (t - 1) (shift_row a (nat t - a) xs) = take a (row_of t xs) @ drop (Suc a) (row_of t xs)"
    and "row_ok n (t - 1) (shift_row a (nat t - a) xs)"
proof -
  have "0 < t + 1" using assms(2) by (metis not_less_zero zless_nat_conj zero_less_nat_eq gr_zeroI)
  then obtain m where m: "t = int m" by (metis zero_le_imp_eq_int zle_add1_eq_le add.commute zless_add1_eq)
  have len: "m < length xs" "a \<le> m" using assms by (auto simp: m row_ok_def nat_add_distrib)
  have s1: "nat (int m + 1) = Suc m" by simp
  have k: "m - a \<le> length xs - Suc a" using len by linarith
  have tk: "take m (shift_row a (m - a) xs) = take a xs @ drop (Suc a) (take (Suc m) xs)"
    using len k by (simp add: shift_row_def min_absorb2 drop_take)
  then show "row_of (t - 1) (shift_row a (nat t - a) xs) = take a (row_of t xs) @ drop (Suc a) (row_of t xs)"
    using len by (simp add: m s1 row_of_def take_map drop_map min_absorb1)
  have "set (take a xs) \<subseteq> set (take (Suc m) xs)"
    using len by (simp add: set_take_subset_set_take)
  with tk len assms(1) show "row_ok n (t - 1) (shift_row a (nat t - a) xs)"
    by (auto simp: m s1 row_ok_def dest: in_set_dropD)
qed

section \<open>What the queue operations do\<close>

lemma getp_eq [simp]: "p < length (procs s) \<Longrightarrow> getp p s = Ret (procs s ! p) s"
  by (simp add: getp_def)

lemma upd_proc_eq [simp]: "upd_proc p f s = Ret () (s\<lparr>procs := upd_at p f (procs s)\<rparr>)"
  by (simp add: upd_proc_def)

lemma deref_Some [simp]: "deref (Some p) s = Ret p s"
  by (simp add: deref_def)

lemma get_tail_eq [simp]: "q_ok s \<Longrightarrow> q < 5 \<Longrightarrow> get_tail (int q) s = Ret (q_tail s ! q) s"
  by (simp add: get_tail_def q_ok_def)

lemma set_tail_eq [simp]: "set_tail (int q) t s = Ret () (s\<lparr>q_tail := (q_tail s)[q := t]\<rparr>)"
  by (simp add: set_tail_def)

lemma q_ok_row: "q_ok s \<Longrightarrow> q < 5 \<Longrightarrow> row_ok (length (procs s)) (q_tail s ! q) (queue s ! q)"
  by (simp add: q_ok_def)

lemma q_search_eq:
  assumes "q_ok s" and "q < 5" and "\<And>i. i \<in> set is \<Longrightarrow> i < length (qrow s q)"
  shows "q_search is (int q) n s = Ret (find (\<lambda>i. pid (procs s ! (qrow s q ! i)) = n) is) s"
  using assms(3)
proof (induction "is")
  case (Cons i "is")
  note row = q_ok_row [OF assms(1,2)]
  have i: "i < nat (q_tail s ! q + 1)" using Cons.prems length_row_of [OF row] by simp
  have l: "nat (int i) < length (queue s ! q)" using i row by (simp add: row_ok_def)
  with nth_row_ok [OF row i] Cons assms(1,2) show ?case
    by (simp add: q_read_def q_ok_def)
qed simp

lemma shift_loop:
  assumes "q < length (queue s)" and "a + k < length (queue s ! q)"
  shows "mforeach [a..<a + k] (\<lambda>i. mbind (q_read (int q) (int i + 1)) (\<lambda>v. q_write (int q) (int i) v)) s =
    Ret () (s\<lparr>queue := (queue s)[q := shift_row a k (queue s ! q)]\<rparr>)"
  using assms(2)
proof (induction k)
  case 0
  then show ?case by simp
next
  case (Suc k)
  have n: "nat (int a + int k + 1) = a + k + 1" by simp
  from Suc assms(1) show ?case
    by (simp add: mforeach_append upt_Suc_append q_read_def q_write_def n shift_row_Suc
        nat_add_distrib add.commute del: upt_Suc)
qed

text \<open>Removal takes out the first entry with the pid and keeps the order of the others.\<close>

definition deq :: "nat \<Rightarrow> nat \<Rightarrow> 'z pstate_scheme \<Rightarrow> 'z pstate_scheme" where
  "deq q a s = s\<lparr>queue := (queue s)[q := shift_row a (nat (q_tail s ! q) - a) (queue s ! q)],
     q_tail := (q_tail s)[q := q_tail s ! q - 1]\<rparr>"

lemma remove_proc_from_q_eq:
  assumes "q_ok s" and "q < 5" and "p < length (procs s)"
    and "find_idx (\<lambda>x. pid (procs s ! x) = pid (procs s ! p)) (qrow s q) = Some a"
  shows "remove_proc_from_q p (int q) s = Ret 1 (deq q a s)"
proof -
  note row = q_ok_row [OF assms(1,2)]
  have a: "a < nat (q_tail s ! q + 1)" using assms(4) length_row_of [OF row] by (simp add: find_idx_Some)
  have f: "find (\<lambda>i. pid (procs s ! (qrow s q ! i)) = pid (procs s ! p)) [0..<nat (q_tail s ! q + 1)] = Some a"
    using assms(4) length_row_of [OF row] by (auto simp: find_idx_Some find_Some_iff)
  have s: "q_search [0..<nat (q_tail s ! q + 1)] (int q) (pid (procs s ! p)) s = Ret (Some a) s"
    using length_row_of [OF row] by (subst q_search_eq [OF assms(1,2)]) (simp_all add: f)
  have b: "a + (nat (q_tail s ! q) - a) = nat (q_tail s ! q)" "nat (q_tail s ! q) < length (queue s ! q)"
    using a row by (auto simp: row_ok_def)
  have l: "q < length (queue s)" using assms(1,2) by (simp add: q_ok_def)
  show ?thesis
    using assms(1-3) s shift_loop [OF l, of a "nat (q_tail s ! q) - a"] b
    by (simp add: remove_proc_from_q_def deq_def)
qed

lemma remove_proc_from_q_none:
  assumes "q_ok s" and "q < 5" and "p < length (procs s)"
    and "\<And>x. x \<in> set (qrow s q) \<Longrightarrow> pid (procs s ! x) \<noteq> pid (procs s ! p)"
  shows "remove_proc_from_q p (int q) s = Ret (-1) s"
proof -
  note row = q_ok_row [OF assms(1,2)]
  have f: "find (\<lambda>i. pid (procs s ! (qrow s q ! i)) = pid (procs s ! p)) [0..<nat (q_tail s ! q + 1)] = None"
    using assms(4) length_row_of [OF row] by (auto simp: find_None_iff)
  have "q_search [0..<nat (q_tail s ! q + 1)] (int q) (pid (procs s ! p)) s = Ret None s"
    using length_row_of [OF row] by (subst q_search_eq [OF assms(1,2)]) (simp_all add: f)
  then show ?thesis using assms(1-3) by (simp add: remove_proc_from_q_def)
qed

text \<open>The state after \<open>p\<close> has been appended to queue \<open>q\<close>.\<close>

definition enq :: "nat \<Rightarrow> nat \<Rightarrow> 'z pstate_scheme \<Rightarrow> 'z pstate_scheme" where
  "enq p q s = s\<lparr>procs := upd_at p (\<lambda>x. x\<lparr>enter := sint (ticks s), pqueue := int q\<rparr>) (procs s),
     queue := (queue s)[q := (queue s ! q)[nat (q_tail s ! q + 1) := Some p]],
     q_tail := (q_tail s)[q := q_tail s ! q + 1]\<rparr>"

lemma add_proc_to_q_eq:
  assumes "q_ok s" and "q < 5" and "p < length (procs s)"
    and "\<And>x. x \<in> set (butlast (qrow s q)) \<Longrightarrow> pid (procs s ! x) \<noteq> pid (procs s ! p)"
    and "length (qrow s q) < length (queue s ! q)"
  shows "add_proc_to_q p (int q) s = Ret 1 (enq p q s)"
proof -
  note row = q_ok_row [OF assms(1,2)]
  have t: "nat (q_tail s ! q) = nat (q_tail s ! q + 1) - 1" by simp
  have f: "find (\<lambda>i. pid (procs s ! (qrow s q ! i)) = pid (procs s ! p)) [0..<nat (q_tail s ! q)] = None"
  proof -
    have "qrow s q ! i \<in> set (butlast (qrow s q))" if "i < nat (q_tail s ! q)" for i
    proof -
      have "i < length (butlast (qrow s q))" using that t length_row_of [OF row] by simp
      then show ?thesis by (metis nth_butlast nth_mem)
    qed
    then show ?thesis using assms(4) by (auto simp: find_None_iff)
  qed
  have "q_search [0..<nat (q_tail s ! q)] (int q) (pid (procs s ! p)) s = Ret None s"
    using length_row_of [OF row] by (subst q_search_eq [OF assms(1,2)]) (simp_all add: f)
  moreover have "0 \<le> q_tail s ! q + 1" using row by (simp add: row_ok_def)
  ultimately show ?thesis
    using assms(1-3,5) length_row_of [OF row] row
    by (simp add: add_proc_to_q_def q_write_def enq_def q_ok_def row_ok_def)
qed

lemma add_proc_to_q_dup:
  assumes "q_ok s" and "q < 5" and "p < length (procs s)"
    and "x \<in> set (butlast (qrow s q))" and "pid (procs s ! x) = pid (procs s ! p)"
  shows "add_proc_to_q p (int q) s = Ret (-1) s"
proof -
  note row = q_ok_row [OF assms(1,2)]
  have "nat (q_tail s ! q) = nat (q_tail s ! q + 1) - 1" by simp
  then have len: "length (butlast (qrow s q)) = nat (q_tail s ! q)" using length_row_of [OF row] by simp
  obtain i where i: "i < nat (q_tail s ! q)" "qrow s q ! i = x"
    using assms(4) len by (metis in_set_conv_nth nth_butlast)
  then have "find (\<lambda>i. pid (procs s ! (qrow s q ! i)) = pid (procs s ! p)) [0..<nat (q_tail s ! q)] \<noteq> None"
    using assms(5) by (auto simp: find_None_iff)
  then obtain k where k: "find (\<lambda>i. pid (procs s ! (qrow s q ! i)) = pid (procs s ! p)) [0..<nat (q_tail s ! q)] = Some k"
    by auto
  have "q_search [0..<nat (q_tail s ! q)] (int q) (pid (procs s ! p)) s = Ret (Some k) s"
    using length_row_of [OF row] by (subst q_search_eq [OF assms(1,2)]) (simp_all add: k)
  then show ?thesis using assms(1-3) by (simp add: add_proc_to_q_def)
qed

lemma enq_view:
  assumes "q_ok s" and "q < 5" and "p < length (procs s)" and "length (qrow s q) < length (queue s ! q)"
  shows "q_ok (enq p q s)"
    and "r < 5 \<Longrightarrow> qrow (enq p q s) r = (if r = q then qrow s q @ [p] else qrow s r)"
    and "length (queue (enq p q s) ! r) = length (queue s ! r)"
proof -
  note row = q_ok_row [OF assms(1,2)]
  have lt: "nat (q_tail s ! q + 1) < length (queue s ! q)" using assms(4) length_row_of [OF row] by simp
  note ap = row_of_append [OF row lt assms(3)]
  show "q_ok (enq p q s)" using assms(1,2) ap(2) by (auto simp: q_ok_def enq_def nth_list_update)
  show "qrow (enq p q s) r = (if r = q then qrow s q @ [p] else qrow s r)" if "r < 5"
    using assms(1,2) ap(1) that by (auto simp: q_ok_def enq_def nth_list_update)
  show "length (queue (enq p q s) ! r) = length (queue s ! r)"
    using assms(1,2) by (cases "r = q") (auto simp: enq_def q_ok_def)
qed

lemma deq_view:
  assumes "q_ok s" and "q < 5" and "a < length (qrow s q)"
  shows "q_ok (deq q a s)"
    and "r < 5 \<Longrightarrow> qrow (deq q a s) r =
      (if r = q then take a (qrow s q) @ drop (Suc a) (qrow s q) else qrow s r)"
    and "length (queue (deq q a s) ! r) = length (queue s ! r)"
proof -
  note row = q_ok_row [OF assms(1,2)]
  have lt: "a < nat (q_tail s ! q + 1)" using assms(3) length_row_of [OF row] by simp
  note sh = row_of_shift [OF row lt]
  show "q_ok (deq q a s)" using assms(1,2) sh(2) by (auto simp: q_ok_def deq_def nth_list_update)
  show "qrow (deq q a s) r = (if r = q then take a (qrow s q) @ drop (Suc a) (qrow s q) else qrow s r)" if "r < 5"
    using assms(1,2) sh(1) that by (auto simp: q_ok_def deq_def nth_list_update)
  have "a + (nat (q_tail s ! q) - a) < length (queue s ! q)" using lt row by (auto simp: row_ok_def)
  then show "length (queue (deq q a s) ! r) = length (queue s ! r)"
    using assms(1,2) by (cases "r = q") (auto simp: deq_def q_ok_def)
qed

lemma enq_procs [simp]: "procs (enq p q s) = upd_at p (\<lambda>x. x\<lparr>enter := sint (ticks s), pqueue := int q\<rparr>) (procs s)"
  by (simp add: enq_def)

lemma deq_procs [simp]: "procs (deq q a s) = procs s"
  by (simp add: deq_def)

section \<open>The queue invariant\<close>

definition qall_at :: "int list \<Rightarrow> nat option list list \<Rightarrow> nat list" where
  "qall_at ts qs = concat (map (\<lambda>q. row_of (ts ! q) (qs ! q)) [0..<5])"

abbreviation qall :: "'z pstate_scheme \<Rightarrow> nat list" where
  "qall s \<equiv> qall_at (q_tail s) (queue s)"

definition live_at :: "proc list \<Rightarrow> nat \<Rightarrow> bool" where
  "live_at ps p \<longleftrightarrow> p < length ps \<and> state (ps ! p) \<noteq> UNUSED"

abbreviation live :: "'z pstate_scheme \<Rightarrow> nat \<Rightarrow> bool" where
  "live s p \<equiv> live_at (procs s) p"

text \<open>
  \<open>mlfq_inv X s\<close>: the queues hold exactly the runnable processes other than those in \<open>X\<close>, each
  once and in the queue its \<open>queue\<close> field names; live processes have a valid level and different pids.
  \<open>X\<close> are the processes in transit between a queue and the CPU.
\<close>

definition mlfq_at :: "nat set \<Rightarrow> proc list \<Rightarrow> nat option list list \<Rightarrow> int list \<Rightarrow> bool" where
  "mlfq_at X ps qs ts \<longleftrightarrow> q_ok_at (length ps) qs ts \<and> (\<forall>q < 5. length (qs ! q) = length ps) \<and>
     distinct (qall_at ts qs) \<and>
     set (qall_at ts qs) = {p. p < length ps \<and> state (ps ! p) = RUNNABLE} - X \<and>
     (\<forall>q < 5. \<forall>p \<in> set (row_of (ts ! q) (qs ! q)). pqueue (ps ! p) = int q) \<and>
     (\<forall>p. live_at ps p \<longrightarrow> 0 \<le> pqueue (ps ! p) \<and> pqueue (ps ! p) < 5) \<and>
     (\<forall>p p'. live_at ps p \<and> live_at ps p' \<and> pid (ps ! p) = pid (ps ! p') \<longrightarrow> p = p')"

abbreviation mlfq_inv :: "nat set \<Rightarrow> 'z pstate_scheme \<Rightarrow> bool" where
  "mlfq_inv X s \<equiv> mlfq_at X (procs s) (queue s) (q_tail s)"

lemmas qall_def = qall_at_def
lemmas live_def = live_at_def
lemmas mlfq_inv_def = mlfq_at_def

lemma in_qall: "p \<in> set (qall s) \<longleftrightarrow> (\<exists>q < 5. p \<in> set (qrow s q))"
  by (auto simp: qall_def)

lemma upt5: "[0..<5] = [0, 1, 2, 3, 4 :: nat]"
  by (simp add: upt_rec)

lemma less5_cases: "q < (5 :: nat) \<Longrightarrow> q = 0 \<or> q = 1 \<or> q = 2 \<or> q = 3 \<or> q = 4"
  by linarith

text \<open>Only states, levels and pids of processes matter.\<close>

lemma mlfq_inv_cong:
  assumes "queue t = queue s" and "q_tail t = q_tail s" and "length (procs t) = length (procs s)"
    and "\<And>p. p < length (procs s) \<Longrightarrow> state (procs t ! p) = state (procs s ! p) \<and>
      pqueue (procs t ! p) = pqueue (procs s ! p) \<and> pid (procs t ! p) = pid (procs s ! p)"
  shows "mlfq_inv X t = mlfq_inv X s"
proof -
  have q: "q_ok t = q_ok s" using assms(1-3) by (simp add: q_ok_def)
  have a: "qall t = qall s" using assms(1,2) by (simp add: qall_def)
  have l: "live t p = live s p" for p using assms(3,4) by (auto simp: live_def)
  have r: "{p. p < length (procs t) \<and> state (procs t ! p) = RUNNABLE} =
      {p. p < length (procs s) \<and> state (procs s ! p) = RUNNABLE}"
    using assms(3,4) by auto
  have row: "p < length (procs s)" if "q_ok s" "q < 5" "p \<in> set (qrow s q)" for p q
    using set_row_ok [OF q_ok_row [OF that(1,2)] that(3)] .
  have c: "(\<forall>q < 5. \<forall>p \<in> set (qrow t q). pqueue (procs t ! p) = int q) =
      (\<forall>q < 5. \<forall>p \<in> set (qrow s q). pqueue (procs s ! p) = int q)" if "q_ok s"
    using row [OF that] assms by (metis (no_types, lifting))
  have d: "live s p \<Longrightarrow> pqueue (procs t ! p) = pqueue (procs s ! p) \<and> pid (procs t ! p) = pid (procs s ! p)" for p
    using assms(4) by (simp add: live_def)
  show ?thesis
    unfolding mlfq_inv_def q a l r using assms(1,3) c d by (auto; blast)
qed

lemma mset_rows_update:
  assumes "q < 5" and "\<And>r. r < 5 \<Longrightarrow> r \<noteq> q \<Longrightarrow> g r = f r"
  shows "mset (concat (map g [0..<5])) + mset (f q) = mset (concat (map f [0..<5])) + mset (g q)"
  using less5_cases [OF assms(1)]
  by (elim disjE) (simp_all add: upt5 assms(2))

lemma qall_enq:
  assumes "q_ok s" and "q < 5" and "p < length (procs s)" and "length (qrow s q) < length (queue s ! q)"
  shows "mset (qall (enq p q s)) = mset (p # qall s)"
proof -
  have "mset (qall (enq p q s)) + mset (qrow s q) = mset (qall s) + mset (qrow (enq p q s) q)"
    unfolding qall_def by (rule mset_rows_update) (use assms in \<open>simp_all add: enq_view\<close>)
  then show ?thesis using assms by (simp add: enq_view)
qed

lemma qall_deq:
  assumes "q_ok s" and "q < 5" and "a < length (qrow s q)"
  shows "mset (qrow s q ! a # qall (deq q a s)) = mset (qall s)"
proof -
  have "mset (qall (deq q a s)) + mset (qrow s q) = mset (qall s) + mset (qrow (deq q a s) q)"
    unfolding qall_def by (rule mset_rows_update) (use assms in \<open>simp_all add: deq_view\<close>)
  moreover have "mset (qrow s q) = add_mset (qrow s q ! a) (mset (take a (qrow s q) @ drop (Suc a) (qrow s q)))"
    using assms(3) by (subst id_take_nth_drop [OF assms(3)]) simp
  ultimately show ?thesis using assms by (simp add: deq_view)
qed

lemma row_shorter_than_table:
  assumes inv: "mlfq_inv X s" and q: "q < 5" and p: "p < length (procs s)" and nq: "p \<notin> set (qall s)"
  shows "length (qrow s q) < length (queue s ! q)"
proof -
  have "set (qall s) \<subseteq> {..<length (procs s)} - {p}" using inv nq by (auto simp: mlfq_inv_def)
  then have "card (set (qall s)) \<le> card ({..<length (procs s)} - {p})" by (intro card_mono) auto
  moreover have "card (set (qall s)) = length (qall s)"
    by (rule distinct_card) (use inv in \<open>simp add: mlfq_inv_def\<close>)
  ultimately have c: "length (qall s) < length (procs s)" using p by simp
  have "length (qrow s q) \<le> length (qall s)"
    using less5_cases [OF q] by (elim disjE) (simp_all add: qall_def upt5)
  with c inv q show ?thesis by (simp add: mlfq_inv_def)
qed

lemma add_proc_to_q_inv:
  assumes inv: "mlfq_inv (insert p X) s" and q: "q < 5" and p: "live s p" "state (procs s ! p) = RUNNABLE" and X: "p \<notin> X"
  shows "add_proc_to_q p (int q) s = Ret 1 (enq p q s) \<and> mlfq_inv X (enq p q s)"
proof -
  have pl: "p < length (procs s)" using p by (simp add: live_def)
  have ok: "q_ok s" using inv by (simp add: mlfq_inv_def)
  have nq: "p \<notin> set (qall s)" using inv by (auto simp: mlfq_inv_def)
  have room: "length (qrow s q) < length (queue s ! q)" by (rule row_shorter_than_table [OF inv q pl nq])
  have "pid (procs s ! x) \<noteq> pid (procs s ! p)" if "x \<in> set (butlast (qrow s q))" for x
  proof
    assume e: "pid (procs s ! x) = pid (procs s ! p)"
    have x: "x \<in> set (qall s)" using in_set_butlastD [OF that] q by (auto simp: in_qall)
    then have "live s x" using inv by (auto simp: mlfq_inv_def live_def)
    with e p(1) inv have "x = p" unfolding mlfq_inv_def by blast
    with x nq show False by simp
  qed
  then have add: "add_proc_to_q p (int q) s = Ret 1 (enq p q s)"
    by (rule add_proc_to_q_eq [OF ok q pl _ room])
  note v = enq_view [OF ok q pl room]
  note m = qall_enq [OF ok q pl room]
  have st: "state (procs (enq p q s) ! x) = state (procs s ! x) \<and> pid (procs (enq p q s) ! x) = pid (procs s ! x) \<and>
      pqueue (procs (enq p q s) ! x) = (if x = p then int q else pqueue (procs s ! x))"
    if "x < length (procs s)" for x
    using that by (simp add: nth_upd_at)
  have lv: "live (enq p q s) x = live s x" for x using st by (auto simp: live_def)
  have dis: "distinct (qall (enq p q s))"
    using mset_eq_imp_distinct_iff [OF m] nq inv by (simp add: mlfq_inv_def)
  have set: "set (qall (enq p q s)) = insert p (set (qall s))"
    using mset_eq_setD [OF m] by simp
  have setR: "set (qall (enq p q s)) =
      {x. x < length (procs (enq p q s)) \<and> state (procs (enq p q s) ! x) = RUNNABLE} - X"
    using set st inv p X by (auto simp: mlfq_inv_def live_def)
  have lev: "pqueue (procs (enq p q s) ! x) = int r" if "r < 5" "x \<in> set (qrow (enq p q s) r)" for x r
  proof -
    have xl: "x < length (procs s)" using set_row_ok [OF q_ok_row [OF v(1) that(1)] that(2)] by simp
    from that v(2) [OF that(1)] have "x \<in> set (qrow s r) \<or> (r = q \<and> x = p)" by (auto split: if_splits)
    moreover have "x \<in> set (qrow s r) \<Longrightarrow> x \<noteq> p \<and> pqueue (procs s ! x) = int r"
      using inv that(1) nq unfolding mlfq_inv_def in_qall by blast
    ultimately show ?thesis using st [OF xl] by auto
  qed
  have lvq: "0 \<le> pqueue (procs (enq p q s) ! x) \<and> pqueue (procs (enq p q s) ! x) < 5" if "live s x" for x
    using inv that st [of x] q unfolding mlfq_inv_def by (auto simp: live_def)
  have pidu: "x = y" if "live s x" "live s y" "pid (procs (enq p q s) ! x) = pid (procs (enq p q s) ! y)" for x y
    using inv that st [of x] st [of y] unfolding mlfq_inv_def by (simp add: live_def)
  have "mlfq_inv X (enq p q s)"
    unfolding mlfq_inv_def lv using v(1,3) dis setR lev lvq pidu inv by (auto simp: mlfq_inv_def)
  with add show ?thesis by simp
qed

lemma mlfq_invD:
  assumes "mlfq_inv X s"
  shows "q_ok s" and "q < 5 \<Longrightarrow> length (queue s ! q) = length (procs s)" and "distinct (qall s)"
    and "p \<in> set (qall s) \<longleftrightarrow> p < length (procs s) \<and> state (procs s ! p) = RUNNABLE \<and> p \<notin> X"
    and "q < 5 \<Longrightarrow> p \<in> set (qrow s q) \<Longrightarrow> pqueue (procs s ! p) = int q"
    and "live s p \<Longrightarrow> 0 \<le> pqueue (procs s ! p) \<and> pqueue (procs s ! p) < 5"
    and "live s p \<Longrightarrow> live s p' \<Longrightarrow> pid (procs s ! p) = pid (procs s ! p') \<Longrightarrow> p = p'"
  using assms unfolding mlfq_inv_def by auto

text \<open>Changing a process that is in no queue: it counts as in transit afterwards.\<close>

lemma mlfq_inv_upd:
  assumes inv: "mlfq_inv X s" and nq: "p \<notin> set (qall s)"
    and y: "0 \<le> pqueue (f (procs s ! p))" "pqueue (f (procs s ! p)) < 5"
    and fresh: "\<And>x. live s x \<Longrightarrow> x \<noteq> p \<Longrightarrow> pid (procs s ! x) \<noteq> pid (f (procs s ! p))"
  shows "mlfq_inv (insert p X) (s\<lparr>procs := upd_at p f (procs s)\<rparr>)"
proof -
  let ?t = "s\<lparr>procs := upd_at p f (procs s)\<rparr>"
  note d = mlfq_invD [OF inv]
  have nth: "procs ?t ! x = procs s ! x" if "x \<noteq> p" for x using that by simp
  have lv: "live ?t x = live s x" if "x \<noteq> p" for x using that by (simp add: live_def)
  have qa: "qall ?t = qall s" by (simp add: qall_def)
  have set: "set (qall ?t) = {x. x < length (procs ?t) \<and> state (procs ?t ! x) = RUNNABLE} - insert p X"
  proof (rule set_eqI)
    fix x
    show "x \<in> set (qall ?t) \<longleftrightarrow> x \<in> {x. x < length (procs ?t) \<and> state (procs ?t ! x) = RUNNABLE} - insert p X"
      using nq d(4) [of x] by (cases "x = p") (simp_all add: qa)
  qed
  have lev: "pqueue (procs ?t ! x) = int q" if "q < 5" "x \<in> set (qrow ?t q)" for x q
  proof -
    have "x \<noteq> p" using that nq by (auto simp: in_qall)
    with that d(5) [of q x] show ?thesis by simp
  qed
  have lvq: "0 \<le> pqueue (procs ?t ! x) \<and> pqueue (procs ?t ! x) < 5" if "live ?t x" for x
    using that y d(6) [of x] lv [of x] by (cases "x = p") (simp_all add: live_def)
  have pidu: "x = x'" if "live ?t x" "live ?t x'" "pid (procs ?t ! x) = pid (procs ?t ! x')" for x x'
  proof (rule ccontr)
    assume ne: "x \<noteq> x'"
    consider "x = p" | "x' = p" | "x \<noteq> p" "x' \<noteq> p" by blast
    then show False
    proof cases
      case 1
      with that ne fresh [of x'] lv [of x'] show False by (simp add: live_def)
    next
      case 2
      with that ne fresh [of x] lv [of x] show False by (simp add: live_def)
    next
      case 3
      with that ne d(7) [of x x'] lv show False by simp
    qed
  qed
  have "q_ok ?t" using d(1) by (simp add: q_ok_def)
  with set lev lvq pidu d(3) d(2) show ?thesis
    unfolding mlfq_inv_def qa [symmetric] by (simp (no_asm_use)) blast
qed

lemma mlfq_inv_settled:
  assumes "mlfq_inv (insert p X) s" and "p < length (procs s) \<Longrightarrow> state (procs s ! p) \<noteq> RUNNABLE"
  shows "mlfq_inv X s"
  using assms unfolding mlfq_inv_def by auto

lemma mlfq_inv_same:
  assumes "mlfq_inv X s" and "\<And>x. state (f x) = state x \<and> pqueue (f x) = pqueue x \<and> pid (f x) = pid x"
  shows "mlfq_inv X (s\<lparr>procs := upd_at p f (procs s)\<rparr>)"
proof -
  have "mlfq_inv X (s\<lparr>procs := upd_at p f (procs s)\<rparr>) = mlfq_inv X s"
    by (rule mlfq_inv_cong) (auto simp: nth_upd_at assms(2))
  with assms(1) show ?thesis by simp
qed

lemma remove_proc_from_q_inv:
  assumes inv: "mlfq_inv X s" and q: "q < 5" and p: "p \<in> set (qrow s q)"
  shows "\<exists>a. remove_proc_from_q p (int q) s = Ret 1 (deq q a s) \<and> mlfq_inv (insert p X) (deq q a s) \<and>
    a < length (qrow s q) \<and> qrow s q ! a = p \<and> (\<forall>r < 5. qrow (deq q a s) r = (if r = q then remove1 p (qrow s q) else qrow s r))"
proof -
  note d = mlfq_invD [OF inv]
  have pa: "p \<in> set (qall s)" using p q by (auto simp: in_qall)
  then have pl: "p < length (procs s)" "live s p" using d(4) [of p] by (auto simp: live_def)
  have "\<exists>a. find_idx (\<lambda>x. pid (procs s ! x) = pid (procs s ! p)) (qrow s q) = Some a"
    using p find_idx_None by (metis (mono_tags, lifting) not_None_eq)
  then obtain a where a: "find_idx (\<lambda>x. pid (procs s ! x) = pid (procs s ! p)) (qrow s q) = Some a" by blast
  then have al: "a < length (qrow s q)" "pid (procs s ! (qrow s q ! a)) = pid (procs s ! p)"
    by (auto simp: find_idx_Some)
  have "qrow s q ! a \<in> set (qall s)" using al(1) q by (auto simp: in_qall)
  then have "live s (qrow s q ! a)" by (simp add: d(4) live_def)
  then have ra: "qrow s q ! a = p" by (rule d(7) [OF _ pl(2) al(2)])
  note v = deq_view [OF d(1) q al(1)]
  note m = qall_deq [OF d(1) q al(1), unfolded ra]
  have dis: "distinct (p # qall (deq q a s))" using mset_eq_imp_distinct_iff [OF m] d(3) by simp
  have set: "set (qall s) = insert p (set (qall (deq q a s)))" using mset_eq_setD [OF m] by simp
  have dr: "distinct (qrow s q)"
    using d(3) less5_cases [OF q] by (elim disjE) (auto simp: qall_def upt5)
  have rem: "take a (qrow s q) @ drop (Suc a) (qrow s q) = remove1 p (qrow s q)"
  proof -
    have split: "qrow s q = take a (qrow s q) @ p # drop (Suc a) (qrow s q)"
      using id_take_nth_drop [OF al(1)] ra by simp
    with dr have "p \<notin> set (take a (qrow s q))" by (metis disjoint_iff distinct_append list.set_intros(1))
    then have "remove1 p (take a (qrow s q) @ p # drop (Suc a) (qrow s q)) = take a (qrow s q) @ drop (Suc a) (qrow s q)"
      by (simp add: remove1_append)
    then show ?thesis by (simp only: split [symmetric])
  qed
  have rows: "qrow (deq q a s) r = (if r = q then remove1 p (qrow s q) else qrow s r)" if "r < 5" for r
    using v(2) [OF that] rem by simp
  have lv: "live (deq q a s) x = live s x" for x by (simp add: live_def)
  have "set (qall (deq q a s)) = {x. x < length (procs s) \<and> state (procs s ! x) = RUNNABLE} - insert p X"
  proof (rule set_eqI)
    fix x
    show "x \<in> set (qall (deq q a s)) \<longleftrightarrow> x \<in> {x. x < length (procs s) \<and> state (procs s ! x) = RUNNABLE} - insert p X"
      using set dis d(4) [of x] by (cases "x = p") auto
  qed
  moreover have "pqueue (procs s ! x) = int r" if "r < 5" "x \<in> set (qrow (deq q a s) r)" for x r
    using that rows [OF that(1)] d(5) [of r x] set_remove1_subset [of p "qrow s q"]
    by (auto split: if_splits)
  ultimately have "mlfq_inv (insert p X) (deq q a s)"
    using v(1,3) dis inv unfolding mlfq_inv_def lv deq_procs by simp
  moreover have "remove_proc_from_q p (int q) s = Ret 1 (deq q a s)"
    by (rule remove_proc_from_q_eq [OF d(1) q pl(1) a])
  ultimately show ?thesis using al ra rows by blast
qed

section \<open>Operations under the table lock\<close>

text \<open>\<open>t\<close> differs from \<open>s\<close> at most in the process table and the queues.\<close>

definition qframe :: "'z pstate_scheme \<Rightarrow> 'z pstate_scheme \<Rightarrow> bool" where
  "qframe s t \<longleftrightarrow> t = s\<lparr>procs := procs t, queue := queue t, q_tail := q_tail t\<rparr>"

lemma qframe_refl [simp]: "qframe s s"
  by (simp add: qframe_def)

lemma qframeI: "t = s\<lparr>procs := a, queue := b, q_tail := c\<rparr> \<Longrightarrow> qframe s t"
  by (simp add: qframe_def)

lemma qframe_trans: "qframe s t \<Longrightarrow> qframe t u \<Longrightarrow> qframe s u"
  by (cases s, cases t, cases u) (simp add: qframe_def)

lemma qframeD:
  assumes "qframe s t"
  shows "cpus t = cpus s" "lapicid t = lapicid s" "hw_if t = hw_if s" "spin t = spin s"
    "policy t = policy s" "ticks t = ticks s" "mem t = mem s" "kpgdir t = kpgdir s"
  by (subst assms [unfolded qframe_def], simp)+

lemma qframe_procs [simp]: "qframe s (s\<lparr>procs := ps\<rparr>)"
  by (simp add: qframe_def)

lemma qframe_enq [simp]: "qframe s (enq p q s)"
  by (simp add: qframe_def enq_def)

lemma qframe_deq [simp]: "qframe s (deq q a s)"
  by (simp add: qframe_def deq_def)

lemma mlfq_wake_eq:
  assumes "policy s = MLFQ" and "mlfq_inv (insert p X) s" and "live s p"
    and "state (procs s ! p) = RUNNABLE" and "p \<notin> X"
  defines "t \<equiv> enq p (nat (pqueue (procs s ! p))) (s\<lparr>procs := upd_at p (\<lambda>x. x\<lparr>curr_ticks := 0\<rparr>) (procs s)\<rparr>)"
  shows "mlfq_wake p s = Ret () t \<and> mlfq_inv X t"
proof -
  let ?s = "s\<lparr>procs := upd_at p (\<lambda>x. x\<lparr>curr_ticks := 0\<rparr>) (procs s)\<rparr>"
  let ?q = "nat (pqueue (procs s ! p))"
  have pl: "p < length (procs s)" using assms(3) by (simp add: live_def)
  have q: "?q < 5" "int ?q = pqueue (procs s ! p)" using mlfq_invD(6) [OF assms(2,3)] by auto
  have inv: "mlfq_inv (insert p X) ?s" by (rule mlfq_inv_same [OF assms(2)]) simp
  have "live ?s p" "state (procs ?s ! p) = RUNNABLE" using assms(3,4) pl by (simp_all add: live_def)
  from add_proc_to_q_inv [OF inv q(1) this assms(5)] q pl assms(1)
  show ?thesis by (simp add: mlfq_wake_def t_def)
qed

text \<open>Making one sleeping process runnable, as \<open>wakeup1\<close> and \<open>kill\<close> do.\<close>

definition woken :: "nat \<Rightarrow> 'z pstate_scheme \<Rightarrow> 'z pstate_scheme" where
  "woken p s = enq p (nat (pqueue (procs s ! p)))
     (s\<lparr>procs := upd_at p (\<lambda>x. x\<lparr>state := RUNNABLE, curr_ticks := 0\<rparr>) (procs s)\<rparr>)"

lemma wake_one:
  assumes pol: "policy s = MLFQ" and inv: "mlfq_inv {} s" and p: "p < length (procs s)" "state (procs s ! p) = SLEEPING"
  shows "mbind (upd_proc p (\<lambda>x. x\<lparr>state := RUNNABLE\<rparr>)) (\<lambda>_. mlfq_wake p) s = Ret () (woken p s)"
    and "mlfq_inv {} (woken p s)"
    and "q < 5 \<Longrightarrow> qrow (woken p s) q = qrow s q @ (if int q = pqueue (procs s ! p) then [p] else [])"
proof -
  let ?s = "s\<lparr>procs := upd_at p (\<lambda>x. x\<lparr>state := RUNNABLE\<rparr>) (procs s)\<rparr>"
  let ?u = "s\<lparr>procs := upd_at p (\<lambda>x. x\<lparr>state := RUNNABLE, curr_ticks := 0\<rparr>) (procs s)\<rparr>"
  let ?q = "nat (pqueue (procs s ! p))"
  have lv: "live s p" using p by (simp add: live_def)
  note d = mlfq_invD [OF inv]
  have q: "?q < 5" "int ?q = pqueue (procs s ! p)" using d(6) [OF lv] by auto
  have nq: "p \<notin> set (qall s)" using d(4) [of p] p by simp
  have inv1: "mlfq_inv {p} ?s"
    by (rule mlfq_inv_upd [OF inv nq]) (use d(6) [OF lv] d(7) [OF _ lv] in auto)
  have lv1: "live ?s p" "state (procs ?s ! p) = RUNNABLE" using p by (simp_all add: live_def)
  have "mlfq_wake p ?s = Ret () (woken p s) \<and> mlfq_inv {} (woken p s)"
    using mlfq_wake_eq [OF _ inv1 lv1] pol p by (simp add: woken_def)
  then show "mbind (upd_proc p (\<lambda>x. x\<lparr>state := RUNNABLE\<rparr>)) (\<lambda>_. mlfq_wake p) s = Ret () (woken p s)"
    and "mlfq_inv {} (woken p s)"
    by simp_all
  have room: "length (qrow s ?q) < length (queue s ! ?q)"
    by (rule row_shorter_than_table [OF inv q(1) p(1) nq])
  have ok: "q_ok ?u" using d(1) by simp
  show "qrow (woken p s) q = qrow s q @ (if int q = pqueue (procs s ! p) then [p] else [])" if "q < 5"
    using enq_view(2) [OF ok q(1) _ _ that, of p] p room q(2) by (auto simp: woken_def)
qed

lemma woken_procs:
  assumes "p < length (procs s)" and "0 \<le> pqueue (procs s ! p)" and "x < length (procs s)"
  shows "procs (woken p s) ! x = (if x = p then (procs s ! p)\<lparr>state := RUNNABLE, curr_ticks := 0, enter := sint (ticks s)\<rparr>
     else procs s ! x)"
  using assms by (simp add: woken_def nth_upd_at)

lemma woken_length [simp]: "length (procs (woken p s)) = length (procs s)"
  by (simp add: woken_def)

lemma qframe_woken [simp]: "qframe s (woken p s)"
  unfolding woken_def by (rule qframe_trans [OF qframe_procs qframe_enq])

definition sleeping_on :: "chan \<Rightarrow> proc \<Rightarrow> bool" where
  "sleeping_on ch x \<longleftrightarrow> state x = SLEEPING \<and> chan x = Some ch"

text \<open>The processes after a wakeup: those sleeping on the channel are runnable, at the same level.\<close>

definition woken_proc :: "uint \<Rightarrow> chan \<Rightarrow> proc \<Rightarrow> proc" where
  "woken_proc now ch x = (if sleeping_on ch x then x\<lparr>state := RUNNABLE, curr_ticks := 0, enter := sint now\<rparr> else x)"

lemma wakeup1_eq:
  assumes pol: "policy s = MLFQ" and inv: "mlfq_inv {} s"
  shows "\<exists>t. wakeup1 ch s = Ret () t \<and> mlfq_inv {} t \<and> qframe s t \<and>
    procs t = map (woken_proc (ticks s) ch) (procs s) \<and> (\<forall>q < 5. \<exists>ps. qrow t q = qrow s q @ ps)"
proof -
  let ?n = "length (procs s)"
  let ?Q = "\<lambda>k t. mlfq_inv {} t \<and> qframe s t \<and> length (procs t) = ?n \<and>
    (\<forall>x < ?n. procs t ! x = (if x < k then woken_proc (ticks s) ch (procs s ! x) else procs s ! x)) \<and>
    (\<forall>q < 5. \<exists>ps. qrow t q = qrow s q @ ps)"
  let ?body = "\<lambda>p. mbind (getp p) (\<lambda>pr. if state pr = SLEEPING \<and> chan pr = Some ch then
         mbind (upd_proc p (\<lambda>x. x\<lparr>state := RUNNABLE\<rparr>)) (\<lambda>_. mlfq_wake p) else ret ())"
  have "\<exists>t. mforeach [0..<?n] ?body s = Ret () t \<and> ?Q ?n t"
  proof (rule mforeach_upt [where Q = ?Q])
    show "?Q 0 s" using inv by simp
  next
    fix k t
    assume k: "k < ?n" and Q: "?Q k t"
    then have f: "policy t = MLFQ" "ticks t = ticks s" using pol qframeD [of s t] by auto
    have pk: "procs t ! k = procs s ! k" using k Q by simp
    show "\<exists>u. ?body k t = Ret () u \<and> ?Q (Suc k) u"
    proof (cases "sleeping_on ch (procs s ! k)")
      case True
      then have sl: "k < length (procs t)" "state (procs t ! k) = SLEEPING" "chan (procs t ! k) = Some ch"
        using k Q pk by (simp_all add: sleeping_on_def)
      have inv': "mlfq_inv {} t" using Q by simp
      note w = wake_one [OF f(1) inv' sl(1,2)]
      have "live t k" using sl by (simp add: live_def)
      then have pos: "0 \<le> pqueue (procs t ! k)" using mlfq_invD(6) [OF inv'] by blast
      have "qframe s (woken k t)" using Q qframe_trans qframe_woken by blast
      moreover have "\<forall>x < ?n. procs (woken k t) ! x =
          (if x < Suc k then woken_proc (ticks s) ch (procs s ! x) else procs s ! x)"
        using Q True f(2) woken_procs [OF sl(1) pos] by (auto simp: woken_proc_def less_Suc_eq)
      moreover have "\<forall>q < 5. \<exists>ps. qrow (woken k t) q = qrow s q @ ps"
        using Q w(3) by (metis append.assoc)
      ultimately show ?thesis
        using w(1,2) sl Q by (intro exI [of _ "woken k t"]) simp
    next
      case False
      then have "\<forall>x < ?n. procs t ! x = (if x < Suc k then woken_proc (ticks s) ch (procs s ! x) else procs s ! x)"
        using Q by (auto simp: woken_proc_def less_Suc_eq)
      moreover have "?body k t = Ret () t" using False k Q pk by (auto simp: sleeping_on_def)
      ultimately show ?thesis using Q by blast
    qed
  qed
  then obtain t where "mforeach [0..<?n] ?body s = Ret () t" "?Q ?n t" by blast
  moreover from this have "procs t = map (woken_proc (ticks s) ch) (procs s)"
    by (intro nth_equalityI) auto
  ultimately show ?thesis by (intro exI [of _ t]) (simp add: wakeup1_def)
qed

lemma wakeup1_eq':
  assumes "policy s = MLFQ" and "mlfq_inv {} s"
  obtains qs ts where
    "wakeup1 ch s = Ret () (s\<lparr>procs := map (woken_proc (ticks s) ch) (procs s), queue := qs, q_tail := ts\<rparr>)"
    and "mlfq_at {} (map (woken_proc (ticks s) ch) (procs s)) qs ts"
    and "\<And>q. q < 5 \<Longrightarrow> \<exists>ps. row_of (ts ! q) (qs ! q) = qrow s q @ ps"
proof -
  from wakeup1_eq [OF assms, of ch] obtain t where t: "wakeup1 ch s = Ret () t" "mlfq_inv {} t" "qframe s t"
    "procs t = map (woken_proc (ticks s) ch) (procs s)" "\<forall>q < 5. \<exists>ps. qrow t q = qrow s q @ ps"
    by blast
  from t(1) have "wakeup1 ch s = Ret () (s\<lparr>procs := map (woken_proc (ticks s) ch) (procs s), queue := queue t, q_tail := q_tail t\<rparr>)"
    using t(3,4) by (simp add: qframe_def)
  with t show ?thesis by (intro that [where qs = "queue t" and ts = "q_tail t"]) auto
qed

lemma wakeup_eq:
  assumes "mwf s" and "spinfree (spin s PtableLk)" and "policy s = MLFQ" and "mlfq_inv {} s"
  obtains qs ts where
    "wakeup ch s = Ret () (s\<lparr>cpus := crit_cpus (this_cpu s) (hw_if s (lapicid s)) (cpus s),
          procs := map (woken_proc (ticks s) ch) (procs s), queue := qs, q_tail := ts\<rparr>)"
    and "mlfq_at {} (map (woken_proc (ticks s) ch) (procs s)) qs ts"
    and "\<And>q. q < 5 \<Longrightarrow> \<exists>ps. row_of (ts ! q) (qs ! q) = qrow s q @ ps"
proof -
  let ?s = "s\<lparr>cpus := push_cpus (this_cpu s) (hw_if s (lapicid s)) (cpus s),
       hw_if := if_off (lapicid s) (hw_if s), spin := acq_spin (this_cpu s) PtableLk (spin s)\<rparr>"
  obtain qs ts where w:
    "wakeup1 ch ?s = Ret () (?s\<lparr>procs := map (woken_proc (ticks s) ch) (procs s), queue := qs, q_tail := ts\<rparr>)"
    "mlfq_at {} (map (woken_proc (ticks s) ch) (procs s)) qs ts"
    "\<And>q. q < 5 \<Longrightarrow> \<exists>ps. row_of (ts ! q) (qs ! q) = qrow s q @ ps"
    by (rule wakeup1_eq' [of ?s ch]) (use assms in simp_all)
  have "wakeup ch s = Ret () (s\<lparr>cpus := crit_cpus (this_cpu s) (hw_if s (lapicid s)) (cpus s),
          procs := map (woken_proc (ticks s) ch) (procs s), queue := qs, q_tail := ts\<rparr>)"
    using assms(1,2) w(1) by (simp add: wakeup_def)
  then show ?thesis by (rule that [OF _ w(2,3)])
qed

text \<open>\<open>kill\<close>: the flag is set, and a sleeping process is made runnable.\<close>

lemma kill_eq:
  assumes "mwf s" and "spinfree (spin s PtableLk)" and "policy s = MLFQ" and inv: "mlfq_inv {} s"
    and p: "find_idx (\<lambda>x. pid x = n) (procs s) = Some p"
  obtains t where "kill n s = Ret 0 (t\<lparr>cpus := crit_cpus (this_cpu s) (hw_if s (lapicid s)) (cpus s)\<rparr>)"
    and "qframe s t" and "mlfq_inv {} t" and "length (procs t) = length (procs s)"
    and "\<And>x. x < length (procs s) \<Longrightarrow> x \<noteq> p \<Longrightarrow> procs t ! x = procs s ! x"
    and "killed (procs t ! p)"
    and "state (procs t ! p) = (if state (procs s ! p) = SLEEPING then RUNNABLE else state (procs s ! p))"
proof -
  let ?c = "crit_cpus (this_cpu s) (hw_if s (lapicid s)) (cpus s)"
  let ?s = "s\<lparr>cpus := push_cpus (this_cpu s) (hw_if s (lapicid s)) (cpus s),
       hw_if := if_off (lapicid s) (hw_if s), spin := acq_spin (this_cpu s) PtableLk (spin s)\<rparr>"
  let ?f = "\<lambda>x :: proc. x\<lparr>killed := True\<rparr>"
  let ?u = "?s\<lparr>procs := upd_at p ?f (procs s)\<rparr>"
  let ?v = "s\<lparr>procs := upd_at p ?f (procs s)\<rparr>"
  have pl: "p < length (procs s)" using p by (rule find_idx_in_range)
  have inv1: "mlfq_inv {} ?v" by (rule mlfq_inv_same [OF inv]) simp
  show ?thesis
  proof (cases "state (procs s ! p) = SLEEPING")
    case False
    then have "kill n s = Ret 0 (?v\<lparr>cpus := ?c\<rparr>)"
      using assms(1,2) p pl by (simp add: kill_def)
    with False inv1 pl show ?thesis by (intro that [of ?v]) (auto simp: nth_upd_at)
  next
    case True
    have sl: "p < length (procs ?v)" "state (procs ?v ! p) = SLEEPING" using True pl by simp_all
    have pos: "0 \<le> pqueue (procs ?v ! p)" using mlfq_invD(6) [OF inv1, of p] sl by (auto simp: live_def)
    have w: "mbind (upd_proc p (\<lambda>x. x\<lparr>state := RUNNABLE\<rparr>)) (\<lambda>_. mlfq_wake p) ?u = Ret () (woken p ?u)"
      by (rule wake_one(1)) (use assms(3) inv1 sl in simp_all)
    have inv2: "mlfq_inv {} (woken p ?v)"
      by (rule wake_one(2)) (use assms(3) inv1 sl in simp_all)
    have wu: "woken p ?u = (woken p ?v)\<lparr>cpus := push_cpus (this_cpu s) (hw_if s (lapicid s)) (cpus s),
       hw_if := if_off (lapicid s) (hw_if s), spin := acq_spin (this_cpu s) PtableLk (spin s)\<rparr>"
      by (simp add: woken_def enq_def)
    have fr: "qframe s (woken p ?v)" using qframe_trans [OF qframe_procs qframe_woken] by blast
    have kill: "kill n s = Ret 0 ((woken p ?v)\<lparr>cpus := ?c\<rparr>)"
      using assms(1,2) p pl True w qframeD [OF fr] by (simp add: kill_def wu)
    show ?thesis
      by (rule that [OF kill fr inv2])
        (use woken_procs [OF sl(1) pos] pl True in \<open>auto simp: nth_upd_at\<close>)
  qed
qed

section \<open>Aging\<close>

text \<open>
  One pass of the aging loop over a queue, as a function on its contents. When an entry is moved up
  the entries behind it move one place forward, but the loop index advances all the same: the entry
  that took the vacated place is not looked at.
\<close>

fun age_keep :: "(nat \<Rightarrow> bool) \<Rightarrow> nat list \<Rightarrow> nat list" where
  "age_keep old [] = []"
| "age_keep old [x] = (if old x then [] else [x])"
| "age_keep old (x # y # ys) = (if old x then y # age_keep old ys else x # age_keep old (y # ys))"

fun age_moved :: "(nat \<Rightarrow> bool) \<Rightarrow> nat list \<Rightarrow> nat list" where
  "age_moved old [] = []"
| "age_moved old [x] = (if old x then [x] else [])"
| "age_moved old (x # y # ys) = (if old x then x # age_moved old ys else age_moved old (y # ys))"

definition is_old :: "'z pstate_scheme \<Rightarrow> nat \<Rightarrow> bool" where
  "is_old s p \<longleftrightarrow> sint (ticks s - word_of_int (enter (procs s ! p))) > 30"

lemma age_keep_cong: "(\<And>x. x \<in> set xs \<Longrightarrow> f x = g x) \<Longrightarrow> age_keep f xs = age_keep g xs \<and> age_moved f xs = age_moved g xs"
  by (induction f xs rule: age_keep.induct) auto

text \<open>Only the \<open>enter\<close> and \<open>queue\<close> fields of processes may differ.\<close>

definition level_only :: "proc \<Rightarrow> proc \<Rightarrow> bool" where
  "level_only x y \<longleftrightarrow> y = x\<lparr>enter := enter y, pqueue := pqueue y\<rparr>"

lemma level_only_trans: "level_only x y \<Longrightarrow> level_only y z \<Longrightarrow> level_only x z"
  by (cases x, cases y, cases z) (simp add: level_only_def)

lemma q_read_row:
  assumes "q_ok s" and "q < 5" and "j < length (qrow s q)"
  shows "q_read (int q) (int j) s = Ret (Some (qrow s q ! j)) s" and "qrow s q ! j < length (procs s)"
    and "int j \<le> q_tail s ! q"
proof -
  note row = q_ok_row [OF assms(1,2)]
  have j: "j < nat (q_tail s ! q + 1)" using assms(3) length_row_of [OF row] by simp
  moreover have "nat (q_tail s ! q + 1) \<le> length (queue s ! q)" using row by (simp add: row_ok_def)
  ultimately have "j < length (queue s ! q)" by simp
  with nth_row_ok [OF row j] assms(1,2) j
  show "q_read (int q) (int j) s = Ret (Some (qrow s q ! j)) s" "qrow s q ! j < length (procs s)"
    "int j \<le> q_tail s ! q"
    by (simp_all add: q_read_def q_ok_def)
qed

lemma age_turn_move:
  assumes inv: "mlfq_inv {} s" and i: "0 < i" "i < 5" and j: "j < length (qrow s i)"
    and old: "is_old s (qrow s i ! j)"
  shows "\<exists>t. age_turn i j s = Ret () t \<and> mlfq_inv {} t \<and> qframe s t \<and> length (procs t) = length (procs s) \<and>
    (\<forall>r < 5. qrow t r = (if r = i then take j (qrow s i) @ drop (Suc j) (qrow s i)
        else if r = i - 1 then qrow s r @ [qrow s i ! j] else qrow s r)) \<and>
    (\<forall>x < length (procs s). level_only (procs s ! x) (procs t ! x)) \<and>
    (\<forall>x < length (procs s). x \<noteq> qrow s i ! j \<longrightarrow> procs t ! x = procs s ! x)"
proof -
  let ?p = "qrow s i ! j"
  note d = mlfq_invD [OF inv]
  note row = q_ok_row [OF d(1) i(2)]
  have p: "?p \<in> set (qrow s i)" using j by simp
  have pa: "?p \<in> set (qall s)" using p i by (auto simp: in_qall)
  then have pl: "?p < length (procs s)" "state (procs s ! ?p) = RUNNABLE" using d(4) [of ?p] by auto
  from remove_proc_from_q_inv [OF inv i(2) p] obtain a where a:
    "remove_proc_from_q ?p (int i) s = Ret 1 (deq i a s)" "mlfq_inv {?p} (deq i a s)"
    "a < length (qrow s i)" "qrow s i ! a = ?p"
    "\<forall>r < 5. qrow (deq i a s) r = (if r = i then remove1 ?p (qrow s i) else qrow s r)"
    by auto
  have dr: "distinct (qrow s i)"
    using d(3) less5_cases [OF i(2)] by (elim disjE) (auto simp: qall_def upt5)
  have "a = j" using a(3,4) j dr by (simp add: nth_eq_iff_index_eq)
  have i1: "i - 1 < 5" "int i - 1 = int (i - 1)" using i by auto
  let ?s = "deq i j s" let ?t = "enq ?p (i - 1) ?s"
  have add: "add_proc_to_q ?p (int (i - 1)) ?s = Ret 1 ?t \<and> mlfq_inv {} ?t"
    by (rule add_proc_to_q_inv) (use a(2) \<open>a = j\<close> i1 pl in \<open>auto simp: live_def\<close>)
  note dv = deq_view [OF d(1) i(2) j]
  have nq: "?p \<notin> set (qall ?s)" using a(2) \<open>a = j\<close> mlfq_invD(4) [of "{?p}" ?s ?p] by simp
  have room: "length (qrow ?s (i - 1)) < length (queue ?s ! (i - 1))"
    by (rule row_shorter_than_table [OF a(2)[unfolded \<open>a = j\<close>] i1(1) _ nq]) (use pl in simp)
  have okd: "q_ok ?s" using dv(1) .
  have pld: "?p < length (procs ?s)" using pl by simp
  note ev = enq_view [OF okd i1(1) pld room]
  have rows: "qrow ?t r = (if r = i then take j (qrow s i) @ drop (Suc j) (qrow s i)
        else if r = i - 1 then qrow s r @ [?p] else qrow s r)" if "r < 5" for r
    using ev(2) [OF that] dv(2) [OF that] dv(2) [OF i1(1)] i by auto
  have t: "get_tail (int i) s = Ret (q_tail s ! i) s" using d(1) i by simp
  note rd = q_read_row [OF d(1) i(2) j]
  have add': "add_proc_to_q ?p (int i - 1) ?s = Ret 1 ?t" using add by (simp only: i1(2))
  have "age_turn i j s = Ret () ?t"
    using t rd pl(1) a(1) [unfolded \<open>a = j\<close>] add' old by (simp add: age_turn_def is_old_def)
  moreover have "qframe s ?t" by (rule qframe_trans [OF qframe_deq qframe_enq])
  ultimately show ?thesis
    using add rows pl by (intro exI [of _ ?t]) (auto simp: level_only_def nth_upd_at)
qed

lemma age_turn_skip:
  assumes inv: "mlfq_inv {} s" and i: "i < 5" and "\<not> (j < length (qrow s i) \<and> is_old s (qrow s i ! j))"
  shows "age_turn i j s = Ret () s"
proof -
  note d = mlfq_invD [OF inv]
  note row = q_ok_row [OF d(1) i]
  have t: "get_tail (int i) s = Ret (q_tail s ! i) s" using d(1) i by simp
  show ?thesis
  proof (cases "int j \<le> q_tail s ! i")
    case True
    then have jt: "j < nat (q_tail s ! i + 1)" by linarith
    then have jl: "j < length (qrow s i)" using length_row_of [OF row] by simp
    note rd = q_read_row [OF d(1) i jl]
    with t True jl assms(3) show ?thesis by (simp add: age_turn_def is_old_def)
  qed (use t in \<open>simp add: age_turn_def\<close>)
qed

lemma drop_step:
  assumes "j < length xs"
  shows "age_keep old (drop j xs) =
      (if old (xs ! j) then take 1 (drop (Suc j) xs) @ age_keep old (drop (Suc (Suc j)) xs)
       else xs ! j # age_keep old (drop (Suc j) xs))"
    and "age_moved old (drop j xs) =
      (if old (xs ! j) then xs ! j # age_moved old (drop (Suc (Suc j)) xs) else age_moved old (drop (Suc j) xs))"
proof -
  have d: "drop j xs = xs ! j # drop (Suc j) xs" using assms by (simp add: Cons_nth_drop_Suc)
  have e: "drop (Suc (Suc j)) xs = drop 1 (drop (Suc j) xs)" by simp
  show "age_keep old (drop j xs) =
      (if old (xs ! j) then take 1 (drop (Suc j) xs) @ age_keep old (drop (Suc (Suc j)) xs)
       else xs ! j # age_keep old (drop (Suc j) xs))"
    and "age_moved old (drop j xs) =
      (if old (xs ! j) then xs ! j # age_moved old (drop (Suc (Suc j)) xs) else age_moved old (drop (Suc j) xs))"
    unfolding d e by (cases "drop (Suc j) xs"; simp)+
qed

text \<open>One queue.\<close>

text \<open>The invariant of the aging loop over queue \<open>i\<close>: what it has done before its index is \<open>j\<close>.\<close>

definition age_progress :: "nat \<Rightarrow> 'z pstate_scheme \<Rightarrow> nat \<Rightarrow> 'z pstate_scheme \<Rightarrow> bool" where
  "age_progress i s j t \<longleftrightarrow> mlfq_inv {} t \<and> qframe s t \<and> length (procs t) = length (procs s) \<and>
    age_keep (is_old s) (qrow s i) = take j (qrow t i) @ age_keep (is_old s) (drop j (qrow t i)) \<and>
    qrow s (i - 1) @ age_moved (is_old s) (qrow s i) = qrow t (i - 1) @ age_moved (is_old s) (drop j (qrow t i)) \<and>
    (\<forall>r < 5. r \<noteq> i \<and> r \<noteq> i - 1 \<longrightarrow> qrow t r = qrow s r) \<and>
    (\<forall>x \<in> set (qrow t i). is_old s x = is_old t x) \<and>
    length (qrow t i) \<le> length (qrow s i) \<and>
    (\<forall>x < length (procs s). level_only (procs s ! x) (procs t ! x))"

lemma age_progressD:
  assumes "age_progress i s j t"
  shows "mlfq_inv {} t" "qframe s t" "length (procs t) = length (procs s)"
    "age_keep (is_old s) (qrow s i) = take j (qrow t i) @ age_keep (is_old s) (drop j (qrow t i))"
    "qrow s (i - 1) @ age_moved (is_old s) (qrow s i) = qrow t (i - 1) @ age_moved (is_old s) (drop j (qrow t i))"
    "\<forall>r < 5. r \<noteq> i \<and> r \<noteq> i - 1 \<longrightarrow> qrow t r = qrow s r" "\<forall>x \<in> set (qrow t i). is_old s x = is_old t x"
    "length (qrow t i) \<le> length (qrow s i)" "\<forall>x < length (procs s). level_only (procs s ! x) (procs t ! x)"
  using assms unfolding age_progress_def by blast+

lemma distinct_qrow: "mlfq_inv X s \<Longrightarrow> i < 5 \<Longrightarrow> distinct (qrow s i)"
  using mlfq_invD(3) [of X s] by (auto simp: qall_def upt5 dest: less5_cases)

text \<open>The rest of the queue after the entry at \<open>j\<close> was moved: the same processes, as old as before.\<close>

lemma age_rest_old:
  assumes inv: "mlfq_inv {} t" and i: "i < 5" and j: "j < length (qrow t i)" and Q: "\<forall>x \<in> set (qrow t i). is_old s x = is_old t x"
    and fr: "qframe t u" and row: "qrow u i = take j (qrow t i) @ drop (Suc j) (qrow t i)"
    and same: "\<forall>x < length (procs t). x \<noteq> qrow t i ! j \<longrightarrow> procs u ! x = procs t ! x"
  shows "\<forall>x \<in> set (qrow u i). is_old s x = is_old u x"
proof
  fix x
  assume x: "x \<in> set (qrow u i)"
  have "distinct (take j (qrow t i) @ qrow t i ! j # drop (Suc j) (qrow t i))"
    using distinct_qrow [OF inv i] by (simp only: id_take_nth_drop [OF j, symmetric])
  then have "qrow t i ! j \<notin> set (qrow u i)" unfolding row by simp
  moreover have "set (qrow u i) \<subseteq> set (qrow t i)" unfolding row by (auto dest: in_set_takeD in_set_dropD)
  ultimately have m: "x \<in> set (qrow t i)" "x \<noteq> qrow t i ! j" "x < length (procs t)"
    using x set_row_ok [OF q_ok_row [OF mlfq_invD(1) [OF inv] i], of x] by auto
  have "procs u ! x = procs t ! x" using same m by blast
  then have "is_old u x = is_old t x" using qframeD(6) [OF fr] by (simp add: is_old_def)
  then show "is_old s x = is_old u x" using Q m(1) by simp
qed

lemma age_progress_move:
  assumes i: "0 < i" "i < 5" and Q: "age_progress i s j t" and jl: "j < length (qrow t i)" and old: "is_old t (qrow t i ! j)"
  shows "\<exists>u. age_turn i j t = Ret () u \<and> age_progress i s (Suc j) u"
proof -
  let ?R = "qrow t i" and ?old = "is_old s"
  note D = age_progressD [OF Q]
  have so: "?old (?R ! j)" using D(7) old nth_mem [OF jl] by blast
  from age_turn_move [OF D(1) i jl old] obtain u where u: "age_turn i j t = Ret () u" "mlfq_inv {} u"
    "qframe t u" "length (procs u) = length (procs t)"
    "\<forall>r < 5. qrow u r = (if r = i then take j ?R @ drop (Suc j) ?R else if r = i - 1 then qrow t r @ [?R ! j] else qrow t r)"
    "\<forall>x < length (procs t). level_only (procs t ! x) (procs u ! x)"
    "\<forall>x < length (procs t). x \<noteq> ?R ! j \<longrightarrow> procs u ! x = procs t ! x"
    by blast
  have ui: "qrow u i = take j ?R @ drop (Suc j) ?R" and ui1: "qrow u (i - 1) = qrow t (i - 1) @ [?R ! j]"
    using u(5) i by auto
  have tk: "take (Suc j) (qrow u i) = take j ?R @ take 1 (drop (Suc j) ?R)" and dp: "drop (Suc j) (qrow u i) = drop (Suc (Suc j)) ?R"
    using jl by (simp_all add: ui min_def)
  have st: "\<forall>x \<in> set (qrow u i). ?old x = is_old u x" by (rule age_rest_old [OF D(1) i(2) jl D(7) u(3) ui u(7)])
  have lev: "\<forall>x < length (procs s). level_only (procs s ! x) (procs u ! x)" using D(9) u(6) D(3) level_only_trans by metis
  have keep: "age_keep ?old (qrow s i) = take (Suc j) (qrow u i) @ age_keep ?old (drop (Suc j) (qrow u i))"
    unfolding tk dp D(4) using drop_step(1) [OF jl, of ?old] so by simp
  have moved: "qrow s (i - 1) @ age_moved ?old (qrow s i) = qrow u (i - 1) @ age_moved ?old (drop (Suc j) (qrow u i))"
    unfolding ui1 dp D(5) using drop_step(2) [OF jl, of ?old] so by simp
  have other: "\<forall>r < 5. r \<noteq> i \<and> r \<noteq> i - 1 \<longrightarrow> qrow u r = qrow s r" using D(6) u(5) by simp
  have len: "length (qrow u i) \<le> length (qrow s i)" using D(8) jl by (simp add: ui)
  have "age_progress i s (Suc j) u"
    unfolding age_progress_def using u(2) qframe_trans [OF D(2) u(3)] u(4) D(3) keep moved other st len lev by simp
  with u(1) show ?thesis by blast
qed

lemma age_progress_skip:
  assumes i: "i < 5" and Q: "age_progress i s j t" and no: "\<not> (j < length (qrow t i) \<and> is_old t (qrow t i ! j))"
  shows "\<exists>u. age_turn i j t = Ret () u \<and> age_progress i s (Suc j) u"
proof -
  note D = age_progressD [OF Q]
  have "age_keep (is_old s) (qrow s i) = take (Suc j) (qrow t i) @ age_keep (is_old s) (drop (Suc j) (qrow t i)) \<and>
    qrow s (i - 1) @ age_moved (is_old s) (qrow s i) = qrow t (i - 1) @ age_moved (is_old s) (drop (Suc j) (qrow t i))"
  proof (cases "j < length (qrow t i)")
    case True
    with no D(7) have "\<not> is_old s (qrow t i ! j)" using nth_mem by blast
    then show ?thesis unfolding D(4,5) using drop_step [OF True, of "is_old s"] True by (simp add: take_Suc_conv_app_nth)
  next
    case False
    then show ?thesis using D(4,5) by simp
  qed
  then have "age_progress i s (Suc j) t" unfolding age_progress_def using D by simp
  then show ?thesis using age_turn_skip [OF D(1) i no] by blast
qed

lemma age_queue:
  assumes inv: "mlfq_inv {} s" and i: "0 < i" "i < 5" and n: "length (qrow s i) \<le> n"
  shows "\<exists>t. mforeach [0..<n] (age_turn i) s = Ret () t \<and> mlfq_inv {} t \<and> qframe s t \<and>
    length (procs t) = length (procs s) \<and>
    (\<forall>r < 5. qrow t r = (if r = i then age_keep (is_old s) (qrow s i)
        else if r = i - 1 then qrow s r @ age_moved (is_old s) (qrow s i) else qrow s r)) \<and>
    (\<forall>x < length (procs s). level_only (procs s ! x) (procs t ! x))"
proof -
  have "\<exists>t. mforeach [0..<n] (age_turn i) s = Ret () t \<and> age_progress i s n t"
  proof (rule mforeach_upt [where Q = "age_progress i s"])
    show "age_progress i s 0 s" using inv by (simp add: age_progress_def level_only_def)
    show "\<exists>u. age_turn i j t = Ret () u \<and> age_progress i s (Suc j) u" if "j < n" "age_progress i s j t" for j t
      using age_progress_move [OF i that(2)] age_progress_skip [OF i(2) that(2)] by blast
  qed
  then obtain t where t: "mforeach [0..<n] (age_turn i) s = Ret () t" "age_progress i s n t" by blast
  note D = age_progressD [OF t(2)]
  have "length (qrow t i) \<le> n" using n D(8) by linarith
  then have "qrow t i = age_keep (is_old s) (qrow s i)" "qrow t (i - 1) = qrow s (i - 1) @ age_moved (is_old s) (qrow s i)"
    using D(4,5) by simp_all
  then have "\<forall>r < 5. qrow t r = (if r = i then age_keep (is_old s) (qrow s i)
        else if r = i - 1 then qrow s r @ age_moved (is_old s) (qrow s i) else qrow s r)"
    using D(6) i by simp
  with t(1) D show ?thesis by blast
qed

lemma mlfq_age_eq:
  assumes "mlfq_inv {} s"
  obtains t where "mlfq_age s = Ret () t" and "mlfq_inv {} t" and "qframe s t"
    and "length (procs t) = length (procs s)"
    and "\<And>x. x < length (procs s) \<Longrightarrow> level_only (procs s ! x) (procs t ! x)"
proof -
  let ?P = "\<lambda>t. mlfq_inv {} t \<and> qframe s t \<and> length (procs t) = length (procs s) \<and>
    (\<forall>x < length (procs s). level_only (procs s ! x) (procs t ! x))"
  have "\<exists>t. mforeach [1..<5] (\<lambda>i. mbind (gets (\<lambda>s. length (queue s ! i))) (\<lambda>n. mforeach [0..<n] (age_turn i))) s
      = Ret () t \<and> ?P t"
  proof (rule mforeach_invariant)
    fix i t
    assume "i \<in> set [1..<5 :: nat]" and P: "?P t"
    then have i: "0 < i" "i < 5" and inv: "mlfq_inv {} t" by auto
    note row = q_ok_row [OF mlfq_invD(1) [OF inv] i(2)]
    have "length (qrow t i) \<le> length (queue t ! i)"
      using row length_row_of [OF row] by (simp add: row_ok_def)
    from age_queue [OF inv i this] obtain u where u: "mforeach [0..<length (queue t ! i)] (age_turn i) t = Ret () u"
      "mlfq_inv {} u" "qframe t u" "length (procs u) = length (procs t)"
      "\<forall>x < length (procs t). level_only (procs t ! x) (procs u ! x)"
      by blast
    have "?P u" using P u(2-5) qframe_trans [of s t u] level_only_trans by metis
    with u(1) show "\<exists>u. mbind (gets (\<lambda>s. length (queue s ! i))) (\<lambda>n. mforeach [0..<n] (age_turn i)) t = Ret () u \<and> ?P u"
      by auto
  next
    show "?P s" using assms by (simp add: level_only_def)
  qed
  then show ?thesis using that by (auto simp: mlfq_age_def)
qed

section \<open>Choosing and requeueing\<close>

lemma mlfq_pick_none:
  assumes "q_ok s" and "\<And>q. q \<in> set is \<Longrightarrow> q < 5 \<and> qrow s q = []"
  shows "mlfq_pick is s = Ret None s"
  using assms(2)
proof (induction "is")
  case (Cons q "is")
  then have q: "q < 5" "qrow s q = []" by auto
  note row = q_ok_row [OF assms(1) q(1)]
  have "\<not> 0 \<le> q_tail s ! q" using length_row_of [OF row] q(2) by simp
  with Cons assms(1) q show ?case by simp
qed simp

text \<open>The front of the first queue that is not empty.\<close>

lemma mlfq_pick_some:
  assumes inv: "mlfq_inv {} s" and q: "q < 5" "qrow s q = p # ps" and first: "\<And>r. r < q \<Longrightarrow> qrow s r = []"
  obtains t where "mlfq_pick [0..<5] s = Ret (Some p) t" and "mlfq_inv {p} t" and "qframe s t" and "procs t = procs s"
    and "\<And>r. r < 5 \<Longrightarrow> qrow t r = (if r = q then ps else qrow s r)"
proof -
  note d = mlfq_invD [OF inv]
  have p: "p \<in> set (qrow s q)" using q by simp
  from remove_proc_from_q_inv [OF inv q(1) p] obtain a where a:
    "remove_proc_from_q p (int q) s = Ret 1 (deq q a s)" "mlfq_inv {p} (deq q a s)"
    "\<forall>r < 5. qrow (deq q a s) r = (if r = q then remove1 p (qrow s q) else qrow s r)"
    by auto
  have l0: "0 < length (qrow s q)" using q by simp
  note rd = q_read_row [OF d(1) q(1) l0]
  have pick: "mlfq_pick (q # is) s = Ret (Some p) (deq q a s)" for "is"
    using d(1) q rd a(1) by simp
  have skip: "mlfq_pick (is @ js) s = mlfq_pick js s" if "\<And>r. r \<in> set is \<Longrightarrow> r < q" for "is" js
    using that
  proof (induction "is")
    case (Cons r "is")
    then have r: "r < q" by simp
    then have r5: "r < 5" using q(1) by simp
    note row = q_ok_row [OF d(1) r5]
    have "\<not> 0 \<le> q_tail s ! r" using length_row_of [OF row] first [OF r] by simp
    with Cons d(1) r5 show ?case by simp
  qed simp
  have "[0..<5] = [0..<q] @ q # [Suc q..<5]"
    using q(1) by (metis less_imp_le_nat upt_add_eq_append upt_conv_Cons le_add_diff_inverse zero_le)
  then have "mlfq_pick [0..<5] s = Ret (Some p) (deq q a s)" using skip [of "[0..<q]"] pick by simp
  then show ?thesis by (rule that [OF _ a(2) qframe_deq deq_procs]) (use a(3) q in simp)
qed

lemma mlfq_requeue_eq:
  assumes inv: "mlfq_inv {p} s" and p: "live s p"
  obtains t where "mlfq_requeue p s = Ret () t" and "mlfq_inv {} t" and "qframe s t" and "length (procs t) = length (procs s)"
    and "\<And>x. x < length (procs s) \<Longrightarrow> x \<noteq> p \<Longrightarrow> procs t ! x = procs s ! x"
    and "state (procs t ! p) = state (procs s ! p)"
    and "state (procs s ! p) = RUNNABLE \<Longrightarrow>
      pqueue (procs t ! p) = (if change_q (procs s ! p) then min 4 (pqueue (procs s ! p) + 1) else pqueue (procs s ! p)) \<and>
      curr_ticks (procs t ! p) = 0 \<and> \<not> change_q (procs t ! p) \<and>
      (\<forall>r < 5. qrow t r = (if int r = pqueue (procs t ! p) then qrow s r @ [p] else qrow s r))"
proof (cases "state (procs s ! p) = RUNNABLE")
  case False
  have "mlfq_inv {} s" by (rule mlfq_inv_settled [OF inv]) (use False in simp)
  moreover have "p < length (procs s)" using p by (simp add: live_def)
  ultimately show ?thesis using False by (intro that [of s]) (simp_all add: mlfq_requeue_def)
next
  case True
  have pl: "p < length (procs s)" using p by (simp add: live_def)
  let ?q = "if change_q (procs s ! p) then min 4 (pqueue (procs s ! p) + 1) else pqueue (procs s ! p)"
  let ?f = "\<lambda>x. x\<lparr>change_q := False, curr_ticks := 0, pqueue := ?q\<rparr>"
  note d = mlfq_invD [OF inv]
  have q5: "0 \<le> pqueue (procs s ! p)" "pqueue (procs s ! p) < 5" using d(6) [OF p] by auto
  then have q: "nat ?q < 5" "int (nat ?q) = ?q" "0 \<le> ?q" "?q < 5" by auto
  have nq: "p \<notin> set (qall s)" using d(4) [of p] by simp
  let ?u = "s\<lparr>procs := upd_at p ?f (procs s)\<rparr>"
  have inv1: "mlfq_inv {p} ?u"
  proof -
    have "mlfq_inv (insert p {p}) ?u"
      by (rule mlfq_inv_upd [OF inv nq]) (use q(3,4) d(7) [OF _ p] in auto)
    then show ?thesis by simp
  qed
  have lv: "live ?u p" "state (procs ?u ! p) = RUNNABLE" using p pl True by (simp_all add: live_def)
  let ?t = "enq p (nat ?q) ?u"
  have add: "add_proc_to_q p (int (nat ?q)) ?u = Ret 1 ?t" "mlfq_inv {} ?t"
    using add_proc_to_q_inv [OF inv1 q(1) lv] by auto
  have run: "mlfq_requeue p s = Ret () ?t"
  proof (cases "change_q (procs s ! p)")
    case ch: True
    let ?g = "\<lambda>x. x\<lparr>change_q := False, curr_ticks := 0\<rparr>"
    show ?thesis
    proof (cases "pqueue (procs s ! p) = 4")
      case q4: True
      then have "upd_at p ?g (procs s) = upd_at p ?f (procs s)"
        using ch by (intro upd_at_cong) simp
      then show ?thesis using True ch q4 pl add(1) q(2) by (simp add: mlfq_requeue_def)
    next
      case nq4: False
      then have m: "min 4 (pqueue (procs s ! p) + 1) = pqueue (procs s ! p) + 1" using q5 by simp
      have "upd_at p (\<lambda>x. x\<lparr>change_q := False, curr_ticks := 0, pqueue := pqueue x + 1\<rparr>) (procs s) =
          upd_at p ?f (procs s)"
        using ch m by (intro upd_at_cong) simp
      then show ?thesis using True ch nq4 pl add(1) q(2) m by (simp add: mlfq_requeue_def)
    qed
  next
    case nch: False
    have "upd_at p (\<lambda>x. x\<lparr>curr_ticks := 0\<rparr>) (procs s) = upd_at p ?f (procs s)"
      using nch by (intro upd_at_cong) simp
    then show ?thesis using True nch pl add(1) q(2) by (simp add: mlfq_requeue_def)
  qed
  have "qframe s ?t" by (rule qframe_trans [OF qframe_procs qframe_enq])
  moreover have room: "length (qrow ?u (nat ?q)) < length (queue ?u ! nat ?q)"
    by (rule row_shorter_than_table [OF inv1 q(1)]) (use pl nq in simp_all)
  have "qrow ?t r = (if int r = ?q then qrow s r @ [p] else qrow s r)" if "r < 5" for r
    using enq_view(2) [OF _ q(1) _ room that] pl d(1) q(2) by auto
  ultimately show ?thesis
    using run add(2) pl q(2) by (intro that [of ?t]) (auto simp: nth_upd_at)
qed

section \<open>Dispatching\<close>

lemma mwf_at_upd:
  assumes "\<And>c. apicid (g c) = apicid c" and "\<And>c. ncli (g c) = ncli c"
  shows "mwf_at (upd_at i g cs) l h = mwf_at cs l h" and "this_idx l (upd_at i g cs) = this_idx l cs"
proof -
  have f: "find_idx (\<lambda>c. apicid c = l) (upd_at i g cs) = find_idx (\<lambda>c. apicid c = l) cs"
    by (rule find_apicid_upd_at) (rule assms(1))
  then show t: "this_idx l (upd_at i g cs) = this_idx l cs" by (simp add: this_idx_def)
  have "ncli (upd_at i g cs ! this_idx l cs) = ncli (cs ! this_idx l cs)"
    using assms(2) by (simp add: upd_at_def nth_list_update)
  then show "mwf_at (upd_at i g cs) l h = mwf_at cs l h"
    by (simp add: mwf_at_def f t)
qed

lemma lcr3_eq:
  "mwf s \<Longrightarrow> lcr3 v s = Ret () (s\<lparr>cpus := upd_at (this_cpu s) (\<lambda>c. c\<lparr>cr3 := v\<rparr>) (cpus s)\<rparr>)"
  by (auto simp: lcr3_def mwf_at_def this_idx_def upd_cpu_def)

definition uvm_cpu :: "proc \<Rightarrow> cpu \<Rightarrow> cpu" where
  "uvm_cpu pr c = c\<lparr>ts_esp0 := kstack pr + 4096, cr3 := V2P (pgdir pr)\<rparr>"

lemma uvm_cpu_sel [simp]: "apicid (uvm_cpu pr c) = apicid c" "ncli (uvm_cpu pr c) = ncli c"
    "cproc (uvm_cpu pr c) = cproc c" "intena (uvm_cpu pr c) = intena c"
  by (simp_all add: uvm_cpu_def)

lemma switchuvm_eq:
  assumes m: "mwf s" and p: "p < length (procs s)" "kstack (procs s ! p) \<noteq> 0" "pgdir (procs s ! p) \<noteq> 0"
  shows "switchuvm p s = Ret () (s\<lparr>cpus := crit_cpus (this_cpu s) (hw_if s (lapicid s))
    (upd_at (this_cpu s) (uvm_cpu (procs s ! p)) (cpus s))\<rparr>)"
proof -
  let ?i = "this_cpu s" and ?f = "hw_if s (lapicid s)" and ?g = "uvm_cpu (procs s ! p)"
  let ?s = "s\<lparr>cpus := push_cpus ?i ?f (cpus s), hw_if := if_off (lapicid s) (hw_if s)\<rparr>"
  let ?u = "?s\<lparr>cpus := push_cpus ?i ?f (upd_at ?i ?g (cpus s))\<rparr>"
  have len: "?i < length (cpus s)" by (rule this_idx_in_range [OF m])
  have cm: "upd_at ?i (\<lambda>c. c\<lparr>ts_esp0 := a, cr3 := b\<rparr>) (push_cpus ?i ?f (cpus s)) =
      push_cpus ?i ?f (upd_at ?i (\<lambda>c. c\<lparr>ts_esp0 := a, cr3 := b\<rparr>) (cpus s))" for a b
    unfolding push_cpus_def upd_at_twice by (rule upd_at_cong) simp
  have "mycpu ?s = Ret ?i ?s" using m by (simp add: mycpu_eq)
  moreover have "lcr3 v (?s\<lparr>cpus := upd_at ?i (\<lambda>c. c\<lparr>ts_esp0 := a\<rparr>) (push_cpus ?i ?f (cpus s))\<rparr>) =
      Ret () (?s\<lparr>cpus := upd_at ?i (\<lambda>c. c\<lparr>ts_esp0 := a, cr3 := v\<rparr>) (push_cpus ?i ?f (cpus s))\<rparr>)" for a v
    using m by (subst lcr3_eq) (simp_all add: mwf_at_upd)
  moreover have "popcli ?u = Ret () (?u\<lparr>cpus := crit_cpus ?i ?f (upd_at ?i ?g (cpus s)), hw_if := hw_if s\<rparr>)"
    by (rule popcli_push) (use m in \<open>simp_all add: mwf_at_upd\<close>)
  ultimately show ?thesis
    using m p len by (simp add: switchuvm_def upd_cpu_def cm uvm_cpu_def [abs_def])
qed

lemma switchkvm_eq:
  "mwf s \<Longrightarrow> switchkvm s = Ret () (s\<lparr>cpus := upd_at (this_cpu s) (\<lambda>c. c\<lparr>cr3 := V2P (kpgdir s)\<rparr>) (cpus s)\<rparr>)"
  by (simp add: switchkvm_def lcr3_eq)

lemma sched_mlfq_idle:
  assumes "mlfq_age s = Ret () a" and "mlfq_inv {} a" and "\<And>q. q < 5 \<Longrightarrow> qrow a q = []"
  shows "sched_mlfq swtch c s = Ret () a"
proof -
  have "mlfq_pick [0..<5] a = Ret None a"
    by (rule mlfq_pick_none) (use mlfq_invD(1) [OF assms(2)] assms(3) in auto)
  with assms(1) show ?thesis by (simp add: sched_mlfq_def)
qed

lemma mwf_at_crit_any: "mwf_at (crit_cpus i f cs) l h = mwf_at cs l h"
  by (simp add: crit_cpus_def mwf_at_upd)

lemma sched_mlfq_run:
  assumes age: "mlfq_age s = Ret () a" and inv: "mlfq_inv {} a" and m: "mwf a" and c: "c = this_cpu a"
    and q: "q < 5" "qrow a q = p # ps" and first: "\<And>r. r < q \<Longrightarrow> qrow a r = []"
    and st: "kstack (procs a ! p) \<noteq> 0" "pgdir (procs a ! p) \<noteq> 0"
  obtains u where "sched_mlfq swtch c s =
      mbind (swtch p) (\<lambda>_. mbind switchkvm (\<lambda>_. mbind (set_cproc c None) (\<lambda>_. mlfq_requeue p))) u"
    and "mlfq_inv {} u" and "mwf u" and "this_cpu u = c" and "length (procs u) = length (procs a)"
    and "\<And>x. x < length (procs a) \<Longrightarrow> procs u ! x = (if x = p
      then (procs a ! p)\<lparr>state := RUNNING, num_run := num_run (procs a ! p) + 1\<rparr> else procs a ! x)"
    and "cproc (cpus u ! c) = Some p" and "cr3 (cpus u ! c) = V2P (pgdir (procs a ! p))"
    and "\<And>r. r < 5 \<Longrightarrow> qrow u r = (if r = q then ps else qrow a r)"
    and "spin u = spin a" and "hw_if u = hw_if a" and "ticks u = ticks a" and "policy u = policy a"
proof -
  from mlfq_pick_some [OF inv q first] obtain t where t: "mlfq_pick [0..<5] a = Ret (Some p) t"
    "mlfq_inv {p} t" "qframe a t" "procs t = procs a" "\<And>r. r < 5 \<Longrightarrow> qrow t r = (if r = q then ps else qrow a r)"
    by metis
  note fr = qframeD [OF t(3)]
  have pa: "p \<in> set (qall a)" using q by (auto simp: in_qall)
  then have p: "p < length (procs a)" "state (procs a ! p) = RUNNABLE" using mlfq_invD(4) [OF inv, of p] by auto
  have lv: "live t p" using p t(4) by (simp add: live_def)
  let ?f = "\<lambda>x. x\<lparr>num_run := num_run x + 1\<rparr>"
  let ?v = "t\<lparr>procs := upd_at p ?f (procs t), cpus := upd_at c (\<lambda>x. x\<lparr>cproc := Some p\<rparr>) (cpus t)\<rparr>"
  let ?cs = "crit_cpus (this_cpu ?v) (hw_if ?v (lapicid ?v)) (upd_at (this_cpu ?v) (uvm_cpu (procs ?v ! p)) (cpus ?v))"
  have cl: "c < length (cpus a)" using this_idx_in_range [OF m] c by simp
  have mv: "mwf ?v" "this_cpu ?v = c" using m c fr by (simp_all add: mwf_at_upd)
  have sw: "switchuvm p ?v = Ret () (?v\<lparr>cpus := ?cs\<rparr>)"
    by (rule switchuvm_eq) (use mv(1) p st t(4) in simp_all)
  let ?u = "?v\<lparr>cpus := ?cs, procs := upd_at p (\<lambda>x. x\<lparr>state := RUNNING\<rparr>) (upd_at p ?f (procs t))\<rparr>"
  have mu: "mwf ?u" "this_cpu ?u = c" using mv by (simp_all add: mwf_at_upd mwf_at_crit_any)
  have eq: "sched_mlfq swtch c s =
      mbind (swtch p) (\<lambda>_. mbind switchkvm (\<lambda>_. mbind (set_cproc c None) (\<lambda>_. mlfq_requeue p))) ?u"
    using age t(1,4) p sw by (simp add: sched_mlfq_def set_cproc_def upd_cpu_def)
  have nq: "p \<notin> set (qall t)" using mlfq_invD(4) [OF t(2), of p] by simp
  have "mlfq_inv (insert p {p}) (t\<lparr>procs := upd_at p (\<lambda>x. x\<lparr>num_run := num_run x + 1, state := RUNNING\<rparr>) (procs t)\<rparr>)"
    by (rule mlfq_inv_upd [OF t(2) nq]) (use mlfq_invD(6) [OF t(2) lv] mlfq_invD(7) [OF t(2) _ lv] in auto)
  then have inv2: "mlfq_inv {p} ?u" by simp
  have "mlfq_inv {} ?u" by (rule mlfq_inv_settled [OF inv2]) (use p t(4) in simp)
  moreover have "procs ?u ! x = (if x = p
      then (procs a ! p)\<lparr>state := RUNNING, num_run := num_run (procs a ! p) + 1\<rparr> else procs a ! x)"
    if "x < length (procs a)" for x
    using that t(4) by (simp add: nth_upd_at)
  moreover have "cproc (cpus ?u ! c) = Some p" "cr3 (cpus ?u ! c) = V2P (pgdir (procs a ! p))"
    using cl fr(1) mv(2) p t(4) by (simp_all add: crit_cpus_def uvm_cpu_def)
  ultimately show ?thesis
    using eq mu t(4,5) fr by (intro that [of ?u]) simp_all
qed

section \<open>Sleeping and yielding\<close>

text \<open>
  The executing processor holds exactly the lock \<open>lk\<close>, taken with the table of locks \<open>sp\<close> at nesting
  depth 0, and runs process \<open>p\<close>.
\<close>

definition holds_only :: "spinid \<Rightarrow> (spinid \<Rightarrow> spinlock) \<Rightarrow> nat \<Rightarrow> 'z pstate_scheme \<Rightarrow> bool" where
  "holds_only lk sp p s \<longleftrightarrow> (\<exists>cs h f.
     cpus s = push_cpus (this_cpu s) f cs \<and> hw_if s = if_off (lapicid s) h \<and> f = h (lapicid s) \<and>
     mwf_at cs (lapicid s) h \<and> ncli (cs ! this_cpu s) = 0 \<and> cproc (cs ! this_cpu s) = Some p \<and>
     spin s = acq_spin (this_cpu s) lk sp \<and> spinfree (sp lk) \<and> p < length (procs s))"

lemma holds_only_acquire:
  assumes "mwf s" and "spinfree (spin s lk)" and "ncli (cpus s ! this_cpu s) = 0"
    and "cproc (cpus s ! this_cpu s) = Some p" and "p < length (procs s)"
  shows "\<exists>t. acquire lk s = Ret () t \<and> holds_only lk (spin s) p t \<and> procs t = procs s"
  using assms by (auto simp: holds_only_def intro!: exI [of _ "cpus s"] exI [of _ "hw_if s"])

lemma sched_eq:
  assumes "holds_only PtableLk sp p s" and "state (procs s ! p) \<noteq> RUNNING"
  shows "sched s = Swtch s"
proof -
  from assms(1) obtain cs h f where c: "cpus s = push_cpus (this_cpu s) f cs" "hw_if s = if_off (lapicid s) h"
    "f = h (lapicid s)" "mwf_at cs (lapicid s) h" "ncli (cs ! this_cpu s) = 0" "cproc (cs ! this_cpu s) = Some p"
    "spin s = acq_spin (this_cpu s) PtableLk sp" "spinfree (sp PtableLk)" "p < length (procs s)"
    unfolding holds_only_def by blast
  have i: "this_cpu s = this_idx (lapicid s) cs" by (subst c(1)) simp
  have len: "this_cpu s < length cs" using this_idx_in_range [OF c(4)] i by simp
  have m: "mwf s" using c(4) by (subst c(1), subst c(2), subst i) simp
  have n: "ncli (cpus s ! this_cpu s) = 1" using len c(5) by (subst c(1)) (simp add: push_cpus_def)
  have pr: "cproc (cpus s ! this_cpu s) = Some p" using len c(6) by (subst c(1)) simp
  have off: "\<not> hw_if s (lapicid s)" by (subst c(2)) simp
  have crit: "crit_cpus (this_cpu s) g (cpus s) = cpus s" for g
    unfolding crit_cpus_def by (rule upd_at_id) (use n in simp)
  have hold: "holding PtableLk s = Ret True s"
    using m crit c(7) by simp
  show ?thesis
    using m crit pr hold n off c(9) assms(2)
    by (simp add: sched_def mycpu_eq readeflags_if_def)
qed

lemma sleep_eq:
  fixes ch :: chan
  assumes h: "holds_only lk sp p s" and "spinfree (sp PtableLk)"
  defines "t \<equiv> s\<lparr>spin := acq_spin (this_cpu s) PtableLk sp,
      procs := upd_at p (\<lambda>x. x\<lparr>chan := Some ch, state := SLEEPING\<rparr>) (procs s)\<rparr>"
  shows "sleep ch lk s = Swtch t" and "holds_only PtableLk sp p t"
proof -
  from h obtain cs h f where c: "cpus s = push_cpus (this_cpu s) f cs" "hw_if s = if_off (lapicid s) h"
    "f = h (lapicid s)" "mwf_at cs (lapicid s) h" "ncli (cs ! this_cpu s) = 0" "cproc (cs ! this_cpu s) = Some p"
    "spin s = acq_spin (this_cpu s) lk sp" "spinfree (sp lk)" "p < length (procs s)"
    unfolding holds_only_def by blast
  have i: "this_cpu s = this_idx (lapicid s) cs" by (subst c(1)) simp
  show ht: "holds_only PtableLk sp p t"
    unfolding holds_only_def t_def using c assms(2) by (auto intro!: exI [of _ cs] exI [of _ h])
  have sched: "sched t = Swtch t"
    by (rule sched_eq [OF ht]) (use c(9) in \<open>simp add: t_def\<close>)
  have len: "this_cpu s < length cs" using this_idx_in_range [OF c(4)] i by simp
  have m: "mwf s" using c(4) by (subst c(1), subst c(2), subst i) simp
  have pr: "cproc (cpus s ! this_cpu s) = Some p" using len c(6) by (subst c(1)) simp
  have crit: "crit_cpus (this_cpu s) g (cpus s) = cpus s" for g
    unfolding crit_cpus_def by (rule upd_at_id) (use c(5) len in \<open>subst c(1), simp add: push_cpus_def\<close>)
  have my: "myproc s = Ret (Some p) s" using m pr crit by simp
  have swap: "mbind (acquire PtableLk) (\<lambda>_. release lk) s = Ret () (s\<lparr>spin := acq_spin (this_cpu s) PtableLk sp\<rparr>)"
    if ne: "lk \<noteq> PtableLk"
  proof -
    have free: "spinfree (spin s PtableLk)" using assms(2) ne c(7) by simp
    let ?u = "s\<lparr>cpus := push_cpus (this_cpu s) (hw_if s (lapicid s)) (cpus s), hw_if := if_off (lapicid s) (hw_if s),
      spin := acq_spin (this_cpu s) PtableLk (spin s)\<rparr>"
    have "release lk ?u = Ret () (?u\<lparr>cpus := crit_cpus (this_cpu s) (hw_if s (lapicid s)) (cpus s), hw_if := hw_if s,
        spin := acq_spin (this_cpu s) PtableLk sp\<rparr>)"
      by (rule release_acq) (use m c(7,8) ne acq_spin_commute [of PtableLk lk] in simp_all)
    then show ?thesis using m free crit by simp
  qed
  show "sleep ch lk s = Swtch t"
  proof (cases "lk = PtableLk")
    case True
    then have "t = s\<lparr>procs := upd_at p (\<lambda>x. x\<lparr>chan := Some ch, state := SLEEPING\<rparr>) (procs s)\<rparr>"
      using c(7) by (simp add: t_def)
    then show ?thesis using True my sched by (simp add: sleep_def)
  next
    case False
    then show ?thesis using my swap sched by (simp add: sleep_def t_def)
  qed
qed

lemma yield_eq:
  assumes "mwf s" and "spinfree (spin s PtableLk)" and "ncli (cpus s ! this_cpu s) = 0"
    and "cproc (cpus s ! this_cpu s) = Some p" and "p < length (procs s)"
  shows "\<exists>t. yield s = Swtch t \<and> holds_only PtableLk (spin s) p t \<and> queue t = queue s \<and> q_tail t = q_tail s \<and>
    procs t = upd_at p (\<lambda>x. x\<lparr>state := RUNNABLE\<rparr>) (procs s)"
proof -
  let ?u = "s\<lparr>cpus := push_cpus (this_cpu s) (hw_if s (lapicid s)) (cpus s), hw_if := if_off (lapicid s) (hw_if s),
      spin := acq_spin (this_cpu s) PtableLk (spin s)\<rparr>"
  let ?t = "?u\<lparr>procs := upd_at p (\<lambda>x. x\<lparr>state := RUNNABLE\<rparr>) (procs s)\<rparr>"
  have len: "this_cpu s < length (cpus s)" using this_idx_in_range [OF assms(1)] .
  have ht: "holds_only PtableLk (spin s) p ?t"
    using assms by (auto simp: holds_only_def intro!: exI [of _ "cpus s"] exI [of _ "hw_if s"])
  have "sched ?t = Swtch ?t" by (rule sched_eq [OF ht]) (use assms(5) in simp)
  then have "yield s = Swtch ?t" using assms len by (simp add: yield_def upd_order)
  with ht show ?thesis by auto
qed

section \<open>Properties\<close>

text \<open>Two processes, both runnable at level 1, on a machine with one processor: for examples.\<close>

definition ex_proc :: "procstate \<Rightarrow> int \<Rightarrow> int \<Rightarrow> proc" where
  "ex_proc st n l = \<lparr>sz = 4096, pgdir = 0x80400000, kstack = 0x80500000, tstack = 0, state = st, pid = n,
     tgid = n, parent = None, tf = 0x80500FB4, pcontext = 0, chan = None, killed = False,
     ofile = replicate 16 None, cwd = None, pname = replicate 16 0, iotime = 0, rtime = 0, ctime = 0, etime = 0,
     waitshh = 0, priority = 50, num_run = 0, qticks = replicate 5 0, pqueue = l, curr_ticks = 0,
     change_q = False, enter = 0, tfunction = 0, pticks = 0\<rparr>"

definition ex_cpu :: cpu where
  "ex_cpu = \<lparr>apicid = 0, ncli = 0, intena = False, cproc = Some 0, cr3 = 0, ts_esp0 = 0\<rparr>"

definition ex_pstate :: "proc list \<Rightarrow> nat option list list \<Rightarrow> int list \<Rightarrow> pstate" where
  "ex_pstate ps qs ts = \<lparr>cpus = [ex_cpu], lapicid = 0, hw_if = (\<lambda>_. False),
     spin = (\<lambda>_. \<lparr>locked = False, lname = [], lcpu = None\<rparr>), mem = (\<lambda>_. 0), kend = 0x80100000,
     use_lock = False, freelist = 0, kdata = 0x80108000, kpgdir = 0x803FF000, cons_out = [], policy = MLFQ,
     procs = ps, queue = qs, q_tail = ts, initproc = Some 0, nextpid = 3, nexttgid = 3, ticks = 100\<rparr>"

abbreviation ex_empty :: "nat option list" where
  "ex_empty \<equiv> [None, None]"

definition ex_two :: pstate where
  "ex_two = ex_pstate [ex_proc RUNNABLE 1 1, ex_proc RUNNABLE 2 1]
     [ex_empty, [Some 0, Some 1], ex_empty, ex_empty, ex_empty] [-1, 1, -1, -1, -1]"

definition ex_run :: pstate where
  "ex_run = ex_pstate [ex_proc RUNNING 1 0, ex_proc RUNNABLE 2 0]
     [[Some 1, None], ex_empty, ex_empty, ex_empty, ex_empty] [0, -1, -1, -1, -1]"

lemma all_less5: "(\<forall>q < (5 :: nat). P q) \<longleftrightarrow> P 0 \<and> P 1 \<and> P 2 \<and> P 3 \<and> P 4"
  using less5_cases by (auto; fastforce)

lemma ex_two_inv: "mlfq_inv {} ex_two"
  by (auto simp: mlfq_inv_def q_ok_def row_ok_def row_of_def qall_def live_def all_less5 upt5 ex_two_def
      ex_pstate_def ex_proc_def nth_Cons' less_Suc_eq numeral_eq_Suc)

lemma ex_run_inv: "mlfq_inv {} ex_run"
  by (auto simp: mlfq_inv_def q_ok_def row_ok_def row_of_def qall_def live_def all_less5 upt5 ex_run_def
      ex_pstate_def ex_proc_def nth_Cons' less_Suc_eq numeral_eq_Suc)

definition ex_three :: pstate where
  "ex_three = ex_pstate [ex_proc RUNNABLE 1 0, ex_proc RUNNABLE 2 0, ex_proc RUNNABLE 3 0]
     [[Some 1, Some 2, None], ex_empty @ [None], ex_empty @ [None], ex_empty @ [None], ex_empty @ [None]] [1, -1, -1, -1, -1]"

lemma ex_three_inv: "mlfq_inv {0} ex_three"
  by (auto simp: mlfq_inv_def q_ok_def row_ok_def row_of_def qall_def live_def all_less5 upt5 ex_three_def
      ex_pstate_def ex_proc_def nth_Cons' less_Suc_eq numeral_eq_Suc)

text \<open>
  C3: Every feedback queue behaves as a list. \<open>add_proc_to_q\<close> of a runnable process that is in no queue succeeds and puts
  it at the end of the chosen queue, leaving the other queues alone and never overrunning the array.
  \<open>remove_proc_from_q\<close> takes a process out of its queue wherever it stands there: those behind it move up in order
  and the other queues are untouched. For a process that is not in the queue it returns -1 and changes nothing.
\<close>

theorem mlfq_queue_refines_list:
  assumes "mlfq_inv X s" and "q < 5"
  shows "(\<forall>p < length (procs s). p \<in> X \<and> state (procs s ! p) = RUNNABLE \<longrightarrow>
      (\<exists>t. add_proc_to_q p (int q) s = Ret 1 t \<and> mlfq_inv (X - {p}) t \<and>
        (\<forall>r < 5. qrow t r = (if r = q then qrow s q @ [p] else qrow s r)))) \<and>
    (\<forall>ps p ps'. qrow s q = ps @ p # ps' \<longrightarrow>
      (\<exists>t. remove_proc_from_q p (int q) s = Ret 1 t \<and> mlfq_inv (insert p X) t \<and>
        (\<forall>r < 5. qrow t r = (if r = q then ps @ ps' else qrow s r)))) \<and>
    (\<forall>p < length (procs s). p \<notin> set (qrow s q) \<and> state (procs s ! p) \<noteq> UNUSED \<longrightarrow>
      remove_proc_from_q p (int q) s = Ret (- 1) s)"
proof (intro conjI allI impI, goal_cases)
  case (1 p)
  then have inv: "mlfq_inv (insert p (X - {p})) s" using assms(1) by (simp add: insert_absorb)
  have lv: "live s p" using 1 by (simp add: live_def)
  have nq: "p \<notin> set (qall s)" using mlfq_invD(4) [OF assms(1), of p] 1 by simp
  have room: "length (qrow s q) < length (queue s ! q)" by (rule row_shorter_than_table [OF inv assms(2) 1(1) nq])
  show ?case using add_proc_to_q_inv [OF inv assms(2) lv] 1 enq_view(2) [OF mlfq_invD(1) [OF inv] assms(2) 1(1) room] by auto
next
  case (2 ps p ps')
  then have p: "p \<in> set (qrow s q)" by simp
  have "distinct (qrow s q)" using mlfq_invD(3) [OF assms(1)] assms(2) by (auto simp: qall_def upt5 dest: less5_cases)
  then have "remove1 p (qrow s q) = ps @ ps'" using 2 by (simp add: remove1_append)
  then show ?case using remove_proc_from_q_inv [OF assms p] by auto
next
  case (3 p)
  have "live s p" using 3 by (simp add: live_def)
  moreover have "live s x \<and> x \<noteq> p" if "x \<in> set (qrow s q)" for x
    using that 3(2) mlfq_invD(4) [OF assms(1), of x] assms(2) by (auto simp: in_qall live_def)
  ultimately show ?case using mlfq_invD(7) [OF assms(1)] mlfq_invD(1) [OF assms(1)] assms(2) 3(1)
    by (intro remove_proc_from_q_none) blast+
qed

theorem mlfq_queue_refines_list_witness:
  "(\<exists>t. add_proc_to_q 0 (int 0) ex_three = Ret 1 t \<and> qrow t 0 = [1, 2, 0]) \<and>
   (\<exists>t. remove_proc_from_q 1 (int 0) ex_three = Ret 1 t \<and> qrow t 0 = [2]) \<and> remove_proc_from_q 0 (int 0) ex_three = Ret (- 1) ex_three"
proof -
  have q: "qrow ex_three 0 = [1, 2]" "length (procs ex_three) = 3" "state (procs ex_three ! 0) = RUNNABLE"
    by (simp_all add: ex_three_def ex_pstate_def row_of_def ex_proc_def numeral_eq_Suc)
  have "qrow ex_three 0 = [] @ 1 # [2]" using q by simp
  then show ?thesis using mlfq_queue_refines_list [OF ex_three_inv, of 0] q by force
qed

text \<open>
  The duplicate check of \<open>add_proc_to_q\<close> stops one short of the tail: a process that is already the
  last entry of the queue is entered a second time.
\<close>

lemma add_proc_to_q_duplicates_last:
  assumes "q_ok s" and "q < 5" and "qrow s q = ps @ [p]" and "p < length (procs s)"
    and "\<And>x. x \<in> set ps \<Longrightarrow> pid (procs s ! x) \<noteq> pid (procs s ! p)"
    and "length (qrow s q) < length (queue s ! q)"
  shows "\<exists>t. add_proc_to_q p (int q) s = Ret 1 t \<and> qrow t q = ps @ [p, p]"
proof -
  have "add_proc_to_q p (int q) s = Ret 1 (enq p q s)"
    by (rule add_proc_to_q_eq) (use assms in auto)
  moreover have "qrow (enq p q s) q = ps @ [p, p]"
    using enq_view(2) [OF assms(1,2,4,6,2)] assms(3) by simp
  ultimately show ?thesis by blast
qed

text \<open>
  C22: One pass of the aging loop over queue \<open>i\<close> is the list function \<open>age_keep\<close>/\<open>age_moved\<close>: the
  processes it moves go to the end of queue \<open>i - 1\<close> in order, the others keep their order, states and
  everything but level and entry time is untouched, and the queue invariant holds again. Of two
  neighbours that have both waited too long only the first is moved.
\<close>

theorem mlfq_aging_pass:
  assumes "mlfq_inv {} s" and "0 < i" and "i < 5"
  shows "\<exists>t. mforeach [0..<length (queue s ! i)] (age_turn i) s = Ret () t \<and> mlfq_inv {} t \<and>
    (\<forall>r < 5. qrow t r = (if r = i then age_keep (is_old s) (qrow s i)
        else if r = i - 1 then qrow s r @ age_moved (is_old s) (qrow s i) else qrow s r)) \<and>
    (\<forall>x < length (procs s). level_only (procs s ! x) (procs t ! x)) \<and>
    (\<forall>x y zs. qrow s i = x # y # zs \<and> is_old s x \<and> is_old s y \<longrightarrow> hd (qrow t i) = y)"
proof -
  note row = q_ok_row [OF mlfq_invD(1) [OF assms(1)] assms(3)]
  have "length (qrow s i) \<le> length (queue s ! i)"
    using row length_row_of [OF row] by (simp add: row_ok_def)
  from age_queue [OF assms this] obtain t where "mforeach [0..<length (queue s ! i)] (age_turn i) s = Ret () t"
    "mlfq_inv {} t" "\<forall>r < 5. qrow t r = (if r = i then age_keep (is_old s) (qrow s i)
        else if r = i - 1 then qrow s r @ age_moved (is_old s) (qrow s i) else qrow s r)"
    "\<forall>x < length (procs s). level_only (procs s ! x) (procs t ! x)"
    by blast
  moreover from this(3) have "hd (qrow t i) = y" if "qrow s i = x # y # zs" "is_old s x" for x y zs
    using that assms(3) by simp
  ultimately show ?thesis by blast
qed

theorem mlfq_aging_pass_witness:
  "\<exists>t. mforeach [0..<length (queue ex_two ! 1)] (age_turn 1) ex_two = Ret () t \<and> mlfq_inv {} t \<and>
    qrow t 0 = [0] \<and> qrow t 1 = [1] \<and> is_old ex_two 1"
proof -
  have "is_old ex_two 0" "is_old ex_two 1" "qrow ex_two 1 = [0, 1]" "qrow ex_two 0 = []"
    by (simp_all add: is_old_def ex_two_def ex_pstate_def ex_proc_def row_of_def)
  with mlfq_aging_pass [OF ex_two_inv, of 1] show ?thesis by auto
qed

text \<open>The end of the scheduler's turn, after \<open>swtch\<close> has come back in the state \<open>v\<close>.\<close>

lemma sched_mlfq_back:
  assumes v: "mlfq_inv {p} v" "mwf v" "live v p" and c: "c = this_cpu v"
  obtains t where "mbind switchkvm (\<lambda>_. mbind (set_cproc c None) (\<lambda>_. mlfq_requeue p)) v = Ret () t"
    and "mlfq_inv {} t" and "cproc (cpus t ! c) = None" and "cr3 (cpus t ! c) = V2P (kpgdir v)"
    and "\<And>x. x < length (procs v) \<Longrightarrow> x \<noteq> p \<Longrightarrow> procs t ! x = procs v ! x"
    and "state (procs t ! p) = state (procs v ! p)"
    and "state (procs v ! p) \<noteq> RUNNABLE \<Longrightarrow> \<forall>r < 5. qrow t r = qrow v r"
    and "state (procs v ! p) = RUNNABLE \<Longrightarrow>
      pqueue (procs t ! p) = (if change_q (procs v ! p) then min 4 (pqueue (procs v ! p) + 1) else pqueue (procs v ! p)) \<and>
      (\<forall>r < 5. qrow t r = (if int r = pqueue (procs t ! p) then qrow v r @ [p] else qrow v r))"
proof -
  let ?w = "v\<lparr>cpus := upd_at c (\<lambda>x. x\<lparr>cr3 := V2P (kpgdir v), cproc := None\<rparr>) (cpus v)\<rparr>"
  have e: "mbind switchkvm (\<lambda>_. mbind (set_cproc c None) (\<lambda>_. mlfq_requeue p)) v = mlfq_requeue p ?w"
    using v(2) c by (simp add: switchkvm_eq set_cproc_def upd_cpu_def)
  have cl: "c < length (cpus v)" using this_idx_in_range [OF v(2)] c by simp
  obtain t where t: "mlfq_requeue p ?w = Ret () t" "mlfq_inv {} t" "qframe ?w t"
    "\<And>x. x < length (procs ?w) \<Longrightarrow> x \<noteq> p \<Longrightarrow> procs t ! x = procs ?w ! x" "state (procs t ! p) = state (procs ?w ! p)"
    "state (procs ?w ! p) = RUNNABLE \<Longrightarrow>
      pqueue (procs t ! p) = (if change_q (procs ?w ! p) then min 4 (pqueue (procs ?w ! p) + 1) else pqueue (procs ?w ! p)) \<and>
      curr_ticks (procs t ! p) = 0 \<and> \<not> change_q (procs t ! p) \<and>
      (\<forall>r < 5. qrow t r = (if int r = pqueue (procs t ! p) then qrow ?w r @ [p] else qrow ?w r))"
    by (rule mlfq_requeue_eq [of p ?w]) (use v in simp_all)
  have idle: "t = ?w" if "state (procs v ! p) \<noteq> RUNNABLE"
    using that t(1) v(3) by (simp add: mlfq_requeue_def live_def)
  have cp: "cpus t = cpus ?w" using qframeD [OF t(3)] by simp
  show thesis
    by (rule that [of t]) (use e t cp cl idle in auto)
qed

text \<open>
  \<open>dispatched a q p ps u\<close>: \<open>u\<close> is \<open>a\<close> with \<open>p\<close> taken from the front of queue \<open>q\<close> and running on this CPU. \<open>put_back p v t\<close>: \<open>t\<close>
  is \<open>v\<close> with the CPU back in the scheduler and \<open>p\<close> queued again if it is runnable.
\<close>

definition dispatched :: "'z pstate_scheme \<Rightarrow> nat \<Rightarrow> nat \<Rightarrow> nat list \<Rightarrow> 'z pstate_scheme \<Rightarrow> bool" where
  "dispatched a q p ps u \<longleftrightarrow> mlfq_inv {} u \<and> mwf u \<and> this_cpu u = this_cpu a \<and> p < length (procs u) \<and> length (procs u) = length (procs a) \<and>
     (\<forall>x < length (procs a). procs u ! x = (if x = p
        then (procs a ! p)\<lparr>state := RUNNING, num_run := num_run (procs a ! p) + 1\<rparr> else procs a ! x)) \<and>
     cproc (cpus u ! this_cpu a) = Some p \<and> cr3 (cpus u ! this_cpu a) = V2P (pgdir (procs a ! p)) \<and>
     (\<forall>r < 5. qrow u r = (if r = q then ps else qrow a r))"

definition put_back :: "nat \<Rightarrow> 'z pstate_scheme \<Rightarrow> 'z pstate_scheme \<Rightarrow> bool" where
  "put_back p v t \<longleftrightarrow> mlfq_inv {} t \<and> cproc (cpus t ! this_cpu v) = None \<and> cr3 (cpus t ! this_cpu v) = V2P (kpgdir v) \<and>
     (\<forall>x < length (procs v). x \<noteq> p \<longrightarrow> procs t ! x = procs v ! x) \<and> state (procs t ! p) = state (procs v ! p) \<and>
     (if state (procs v ! p) = RUNNABLE then
        pqueue (procs t ! p) = (if change_q (procs v ! p) then min 4 (pqueue (procs v ! p) + 1) else pqueue (procs v ! p)) \<and>
        (\<forall>r < 5. qrow t r = (if int r = pqueue (procs t ! p) then qrow v r @ [p] else qrow v r))
      else \<forall>r < 5. qrow t r = qrow v r)"

text \<open>
  C12: The MLFQ scheduler first ages the queues and then runs the process at the front of the
  highest-priority queue that is not empty: every queue above it is empty, the process leaves its queue
  and becomes the running process of this CPU in its own address space, the other processes and queues are as
  they were, and the queue invariant holds when the process is entered. When the process has come back
  from \<open>swtch\<close>, in whatever state \<open>v\<close>, the scheduler is in the kernel's address space again with no process on this CPU,
  and a process that is still runnable is at the end of the queue of its level, one lower if its slice was used up;
  one that is not runnable is in no queue. With all queues empty nothing runs.
\<close>

theorem mlfq_dispatch_priority:
  assumes "mlfq_inv {} s" and "mwf s"
    and "\<And>x. x < length (procs s) \<Longrightarrow> state (procs s ! x) = RUNNABLE \<Longrightarrow>
      kstack (procs s ! x) \<noteq> 0 \<and> pgdir (procs s ! x) \<noteq> 0"
  shows "\<exists>a. mlfq_age s = Ret () a \<and> mlfq_inv {} a \<and>
    ((\<forall>q < 5. qrow a q = []) \<longrightarrow> sched_mlfq swtch (this_cpu s) s = Ret () a) \<and>
    (\<forall>q p ps. q < 5 \<and> qrow a q = p # ps \<and> (\<forall>r < q. qrow a r = []) \<longrightarrow>
      (\<exists>u. dispatched a q p ps u \<and>
        (\<forall>v. swtch p u = Ret () v \<and> mlfq_inv {p} v \<and> mwf v \<and> this_cpu v = this_cpu u \<and> live v p \<longrightarrow>
          (\<exists>t. sched_mlfq swtch (this_cpu s) s = Ret () t \<and> put_back p v t))))"
proof -
  obtain a where a: "mlfq_age s = Ret () a" "mlfq_inv {} a" "qframe s a" "length (procs a) = length (procs s)"
    "\<And>x. x < length (procs s) \<Longrightarrow> level_only (procs s ! x) (procs a ! x)"
    using mlfq_age_eq [OF assms(1)] by metis
  note fr = qframeD [OF a(3)]
  have m: "mwf a" "this_cpu s = this_cpu a" using assms(2) fr by simp_all
  have same: "state (procs a ! x) = state (procs s ! x) \<and> kstack (procs a ! x) = kstack (procs s ! x) \<and>
      pgdir (procs a ! x) = pgdir (procs s ! x)" if "x < length (procs s)" for x
    by (subst (1 2 3) a(5) [OF that, unfolded level_only_def]) simp
  have idle: "sched_mlfq swtch (this_cpu s) s = Ret () a" if "\<forall>q < 5. qrow a q = []"
    by (rule sched_mlfq_idle [OF a(1,2)]) (use that in blast)
  have "\<exists>u. dispatched a q p ps u \<and> (\<forall>v. swtch p u = Ret () v \<and> mlfq_inv {p} v \<and> mwf v \<and> this_cpu v = this_cpu u \<and> live v p \<longrightarrow>
        (\<exists>t. sched_mlfq swtch (this_cpu s) s = Ret () t \<and> put_back p v t))"
    if q: "q < 5" "qrow a q = p # ps" and first: "\<forall>r < q. qrow a r = []" for q p ps
  proof -
    have "p \<in> set (qall a)" using q by (auto simp: in_qall)
    then have p: "p < length (procs a)" "p < length (procs s)" "state (procs a ! p) = RUNNABLE"
      using mlfq_invD(4) [OF a(2), of p] a(4) by auto
    then have st: "kstack (procs a ! p) \<noteq> 0" "pgdir (procs a ! p) \<noteq> 0" using assms(3) [of p] same [of p] by auto
    obtain u where u: "sched_mlfq swtch (this_cpu s) s =
        mbind (swtch p) (\<lambda>_. mbind switchkvm (\<lambda>_. mbind (set_cproc (this_cpu s) None) (\<lambda>_. mlfq_requeue p))) u" "dispatched a q p ps u"
      by (rule sched_mlfq_run [OF a(1,2) m q _ st, of swtch]) (use first in blast, rule that, assumption, use p m in \<open>simp add: dispatched_def\<close>)
    have "\<exists>t. sched_mlfq swtch (this_cpu s) s = Ret () t \<and> put_back p v t"
      if v: "swtch p u = Ret () v" "mlfq_inv {p} v" "mwf v" "this_cpu v = this_cpu u" "live v p" for v
    proof -
      have c: "this_cpu s = this_cpu v" using u(2) m v(4) by (simp add: dispatched_def)
      show ?thesis
        by (rule sched_mlfq_back [OF v(2,3,5) c]) (use u(1) v(1) c in \<open>auto simp: put_back_def\<close>)
    qed
    then show ?thesis using u(2) by blast
  qed
  then show ?thesis using a(1,2) idle by blast
qed

lemma ex_run_age: "mlfq_age ex_run = Ret () ex_run"
  by (simp add: mlfq_age_def age_turn_def get_tail_def ex_run_def ex_pstate_def upt_rec)

theorem mlfq_dispatch_priority_witness:
  "\<exists>t. sched_mlfq (\<lambda>p. upd_proc p (\<lambda>x. x\<lparr>state := RUNNABLE\<rparr>)) 0 ex_run = Ret () t \<and> cproc (cpus t ! 0) = None \<and> qrow t 0 = [1]"
proof -
  let ?sw = "\<lambda>p. upd_proc p (\<lambda>x. x\<lparr>state := RUNNABLE\<rparr>)"
  have c: "this_cpu ex_run = 0" "mwf ex_run"
    by (simp_all add: ex_run_def ex_pstate_def ex_cpu_def this_idx_def mwf_at_def)
  have k: "kstack (procs ex_run ! x) \<noteq> 0 \<and> pgdir (procs ex_run ! x) \<noteq> 0"
    if "x < length (procs ex_run)" "state (procs ex_run ! x) = RUNNABLE" for x
    using that by (auto simp: ex_run_def ex_pstate_def ex_proc_def nth_Cons' less_Suc_eq)
  have q: "qrow ex_run 0 = [1]" by (simp add: ex_run_def ex_pstate_def row_of_def)
  obtain u where u: "dispatched ex_run 0 1 [] u" "\<And>v. ?sw 1 u = Ret () v \<and> mlfq_inv {1} v \<and> mwf v \<and> this_cpu v = this_cpu u \<and> live v 1 \<Longrightarrow>
      \<exists>t. sched_mlfq ?sw 0 ex_run = Ret () t \<and> put_back 1 v t"
  proof -
    obtain a where a: "mlfq_age ex_run = Ret () a" "\<forall>q p ps. q < 5 \<and> qrow a q = p # ps \<and> (\<forall>r < q. qrow a r = []) \<longrightarrow>
      (\<exists>u. dispatched a q p ps u \<and>
        (\<forall>v. ?sw p u = Ret () v \<and> mlfq_inv {p} v \<and> mwf v \<and> this_cpu v = this_cpu u \<and> live v p \<longrightarrow>
          (\<exists>t. sched_mlfq ?sw 0 ex_run = Ret () t \<and> put_back p v t)))"
      using mlfq_dispatch_priority [OF ex_run_inv c(2) k, of ?sw, unfolded c(1)] by blast
    have "a = ex_run" using a(1) ex_run_age by simp
    then have "(0 :: nat) < 5 \<and> qrow a 0 = 1 # [] \<and> (\<forall>r < 0. qrow a r = [])" using q by simp
    from a(2) [rule_format, OF this] show thesis using that \<open>a = ex_run\<close> by blast
  qed
  let ?v = "u\<lparr>procs := upd_at 1 (\<lambda>x. x\<lparr>state := RUNNABLE\<rparr>) (procs u)\<rparr>"
  have d: "mlfq_inv {} u" "mwf u" "this_cpu u = 0" "1 < length (procs u)" "state (procs u ! 1) = RUNNING" "pqueue (procs u ! 1) = 0"
    "\<not> change_q (procs u ! 1)" "qrow u 0 = []"
    using u(1) c by (auto simp: dispatched_def ex_run_def ex_pstate_def ex_proc_def)
  have lv: "live u 1" using d by (simp add: live_def)
  have nq: "1 \<notin> set (qall u)" using mlfq_invD(4) [OF d(1), of 1] d(5) by simp
  have "mlfq_inv (insert 1 {}) ?v"
    by (rule mlfq_inv_upd [OF d(1) nq]) (use d(6) mlfq_invD(7) [OF d(1) _ lv] in auto)
  then obtain t where "sched_mlfq ?sw 0 ex_run = Ret () t" "put_back 1 ?v t"
    using u(2) [of ?v] d lv by (auto simp: live_def)
  then show ?thesis using d by (auto simp: put_back_def)
qed

text \<open>
  C21: When the running process comes back to the scheduler still runnable it is queued again: one
  level lower (never below the last) if it used up its time slice, at the same level otherwise, at the
  end of that queue and with a fresh slice. A process that went to sleep or died is not queued.
\<close>

theorem mlfq_requeue_level:
  assumes "mlfq_inv {p} s" and "p < length (procs s)" and "state (procs s ! p) \<noteq> UNUSED"
  shows "\<exists>t. mlfq_requeue p s = Ret () t \<and> mlfq_inv {} t \<and>
    (state (procs s ! p) \<noteq> RUNNABLE \<longrightarrow> t = s) \<and>
    (state (procs s ! p) = RUNNABLE \<longrightarrow>
      pqueue (procs t ! p) = (if change_q (procs s ! p) then min 4 (pqueue (procs s ! p) + 1) else pqueue (procs s ! p)) \<and>
      curr_ticks (procs t ! p) = 0 \<and> \<not> change_q (procs t ! p) \<and>
      (\<forall>r < 5. qrow t r = (if int r = pqueue (procs t ! p) then qrow s r @ [p] else qrow s r)))"
proof -
  have lv: "live s p" using assms(2,3) by (simp add: live_def)
  have "mlfq_requeue p s = Ret () s" if "state (procs s ! p) \<noteq> RUNNABLE"
    using that assms(2) by (simp add: mlfq_requeue_def)
  note same = this
  obtain t where t: "mlfq_requeue p s = Ret () t" "mlfq_inv {} t" "qframe s t" "length (procs t) = length (procs s)"
    "\<And>x. x < length (procs s) \<Longrightarrow> x \<noteq> p \<Longrightarrow> procs t ! x = procs s ! x"
    "state (procs t ! p) = state (procs s ! p)"
    "state (procs s ! p) = RUNNABLE \<Longrightarrow>
      pqueue (procs t ! p) = (if change_q (procs s ! p) then min 4 (pqueue (procs s ! p) + 1) else pqueue (procs s ! p)) \<and>
      curr_ticks (procs t ! p) = 0 \<and> \<not> change_q (procs t ! p) \<and>
      (\<forall>r < 5. qrow t r = (if int r = pqueue (procs t ! p) then qrow s r @ [p] else qrow s r))"
    by (rule mlfq_requeue_eq [OF assms(1) lv]) (rule that; blast)
  have "t = s" if "state (procs s ! p) \<noteq> RUNNABLE" using same [OF that] t(1) by simp
  with t(1,2,7) show ?thesis by blast
qed

theorem mlfq_requeue_level_witness:
  "\<exists>t. mlfq_requeue 0 (ex_run\<lparr>procs := [(ex_proc RUNNABLE 1 0)\<lparr>change_q := True\<rparr>, ex_proc RUNNABLE 2 0]\<rparr>) = Ret () t \<and>
     pqueue (procs t ! 0) = 1 \<and> qrow t 0 = [1] \<and> qrow t 1 = [0]"
proof -
  let ?s = "ex_run\<lparr>procs := [(ex_proc RUNNABLE 1 0)\<lparr>change_q := True\<rparr>, ex_proc RUNNABLE 2 0]\<rparr>"
  have "mlfq_inv {0} ?s"
    by (auto simp: mlfq_inv_def q_ok_def row_ok_def row_of_def qall_def live_def all_less5 upt5 ex_run_def
      ex_pstate_def ex_proc_def nth_Cons' less_Suc_eq numeral_eq_Suc)
  moreover have "qrow ?s 0 = [1]" "qrow ?s 1 = []" by (simp_all add: ex_run_def ex_pstate_def row_of_def)
  ultimately show ?thesis using mlfq_requeue_level [of 0 ?s] by (auto simp: ex_proc_def)
qed

end
