(* ===== verification/Sched.thy ===== *)
theory Sched
  imports Mlfq
begin

text \<open>
  Properties of the scheduler under the FCFS policy, and of \<open>sleep\<close> together with \<open>wakeup\<close>.
\<close>

section \<open>First come, first served\<close>

definition fcfs_best :: "'z pstate_scheme \<Rightarrow> nat \<Rightarrow> nat option \<Rightarrow> bool" where
  "fcfs_best s k r \<longleftrightarrow> (case r of
       None \<Rightarrow> \<forall>x < k. state (procs s ! x) \<noteq> RUNNABLE
     | Some p \<Rightarrow> p < k \<and> state (procs s ! p) = RUNNABLE \<and>
         (\<forall>x < k. state (procs s ! x) = RUNNABLE \<longrightarrow>
            ctime (procs s ! p) < ctime (procs s ! x) \<or> ctime (procs s ! p) = ctime (procs s ! x) \<and> p \<le> x))"

lemma fcfs_scan_best:
  assumes "fcfs_best s k b" and "k \<le> n" and "n \<le> length (procs s)"
  shows "\<exists>r. fcfs_scan [k..<n] b s = Ret r s \<and> fcfs_best s n r"
  using assms
proof (induction "n - k" arbitrary: k b)
  case 0
  then show ?case by simp
next
  case (Suc d)
  then have k: "k < n" "d = n - Suc k" "Suc k \<le> n" by auto
  have step: "\<exists>r. fcfs_scan [Suc k..<n] b' s = Ret r s \<and> fcfs_best s n r" if "fcfs_best s (Suc k) b'" for b'
    by (rule Suc.hyps(1) [OF k(2) that k(3) Suc.prems(3)])
  have kl: "k < length (procs s)" using k Suc.prems(3) by simp
  have u: "[k..<n] = k # [Suc k..<n]" using k by (simp add: upt_conv_Cons)
  show ?case
  proof (cases "state (procs s ! k) = RUNNABLE")
    case False
    then have "fcfs_best s (Suc k) b" using Suc.prems(1) by (auto simp: fcfs_best_def less_Suc_eq split: option.splits)
    from step [OF this] False kl u show ?thesis by simp
  next
    case True
    show ?thesis
    proof (cases b)
      case None
      then have "fcfs_best s (Suc k) (Some k)" using Suc.prems(1) True by (auto simp: fcfs_best_def less_Suc_eq)
      from step [OF this] True kl u None show ?thesis by simp
    next
      case (Some p)
      then have pk: "p < k" using Suc.prems(1) by (simp add: fcfs_best_def)
      then have pl: "p < length (procs s)" using kl by simp
      let ?b = "if ctime (procs s ! k) < ctime (procs s ! p) then Some k else Some p"
      have "fcfs_best s (Suc k) ?b"
        using Suc.prems(1) True Some pk by (fastforce simp: fcfs_best_def less_Suc_eq)
      from step [OF this] True kl pl u Some show ?thesis by simp
    qed
  qed
qed

text \<open>
  C27: Under FCFS the scheduler runs the runnable process that was created first (the one with the
  lowest table index among equals): it becomes the running process of this CPU in its own address space
  and no other process changes. With nothing runnable nothing runs.
\<close>

theorem fcfs_runs_oldest:
  assumes "mwf s"
    and "\<And>x. x < length (procs s) \<Longrightarrow> state (procs s ! x) = RUNNABLE \<Longrightarrow>
      kstack (procs s ! x) \<noteq> 0 \<and> pgdir (procs s ! x) \<noteq> 0"
  shows "((\<forall>x < length (procs s). state (procs s ! x) \<noteq> RUNNABLE) \<longrightarrow> sched_fcfs swtch (this_cpu s) s = Ret () s) \<and>
    ((\<exists>x < length (procs s). state (procs s ! x) = RUNNABLE) \<longrightarrow>
      (\<exists>p u. fcfs_best s (length (procs s)) (Some p) \<and>
        sched_fcfs swtch (this_cpu s) s = mbind (swtch p) (\<lambda>_. mbind switchkvm (\<lambda>_. set_cproc (this_cpu s) None)) u \<and>
        procs u = upd_at p (\<lambda>x. x\<lparr>num_run := num_run x + 1, state := RUNNING\<rparr>) (procs s) \<and>
        cproc (cpus u ! this_cpu s) = Some p \<and> cr3 (cpus u ! this_cpu s) = V2P (pgdir (procs s ! p))))"
proof -
  let ?n = "length (procs s)" and ?c = "this_cpu s"
  obtain r where r: "fcfs_scan [0..<?n] None s = Ret r s" "fcfs_best s ?n r"
    using fcfs_scan_best [of s 0 None ?n] by (auto simp: fcfs_best_def)
  show ?thesis
  proof (cases r)
    case None
    then have "\<forall>x < ?n. state (procs s ! x) \<noteq> RUNNABLE" using r(2) by (simp add: fcfs_best_def)
    moreover have "sched_fcfs swtch ?c s = Ret () s" using r(1) None by (simp add: sched_fcfs_def)
    ultimately show ?thesis by blast
  next
    case (Some p)
    then have p: "p < ?n" "state (procs s ! p) = RUNNABLE" using r(2) by (simp_all add: fcfs_best_def)
    let ?v = "s\<lparr>cpus := upd_at ?c (\<lambda>x. x\<lparr>cproc := Some p\<rparr>) (cpus s)\<rparr>"
    let ?cs = "crit_cpus (this_cpu ?v) (hw_if ?v (lapicid ?v)) (upd_at (this_cpu ?v) (uvm_cpu (procs ?v ! p)) (cpus ?v))"
    have mv: "mwf ?v" "this_cpu ?v = ?c" using assms(1) by (simp_all add: mwf_at_upd)
    have sw: "switchuvm p ?v = Ret () (?v\<lparr>cpus := ?cs\<rparr>)"
      by (rule switchuvm_eq) (use mv(1) p assms(2) [OF p] in simp_all)
    let ?u = "?v\<lparr>cpus := ?cs, procs := upd_at p (\<lambda>x. x\<lparr>num_run := num_run x + 1, state := RUNNING\<rparr>) (procs s)\<rparr>"
    have "sched_fcfs swtch ?c s = mbind (swtch p) (\<lambda>_. mbind switchkvm (\<lambda>_. set_cproc ?c None)) ?u"
      using r(1) Some p sw by (simp add: sched_fcfs_def set_cproc_def upd_cpu_def)
    moreover have "cproc (cpus ?u ! ?c) = Some p" "cr3 (cpus ?u ! ?c) = V2P (pgdir (procs s ! p))"
      using this_idx_in_range [OF assms(1)] mv(2) by (simp_all add: crit_cpus_def uvm_cpu_def)
    moreover have "fcfs_best s ?n (Some p)" using r(2) Some by simp
    ultimately show ?thesis using p by (intro conjI impI exI [of _ p] exI [of _ ?u]) auto
  qed
qed

theorem fcfs_runs_oldest_witness:
  "\<exists>p u. fcfs_best ex_two 2 (Some p) \<and>
     sched_fcfs (\<lambda>p. ret ()) 0 ex_two = mbind (ret ()) (\<lambda>_. mbind switchkvm (\<lambda>_. set_cproc 0 None)) u \<and>
     cproc (cpus u ! 0) = Some p"
proof -
  have c: "this_cpu ex_two = 0" "mwf ex_two" "length (procs ex_two) = 2"
    by (simp_all add: ex_two_def ex_pstate_def ex_cpu_def this_idx_def mwf_at_def)
  have k: "kstack (procs ex_two ! x) \<noteq> 0 \<and> pgdir (procs ex_two ! x) \<noteq> 0"
    if "x < length (procs ex_two)" "state (procs ex_two ! x) = RUNNABLE" for x
    using that by (auto simp: ex_two_def ex_pstate_def ex_proc_def nth_Cons' less_Suc_eq)
  have e: "\<exists>x < length (procs ex_two). state (procs ex_two ! x) = RUNNABLE"
    by (auto simp: ex_two_def ex_pstate_def ex_proc_def)
  have "\<exists>p u. fcfs_best ex_two (length (procs ex_two)) (Some p) \<and>
        sched_fcfs (\<lambda>p. ret ()) (this_cpu ex_two) ex_two =
          mbind (ret ()) (\<lambda>_. mbind switchkvm (\<lambda>_. set_cproc (this_cpu ex_two) None)) u \<and>
        procs u = upd_at p (\<lambda>x. x\<lparr>num_run := num_run x + 1, state := RUNNING\<rparr>) (procs ex_two) \<and>
        cproc (cpus u ! this_cpu ex_two) = Some p \<and> cr3 (cpus u ! this_cpu ex_two) = V2P (pgdir (procs ex_two ! p))"
    using fcfs_runs_oldest [OF c(2) k, of "\<lambda>p. ret ()"] e by blast
  then show ?thesis unfolding c by blast
qed

text \<open>
  C11: A process that goes to sleep cannot miss its wakeup. \<open>sleep\<close> called with the lock that protects
  the condition gives the CPU away with the process marked asleep on the channel, that lock free
  and \<open>ptable.lock\<close> held, so no \<open>wakeup\<close> can look at the table before the process is asleep; and a
  \<open>wakeup\<close> of the channel from that table makes exactly the processes sleeping on it runnable and puts
  each of them in its queue.
\<close>

theorem sleep_wakeup_not_lost:
  fixes s :: "'z pstate_scheme"
  assumes "holds_only lk sp p s" and "spinfree (sp PtableLk)" and "mlfq_inv {} s"
    and "state (procs s ! p) = RUNNING"
  shows "\<exists>t. sleep ch lk s = Swtch t \<and> mlfq_inv {} t \<and> sleeping_on ch (procs t ! p) \<and>
    (lk \<noteq> PtableLk \<longrightarrow> spinfree (spin t lk)) \<and> locked (spin t PtableLk) \<and>
    (\<forall>u :: 'z pstate_scheme. procs u = procs t \<and> queue u = queue t \<and> q_tail u = q_tail t \<and> policy u = MLFQ \<and> mwf u \<and>
        spinfree (spin u PtableLk) \<longrightarrow>
      (\<exists>v. wakeup ch u = Ret () v \<and> mlfq_inv {} v \<and> p \<in> set (qall v) \<and>
        (\<forall>x < length (procs u). state (procs v ! x) =
          (if sleeping_on ch (procs u ! x) then RUNNABLE else state (procs u ! x)))))"
proof -
  let ?f = "\<lambda>x. x\<lparr>chan := Some ch, state := SLEEPING\<rparr>"
  let ?t = "s\<lparr>spin := acq_spin (this_cpu s) PtableLk sp, procs := upd_at p ?f (procs s)\<rparr>"
  have p: "p < length (procs s)" using assms(1) by (auto simp: holds_only_def)
  have lv: "live s p" using p assms(4) by (simp add: live_def)
  have nq: "p \<notin> set (qall s)" using mlfq_invD(4) [OF assms(3), of p] assms(4) by simp
  have "mlfq_inv {p} (s\<lparr>procs := upd_at p ?f (procs s)\<rparr>)"
    by (rule mlfq_inv_upd [OF assms(3) nq]) (use mlfq_invD(6) [OF assms(3) lv] mlfq_invD(7) [OF assms(3) _ lv] in auto)
  then have invp: "mlfq_inv {p} ?t" by simp
  have inv: "mlfq_inv {} ?t" by (rule mlfq_inv_settled [OF invp]) (use p in simp)
  have lk: "lk \<noteq> PtableLk \<longrightarrow> spinfree (spin ?t lk)" using assms(1) by (auto simp: holds_only_def)
  have wake: "\<exists>v. wakeup ch u = Ret () v \<and> mlfq_inv {} v \<and> p \<in> set (qall v) \<and>
        (\<forall>x < length (procs u). state (procs v ! x) =
          (if sleeping_on ch (procs u ! x) then RUNNABLE else state (procs u ! x)))"
    if u: "procs u = procs ?t" "queue u = queue ?t" "q_tail u = q_tail ?t" "policy u = MLFQ" "mwf u"
      "spinfree (spin u PtableLk)" for u :: "'z pstate_scheme"
  proof -
    have "mlfq_inv {} u" using inv u by simp
    from wakeup_eq [OF u(5,6,4) this, of ch] obtain qs ts where
      w: "wakeup ch u = Ret () (u\<lparr>cpus := crit_cpus (this_cpu u) (hw_if u (lapicid u)) (cpus u),
          procs := map (woken_proc (ticks u) ch) (procs u), queue := qs, q_tail := ts\<rparr>)"
      "mlfq_at {} (map (woken_proc (ticks u) ch) (procs u)) qs ts"
      by metis
    let ?v = "u\<lparr>cpus := crit_cpus (this_cpu u) (hw_if u (lapicid u)) (cpus u),
          procs := map (woken_proc (ticks u) ch) (procs u), queue := qs, q_tail := ts\<rparr>"
    have st: "\<forall>x < length (procs u). state (procs ?v ! x) =
          (if sleeping_on ch (procs u ! x) then RUNNABLE else state (procs u ! x))"
      by (simp add: woken_proc_def)
    have "sleeping_on ch (procs u ! p)" using u(1) p by (simp add: sleeping_on_def)
    then have "p \<in> set (qall ?v)"
      using mlfq_invD(4) [of "{}" ?v p] w(2) u(1) p by (simp add: woken_proc_def)
    with w st show ?thesis by (intro exI [of _ ?v]) simp
  qed
  define t where "t = ?t"
  have "sleeping_on ch (procs t ! p)" "locked (spin t PtableLk)" "sleep ch lk s = Swtch t" "mlfq_inv {} t"
    "lk \<noteq> PtableLk \<longrightarrow> spinfree (spin t lk)"
    using p inv lk sleep_eq(1) [OF assms(1,2), of ch] by (simp_all add: t_def sleeping_on_def)
  with wake [folded t_def] show ?thesis by blast
qed

theorem sleep_wakeup_not_lost_witness:
  "\<exists>s t. acquire TicksLk ex_run = Ret () s \<and> sleep TicksChan TicksLk s = Swtch t \<and> sleeping_on TicksChan (procs t ! 0) \<and>
     (\<exists>v. wakeup TicksChan (t\<lparr>cpus := cpus ex_run, hw_if := hw_if ex_run, spin := spin ex_run\<rparr>) = Ret () v \<and> 0 \<in> set (qall v))"
proof -
  have m: "mwf ex_run" "spinfree (spin ex_run lk)" "policy ex_run = MLFQ" for lk
    by (simp_all add: ex_run_def ex_pstate_def ex_cpu_def this_idx_def mwf_at_def spinfree_def)
  let ?s = "ex_run\<lparr>cpus := push_cpus (this_cpu ex_run) (hw_if ex_run (lapicid ex_run)) (cpus ex_run),
       hw_if := if_off (lapicid ex_run) (hw_if ex_run), spin := acq_spin (this_cpu ex_run) TicksLk (spin ex_run)\<rparr>"
  have acq: "acquire TicksLk ex_run = Ret () ?s" using m by simp
  have "ncli (cpus ex_run ! this_cpu ex_run) = 0" "cproc (cpus ex_run ! this_cpu ex_run) = Some 0" "0 < length (procs ex_run)"
    by (simp_all add: ex_run_def ex_pstate_def ex_cpu_def this_idx_def)
  then have h: "holds_only TicksLk (spin ex_run) 0 ?s"
    using holds_only_acquire [OF m(1,2), where lk = TicksLk and p = 0] acq by auto
  have inv: "mlfq_inv {} ?s" "state (procs ?s ! 0) = RUNNING"
    using ex_run_inv by (simp_all add: ex_run_def ex_pstate_def ex_proc_def)
  obtain t where t: "sleep TicksChan TicksLk ?s = Swtch t" "sleeping_on TicksChan (procs t ! 0)"
    "\<forall>u :: pstate. procs u = procs t \<and> queue u = queue t \<and> q_tail u = q_tail t \<and> policy u = MLFQ \<and> mwf u \<and>
        spinfree (spin u PtableLk) \<longrightarrow> (\<exists>v. wakeup TicksChan u = Ret () v \<and> 0 \<in> set (qall v))"
    using sleep_wakeup_not_lost [OF h m(2) inv, of TicksChan] by blast
  have pol: "policy t = MLFQ" "lapicid t = lapicid ex_run"
    using t(1) sleep_eq(1) [OF h m(2), of TicksChan] m(3) by auto
  let ?u = "t\<lparr>cpus := cpus ex_run, hw_if := hw_if ex_run, spin := spin ex_run\<rparr>"
  have "\<exists>v. wakeup TicksChan ?u = Ret () v \<and> 0 \<in> set (qall v)"
    by (rule t(3) [THEN spec, THEN mp]) (use pol m in simp)
  with acq t show ?thesis by blast
qed

end
