(* ===== verification/Sleeplock.thy ===== *)
theory Sleeplock
  imports Sched
begin

text \<open>
  Model of \<open>sleeplock.c\<close>: locks held across disk operations, whose waiters sleep. \<open>acquiresleep_loop\<close>
  is the loop that runs with the inner spinlock held; a process that finds the lock taken sleeps in it and
  runs it again when it is resumed (\<open>acquiresleep_resume\<close>).
\<close>

section \<open>State and operations\<close>

record sleeplock =
  slocked :: bool
  slname :: string
  spid :: int

record sl_state = pstate +
  slk :: "sleepid \<Rightarrow> sleeplock"

definition upd_slk :: "sleepid \<Rightarrow> (sleeplock \<Rightarrow> sleeplock) \<Rightarrow> ('z sl_state_scheme, unit) kfun" where
  "upd_slk l f = modify (\<lambda>s. s\<lparr>slk := (slk s)(l := f (slk s l))\<rparr>)"

definition initsleeplock :: "sleepid \<Rightarrow> string \<Rightarrow> ('z sl_state_scheme, unit) kfun" where
  "initsleeplock l nm =
     mbind (initlock (SleepLk l) ''sleep lock'') (\<lambda>_.
     upd_slk l (\<lambda>_. \<lparr>slocked = False, slname = nm, spid = 0\<rparr>))"

text \<open>\<open>myproc()->pid\<close>.\<close>

definition mypid :: "('z pstate_scheme, int) kfun" where
  "mypid = mbind myproc (\<lambda>r. mbind (deref r) (\<lambda>p. mbind (getp p) (\<lambda>pr. ret (pid pr))))"

definition acquiresleep_loop :: "sleepid \<Rightarrow> ('z sl_state_scheme, unit) kfun" where
  "acquiresleep_loop l =
     mbind (gets (\<lambda>s. slocked (slk s l))) (\<lambda>b.
     if b then sleep (SleepChan l) (SleepLk l)
     else
       mbind (upd_slk l (\<lambda>x. x\<lparr>slocked := True\<rparr>)) (\<lambda>_.
       mbind mypid (\<lambda>n.
       mbind (upd_slk l (\<lambda>x. x\<lparr>spid := n\<rparr>)) (\<lambda>_.
       release (SleepLk l)))))"

definition acquiresleep :: "sleepid \<Rightarrow> ('z sl_state_scheme, unit) kfun" where
  "acquiresleep l = mbind (acquire (SleepLk l)) (\<lambda>_. acquiresleep_loop l)"

definition acquiresleep_resume :: "nat \<Rightarrow> sleepid \<Rightarrow> bool \<Rightarrow> ('z sl_state_scheme, unit) kfun" where
  "acquiresleep_resume p l ie = mbind (sleep_resume p (SleepLk l) ie) (\<lambda>_. acquiresleep_loop l)"

definition releasesleep :: "sleepid \<Rightarrow> ('z sl_state_scheme, unit) kfun" where
  "releasesleep l =
     mbind (acquire (SleepLk l)) (\<lambda>_.
     mbind (upd_slk l (\<lambda>x. x\<lparr>slocked := False\<rparr>)) (\<lambda>_.
     mbind (upd_slk l (\<lambda>x. x\<lparr>spid := 0\<rparr>)) (\<lambda>_.
     mbind (wakeup (SleepChan l)) (\<lambda>_.
     release (SleepLk l)))))"

definition holdingsleep :: "sleepid \<Rightarrow> ('z sl_state_scheme, bool) kfun" where
  "holdingsleep l =
     mbind (acquire (SleepLk l)) (\<lambda>_.
     mbind (gets (\<lambda>s. slocked (slk s l))) (\<lambda>b.
     mbind (if b then mbind mypid (\<lambda>n. gets (\<lambda>s. spid (slk s l) = n)) else ret False) (\<lambda>r.
     mbind (release (SleepLk l)) (\<lambda>_.
     ret r))))"

section \<open>An undisturbed process\<close>

text \<open>
  \<open>quiet p s\<close>: process \<open>p\<close> runs on a well-formed processor, no spinlock is held anywhere and the
  queues are in order: the situation in which a system call executes between interrupts.
\<close>

definition quiet :: "nat \<Rightarrow> 'z pstate_scheme \<Rightarrow> bool" where
  "quiet p s \<longleftrightarrow> mwf s \<and> ncli (cpus s ! this_cpu s) = 0 \<and> cproc (cpus s ! this_cpu s) = Some p \<and>
     p < length (procs s) \<and> state (procs s ! p) = RUNNING \<and> (\<forall>lk. spinfree (spin s lk)) \<and>
     policy s = MLFQ \<and> mlfq_inv {} s"

text \<open>The only traces a finished critical section leaves: \<open>intena\<close> and processes it has woken.\<close>

definition crit :: "'z machine_scheme \<Rightarrow> cpu list" where
  "crit s = crit_cpus (this_cpu s) (hw_if s (lapicid s)) (cpus s)"

lemma quietD:
  assumes "quiet p s"
  shows "mwf s" "ncli (cpus s ! this_cpu s) = 0" "cproc (cpus s ! this_cpu s) = Some p" "p < length (procs s)"
    "state (procs s ! p) = RUNNING" "spinfree (spin s lk)" "policy s = MLFQ" "mlfq_inv {} s"
    "this_cpu s < length (cpus s)"
  using assms this_idx_in_range [of "cpus s" "lapicid s" "hw_if s"] by (simp_all add: quiet_def)

lemma crit_twice [simp]:
  "crit (s\<lparr>cpus := crit s\<rparr>) = crit s"
  by (simp add: crit_def)

lemma quiet_crit: "quiet p s \<Longrightarrow> quiet p (s\<lparr>cpus := crit s\<rparr>)"
  using this_idx_in_range [of "cpus s" "lapicid s" "hw_if s"]
  by (simp add: quiet_def crit_def) (simp add: crit_cpus_def)

text \<open>\<open>calm p s t\<close>: \<open>t\<close> is \<open>s\<close> but for such traces, and \<open>p\<close> is still undisturbed.\<close>

definition calm :: "nat \<Rightarrow> 'z pstate_scheme \<Rightarrow> 'z pstate_scheme \<Rightarrow> bool" where
  "calm p s t \<longleftrightarrow> t = s\<lparr>cpus := cpus t, procs := procs t, queue := queue t, q_tail := q_tail t\<rparr> \<and>
     quiet p t \<and> procs t ! p = procs s ! p \<and> length (procs t) = length (procs s)"

lemma calmD: "calm p s t \<Longrightarrow> quiet p t" "calm p s t \<Longrightarrow> procs t ! p = procs s ! p"
  "calm p s t \<Longrightarrow> t = s\<lparr>cpus := cpus t, procs := procs t, queue := queue t, q_tail := q_tail t\<rparr>"
  by (simp_all add: calm_def)

lemma calm_trans: "calm p s t \<Longrightarrow> calm p t u \<Longrightarrow> calm p s u"
  by (cases s, cases t, cases u) (simp add: calm_def)

lemma calm_refl: "quiet p s \<Longrightarrow> calm p s s"
  by (simp add: calm_def)

lemma calm_crit: "quiet p s \<Longrightarrow> calm p s (s\<lparr>cpus := crit s\<rparr>)"
  by (simp add: calm_def quiet_crit)

lemma quiet_slk [simp]: "quiet p (s\<lparr>slk := x\<rparr>) = quiet p s"
  by (simp add: quiet_def)

lemma mypid_eq:
  assumes "mwf s" and "cproc (cpus s ! this_cpu s) = Some p" and "p < length (procs s)"
  shows "mypid s = Ret (pid (procs s ! p)) (s\<lparr>cpus := crit s\<rparr>)"
  using assms by (simp add: mypid_def crit_def)

lemma mypid_locked:
  assumes "quiet p s" and "cpus t = push_cpus (this_cpu s) (hw_if s (lapicid s)) (cpus s)"
    and "hw_if t = if_off (lapicid s) (hw_if s)" and "lapicid t = lapicid s" and "procs t = procs s"
  shows "mypid t = Ret (pid (procs s ! p)) t"
proof -
  note q = quietD [OF assms(1)]
  have i: "this_cpu t = this_cpu s" using assms(2,4) by simp
  have m: "mwf t" using q(1) assms(2-4) by simp
  have c: "cproc (cpus t ! this_cpu t) = Some p" using q(3,9) assms(2) i by simp
  have "crit t = cpus t" using q(1) by (simp add: crit_def i assms(2,4))
  with mypid_eq [OF m c] q(4) assms(5) show ?thesis by simp
qed

text \<open>
  A critical section of an undisturbed process: \<open>inlock lk s\<close> is \<open>s\<close> with the lock \<open>lk\<close> taken. Updates
  the section makes to other fields can be read as made before the lock was taken.
\<close>

definition inlock :: "spinid \<Rightarrow> 'z machine_scheme \<Rightarrow> 'z machine_scheme" where
  "inlock lk s = s\<lparr>cpus := push_cpus (this_cpu s) (hw_if s (lapicid s)) (cpus s),
     hw_if := if_off (lapicid s) (hw_if s), spin := acq_spin (this_cpu s) lk (spin s)\<rparr>"

lemma acquire_quiet: "quiet p s \<Longrightarrow> acquire lk s = Ret () (inlock lk s)"
  by (simp add: inlock_def quietD)

lemma release_quiet: "quiet p s \<Longrightarrow> release lk (inlock lk s) = Ret () (s\<lparr>cpus := crit s\<rparr>)"
  by (simp add: inlock_def crit_def quietD)

lemma mypid_inlock: "quiet p s \<Longrightarrow> mypid (inlock lk s) = Ret (pid (procs s ! p)) (inlock lk s)"
  by (rule mypid_locked) (simp_all add: inlock_def)

lemma inlock_holds: "quiet p s \<Longrightarrow> holds_only lk (spin s) p (inlock lk s)"
  using holds_only_acquire [of s lk p] acquire_quiet [of p s lk] quietD [of p s] by auto

lemma sleep_quiet:
  assumes q: "quiet p s"
  obtains t where "sleep ch lk (inlock lk s) = Swtch t" "sleeping_on ch (procs t ! p)"
    "t = s\<lparr>cpus := cpus t, hw_if := hw_if t, spin := spin t, procs := upd_at p (\<lambda>x. x\<lparr>chan := Some ch, state := SLEEPING\<rparr>) (procs s)\<rparr>"
proof -
  let ?t = "(inlock lk s)\<lparr>spin := acq_spin (this_cpu (inlock lk s)) PtableLk (spin s),
      procs := upd_at p (\<lambda>x. x\<lparr>chan := Some ch, state := SLEEPING\<rparr>) (procs (inlock lk s))\<rparr>"
  have "sleep ch lk (inlock lk s) = Swtch ?t"
    using sleep_eq(1) [OF inlock_holds [OF q], of ch lk] quietD(6) [OF q] by simp
  then show thesis
    by (rule that) (use quietD(4) [OF q] in \<open>simp_all add: inlock_def sleeping_on_def\<close>)
qed

lemma wakeup_quiet:
  assumes q: "quiet p s" and lk: "lk \<noteq> PtableLk"
  obtains t where "wakeup ch (inlock lk s) = Ret () (inlock lk t)" "calm p s t" "procs t = map (woken_proc (ticks s) ch) (procs s)" "cpus t = cpus s"
proof -
  let ?s = "inlock lk s"
  note d = quietD [OF q]
  have "mwf ?s" "spinfree (spin ?s PtableLk)" "policy ?s = MLFQ" "mlfq_inv {} ?s"
    using d lk by (simp_all add: inlock_def)
  then obtain qs ts where w: "wakeup ch ?s = Ret () (?s\<lparr>cpus := crit_cpus (this_cpu ?s) (hw_if ?s (lapicid ?s)) (cpus ?s),
          procs := map (woken_proc (ticks ?s) ch) (procs ?s), queue := qs, q_tail := ts\<rparr>)"
    "mlfq_at {} (map (woken_proc (ticks ?s) ch) (procs ?s)) qs ts"
    by (rule wakeup_eq [of ?s ch]) blast
  let ?ps = "map (woken_proc (ticks s) ch) (procs s)"
  let ?t = "s\<lparr>procs := ?ps, queue := qs, q_tail := ts\<rparr>"
  have "crit_cpus (this_cpu ?s) (hw_if ?s (lapicid ?s)) (cpus ?s) = cpus ?s" using d by (simp add: inlock_def)
  with w(1) have "wakeup ch ?s = Ret () (inlock lk ?t)" by (simp add: inlock_def)
  moreover have pp: "?ps ! p = procs s ! p" using d(4,5) by (simp add: woken_proc_def sleeping_on_def)
  moreover have "quiet p ?t" using q w(2) pp d(4,5) by (simp add: quiet_def inlock_def)
  ultimately show thesis by (intro that [of ?t]) (simp_all add: calm_def)
qed

lemma acquiresleep_free:
  assumes "quiet p s" and "\<not> slocked (slk s l)"
  shows "acquiresleep l s = Ret () (s\<lparr>cpus := crit s,
    slk := (slk s)(l := (slk s l)\<lparr>slocked := True, spid := pid (procs s ! p)\<rparr>)\<rparr>)"
proof -
  note q = quietD [OF assms(1)]
  let ?s = "s\<lparr>cpus := push_cpus (this_cpu s) (hw_if s (lapicid s)) (cpus s),
       hw_if := if_off (lapicid s) (hw_if s), spin := acq_spin (this_cpu s) (SleepLk l) (spin s)\<rparr>"
  have my: "mypid (?s\<lparr>slk := x\<rparr>) = Ret (pid (procs s ! p)) (?s\<lparr>slk := x\<rparr>)" for x
    by (rule mypid_locked [OF assms(1)]) simp_all
  have "acquire (SleepLk l) s = Ret () ?s" using q by simp
  with assms(2) my q show ?thesis
    by (simp add: acquiresleep_def acquiresleep_loop_def upd_slk_def crit_def)
qed

lemma acquiresleep_busy:
  assumes "quiet p s" and "slocked (slk s l)"
  shows "\<exists>t. acquiresleep l s = Swtch t \<and> sleeping_on (SleepChan l) (procs t ! p) \<and> slk t = slk s"
proof -
  note q = quietD [OF assms(1)]
  obtain t where t: "acquire (SleepLk l) s = Ret () t" "holds_only (SleepLk l) (spin s) p t" "procs t = procs s"
    using holds_only_acquire [OF q(1) q(6) q(2,3,4), of "SleepLk l"] by blast
  have "slk t = slk s" using t(1) q by auto
  with t sleep_eq(1) [OF t(2) q(6), of "SleepChan l"] assms(2) q(4) show ?thesis
    by (simp add: acquiresleep_def acquiresleep_loop_def sleeping_on_def)
qed

lemma holdingsleep_eq:
  assumes "quiet p s"
  shows "holdingsleep l s = Ret (slocked (slk s l) \<and> spid (slk s l) = pid (procs s ! p)) (s\<lparr>cpus := crit s\<rparr>)"
proof -
  note q = quietD [OF assms]
  let ?s = "s\<lparr>cpus := push_cpus (this_cpu s) (hw_if s (lapicid s)) (cpus s),
       hw_if := if_off (lapicid s) (hw_if s), spin := acq_spin (this_cpu s) (SleepLk l) (spin s)\<rparr>"
  have my: "mypid ?s = Ret (pid (procs s ! p)) ?s"
    by (rule mypid_locked [OF assms]) simp_all
  have "acquire (SleepLk l) s = Ret () ?s" using q by simp
  with my q show ?thesis by (simp add: holdingsleep_def crit_def)
qed

lemma releasesleep_eq:
  assumes "quiet p s"
  shows "\<exists>t. releasesleep l s = Ret () t \<and>
    calm p (s\<lparr>slk := (slk s)(l := (slk s l)\<lparr>slocked := False, spid := 0\<rparr>)\<rparr>) t \<and>
    procs t = map (woken_proc (ticks s) (SleepChan l)) (procs s)"
proof -
  note q = quietD [OF assms]
  let ?x = "(slk s)(l := (slk s l)\<lparr>slocked := False, spid := 0\<rparr>)"
  let ?s = "s\<lparr>cpus := push_cpus (this_cpu s) (hw_if s (lapicid s)) (cpus s),
       hw_if := if_off (lapicid s) (hw_if s), spin := acq_spin (this_cpu s) (SleepLk l) (spin s)\<rparr>"
  let ?u = "?s\<lparr>slk := ?x\<rparr>"
  have pre: "mwf ?u" "spinfree (spin ?u PtableLk)" "policy ?u = MLFQ" "mlfq_inv {} ?u" using q by simp_all
  obtain qs ts where w: "wakeup (SleepChan l) ?u = Ret () (?u\<lparr>cpus := crit_cpus (this_cpu ?u) (hw_if ?u (lapicid ?u)) (cpus ?u),
          procs := map (woken_proc (ticks ?u) (SleepChan l)) (procs ?u), queue := qs, q_tail := ts\<rparr>)"
    "mlfq_at {} (map (woken_proc (ticks ?u) (SleepChan l)) (procs ?u)) qs ts"
    using wakeup_eq [OF pre, of "SleepChan l"] by metis
  let ?ps = "map (woken_proc (ticks s) (SleepChan l)) (procs s)"
  let ?t = "s\<lparr>cpus := crit s, slk := ?x, procs := ?ps, queue := qs, q_tail := ts\<rparr>"
  have c: "crit_cpus (this_cpu ?u) (hw_if ?u (lapicid ?u)) (cpus ?u) = cpus ?u" using q by simp
  have "releasesleep l s = Ret () ?t"
    using w(1) q unfolding c by (simp add: releasesleep_def upd_slk_def crit_def)
  moreover have pp: "?ps ! p = procs s ! p" using q(4,5) by (simp add: woken_proc_def sleeping_on_def)
  moreover have "quiet p (s\<lparr>cpus := crit s\<rparr>)" by (rule quiet_crit [OF assms])
  then have "quiet p ?t" using w(2) pp q(4,5) by (simp add: quiet_def)
  ultimately show ?thesis by (intro exI [of _ ?t]) (simp add: calm_def)
qed

section \<open>Properties\<close>

text \<open>
  C4: A sleep lock has one holder. \<open>acquiresleep\<close> on a free lock returns with the lock held by the
  calling process; on a lock that is held it does not return: the caller is left asleep on the lock
  and the lock is unchanged. \<open>holdingsleep\<close> tells exactly whether the caller is the holder. The
  holder's \<open>releasesleep\<close> frees the lock and leaves no process asleep on it, and whoever calls
  \<open>acquiresleep\<close> next gets it.
\<close>

theorem sleeplock_one_holder:
  assumes "quiet p s"
  shows "(slocked (slk s l) \<longrightarrow> (\<exists>t. acquiresleep l s = Swtch t \<and> sleeping_on (SleepChan l) (procs t ! p) \<and> slk t = slk s)) \<and>
    (\<not> slocked (slk s l) \<longrightarrow> (\<exists>t u v. acquiresleep l s = Ret () t \<and> slocked (slk t l) \<and> spid (slk t l) = pid (procs s ! p) \<and>
      (\<exists>t'. holdingsleep l t = Ret True t') \<and>
      releasesleep l t = Ret () u \<and> \<not> slocked (slk u l) \<and> (\<exists>u'. holdingsleep l u = Ret False u') \<and>
      (\<forall>x < length (procs u). \<not> sleeping_on (SleepChan l) (procs u ! x)) \<and>
      acquiresleep l u = Ret () v))"
proof (intro conjI impI)
  assume "slocked (slk s l)"
  then show "\<exists>t. acquiresleep l s = Swtch t \<and> sleeping_on (SleepChan l) (procs t ! p) \<and> slk t = slk s"
    by (rule acquiresleep_busy [OF assms])
next
  assume free: "\<not> slocked (slk s l)"
  let ?t = "s\<lparr>cpus := crit s, slk := (slk s)(l := (slk s l)\<lparr>slocked := True, spid := pid (procs s ! p)\<rparr>)\<rparr>"
  have qt: "quiet p ?t" using quiet_crit [OF assms] by simp
  have acq: "acquiresleep l s = Ret () ?t" by (rule acquiresleep_free [OF assms free])
  obtain u where u: "releasesleep l ?t = Ret () u"
    "calm p (?t\<lparr>slk := (slk ?t)(l := (slk ?t l)\<lparr>slocked := False, spid := 0\<rparr>)\<rparr>) u"
    "procs u = map (woken_proc (ticks ?t) (SleepChan l)) (procs ?t)"
    using releasesleep_eq [OF qt] by blast
  have slk: "slk u l = (slk s l)\<lparr>slocked := False, spid := 0\<rparr>"
    by (subst calmD(3) [OF u(2)]) simp
  have qu: "quiet p u" by (rule calmD(1) [OF u(2)])
  have none: "\<forall>x < length (procs u). \<not> sleeping_on (SleepChan l) (procs u ! x)"
    unfolding u(3) by (simp add: woken_proc_def sleeping_on_def)
  note h = holdingsleep_eq [OF qt, of l] holdingsleep_eq [OF qu, of l]
  have "acquiresleep l u = Ret () (u\<lparr>cpus := crit u,
      slk := (slk u)(l := (slk u l)\<lparr>slocked := True, spid := pid (procs u ! p)\<rparr>)\<rparr>)"
    by (rule acquiresleep_free [OF qu]) (simp add: slk)
  then show "\<exists>t u v. acquiresleep l s = Ret () t \<and> slocked (slk t l) \<and> spid (slk t l) = pid (procs s ! p) \<and>
      (\<exists>t'. holdingsleep l t = Ret True t') \<and>
      releasesleep l t = Ret () u \<and> \<not> slocked (slk u l) \<and> (\<exists>u'. holdingsleep l u = Ret False u') \<and>
      (\<forall>x < length (procs u). \<not> sleeping_on (SleepChan l) (procs u ! x)) \<and>
      acquiresleep l u = Ret () v"
    using acq u(1) h slk none by (intro exI [of _ ?t] exI [of _ u] exI conjI) (assumption | simp)+
qed

text \<open>A running process and a free sleep lock, for examples.\<close>

definition ex_sl :: sl_state where
  "ex_sl = pstate.extend ex_run \<lparr>slk = (\<lambda>_. \<lparr>slocked = False, slname = [], spid = 0\<rparr>)\<rparr>"

lemma ex_sl_quiet: "quiet 0 ex_sl"
  using ex_run_inv
  by (simp add: quiet_def ex_sl_def pstate.defs ex_run_def ex_pstate_def ex_cpu_def ex_proc_def mwf_at_def
      this_idx_def spinfree_def)

theorem sleeplock_one_holder_witness:
  "\<exists>t u v. acquiresleep (BufSl 3) ex_sl = Ret () t \<and> slocked (slk t (BufSl 3)) \<and> releasesleep (BufSl 3) t = Ret () u \<and>
     \<not> slocked (slk u (BufSl 3)) \<and> acquiresleep (BufSl 3) u = Ret () v"
proof -
  have "\<not> slocked (slk ex_sl (BufSl 3))"
    by (simp add: ex_sl_def pstate.defs ex_run_def ex_pstate_def ex_proc_def)
  with sleeplock_one_holder [OF ex_sl_quiet, of "BufSl 3"] show ?thesis by blast
qed

end
