(* ===== verification/Bio.thy ===== *)
theory Bio
  imports Sleeplock
begin

text \<open>
  Model of \<open>bio.c\<close>, the buffer cache, over the disk of \<open>memide.c\<close>, which the \<open>kernelmemfs\<close> image
  links in place of \<open>ide.c\<close>: its \<open>iderw\<close> copies a block between the buffer and an image in
  memory and does not sleep. The interrupt-driven driver \<open>ide.c\<close> is modelled in \<open>Ide\<close>.

  A \<open>struct buf *\<close> is an index into \<open>bufs\<close>; in the list pointers \<open>None\<close> is \<open>&bcache.head\<close>.
  \<open>disk\<close> holds the blocks of the disk image. \<open>writes\<close> is not a variable of the program: it records the
  block writes the disk has received, oldest first, so that crashes between two writes can be spoken of.
\<close>

section \<open>State\<close>

type_synonym block = "byte list"

record buf =
  bflags :: uint
  bdev :: uint
  blockno :: uint
  brefcnt :: uint
  bprev :: "nat option"
  bnext :: "nat option"
  qnext :: "nat option"
  bdata :: block

record bio_state = sl_state +
  bufs :: "buf list"
  head_prev :: "nat option"
  head_next :: "nat option"
  disk :: "block list"
  writes :: "(nat \<times> block) list"

abbreviation BSIZE :: nat where "BSIZE \<equiv> 512"
abbreviation B_VALID :: uint where "B_VALID \<equiv> 2"
abbreviation B_DIRTY :: uint where "B_DIRTY \<equiv> 4"

definition getb :: "nat \<Rightarrow> ('z bio_state_scheme, buf) kfun" where
  "getb i = (\<lambda>s. if i < length (bufs s) then Ret (bufs s ! i) s else Stop (Undef ''buf pointer''))"

definition updb :: "nat \<Rightarrow> (buf \<Rightarrow> buf) \<Rightarrow> ('z bio_state_scheme, unit) kfun" where
  "updb i f = modify (\<lambda>s. s\<lparr>bufs := upd_at i f (bufs s)\<rparr>)"

text \<open>Assignments through a list pointer: to a buffer or to the list head.\<close>

definition set_next :: "nat option \<Rightarrow> nat option \<Rightarrow> ('z bio_state_scheme, unit) kfun" where
  "set_next b v = (case b of
       None \<Rightarrow> modify (\<lambda>s. s\<lparr>head_next := v\<rparr>)
     | Some i \<Rightarrow> updb i (\<lambda>x. x\<lparr>bnext := v\<rparr>))"

definition set_prev :: "nat option \<Rightarrow> nat option \<Rightarrow> ('z bio_state_scheme, unit) kfun" where
  "set_prev b v = (case b of
       None \<Rightarrow> modify (\<lambda>s. s\<lparr>head_prev := v\<rparr>)
     | Some i \<Rightarrow> updb i (\<lambda>x. x\<lparr>bprev := v\<rparr>))"

section \<open>Operations\<close>

text \<open>The last four assignments of \<open>brelse\<close>: the buffer is inserted at the front of the list.\<close>

definition push_front :: "nat \<Rightarrow> ('z bio_state_scheme, unit) kfun" where
  "push_front b =
     mbind (gets head_next) (\<lambda>n.
     mbind (updb b (\<lambda>x. x\<lparr>bnext := n\<rparr>)) (\<lambda>_.
     mbind (updb b (\<lambda>x. x\<lparr>bprev := None\<rparr>)) (\<lambda>_.
     mbind (gets head_next) (\<lambda>n.
     mbind (set_prev n (Some b)) (\<lambda>_.
     set_next None (Some b))))))"

definition binit :: "('z bio_state_scheme, unit) kfun" where
  "binit =
     mbind (initlock BcacheLk ''bcache'') (\<lambda>_.
     mbind (set_prev None None) (\<lambda>_.
     mbind (set_next None None) (\<lambda>_.
     mbind (gets (\<lambda>s. length (bufs s))) (\<lambda>n.
     mforeach [0..<n] (\<lambda>b.
       mbind (gets head_next) (\<lambda>h.
       mbind (updb b (\<lambda>x. x\<lparr>bnext := h\<rparr>)) (\<lambda>_.
       mbind (updb b (\<lambda>x. x\<lparr>bprev := None\<rparr>)) (\<lambda>_.
       mbind (initsleeplock (BufSl b) ''buffer'') (\<lambda>_.
       mbind (gets head_next) (\<lambda>h.
       mbind (set_prev h (Some b)) (\<lambda>_.
       set_next None (Some b))))))))))))"

text \<open>
  \<open>iderw\<close> of \<open>memide.c\<close>. \<open>disksize\<close> is the number of blocks of the image.
\<close>

definition iderw :: "nat \<Rightarrow> ('z bio_state_scheme, unit) kfun" where
  "iderw b =
     mbind (holdingsleep (BufSl b)) (\<lambda>h.
     if \<not> h then panic ''iderw: buf not locked'' else
     mbind (getb b) (\<lambda>x.
     if bflags x AND (B_VALID OR B_DIRTY) = B_VALID then panic ''iderw: nothing to do'' else
     if bdev x \<noteq> 1 then panic ''iderw: request not for disk 1'' else
     mbind (gets (\<lambda>s. length (disk s))) (\<lambda>disksize.
     if unat (blockno x) \<ge> disksize then panic ''iderw: block out of range'' else
     let p = unat (blockno x) in
     mbind (if bflags x AND B_DIRTY \<noteq> 0 then
              mbind (updb b (\<lambda>x. x\<lparr>bflags := bflags x AND NOT B_DIRTY\<rparr>)) (\<lambda>_.
              modify (\<lambda>s. s\<lparr>disk := (disk s)[p := bdata x], writes := writes s @ [(p, bdata x)]\<rparr>))
            else mbind (gets (\<lambda>s. disk s ! p)) (\<lambda>d. updb b (\<lambda>x. x\<lparr>bdata := d\<rparr>))) (\<lambda>_.
     updb b (\<lambda>x. x\<lparr>bflags := bflags x OR B_VALID\<rparr>)))))"

text \<open>The two searches of \<open>bget\<close>. The list has one node per buffer, so \<open>n\<close> steps reach its head.\<close>

fun bget_cached :: "nat \<Rightarrow> nat option \<Rightarrow> uint \<Rightarrow> uint \<Rightarrow> ('z bio_state_scheme, nat option) kfun" where
  "bget_cached n None dev bn = ret None"
| "bget_cached 0 (Some b) dev bn = undef ''buffer list does not return to its head''"
| "bget_cached (Suc n) (Some b) dev bn =
     mbind (getb b) (\<lambda>x.
     if bdev x = dev \<and> blockno x = bn then ret (Some b) else bget_cached n (bnext x) dev bn)"

fun bget_unused :: "nat \<Rightarrow> nat option \<Rightarrow> ('z bio_state_scheme, nat option) kfun" where
  "bget_unused n None = ret None"
| "bget_unused 0 (Some b) = undef ''buffer list does not return to its head''"
| "bget_unused (Suc n) (Some b) =
     mbind (getb b) (\<lambda>x.
     if brefcnt x = 0 \<and> bflags x AND B_DIRTY = 0 then ret (Some b) else bget_unused n (bprev x))"

definition bget :: "uint \<Rightarrow> uint \<Rightarrow> ('z bio_state_scheme, nat) kfun" where
  "bget dev bn =
     mbind (acquire BcacheLk) (\<lambda>_.
     mbind (gets (\<lambda>s. (length (bufs s), head_next s))) (\<lambda>(n, h).
     mbind (bget_cached n h dev bn) (\<lambda>r. case r of
       Some b \<Rightarrow>
         mbind (updb b (\<lambda>x. x\<lparr>brefcnt := brefcnt x + 1\<rparr>)) (\<lambda>_.
         mbind (release BcacheLk) (\<lambda>_.
         mbind (acquiresleep (BufSl b)) (\<lambda>_.
         ret b)))
     | None \<Rightarrow>
         mbind (gets head_prev) (\<lambda>h.
         mbind (bget_unused n h) (\<lambda>r. case r of
           Some b \<Rightarrow>
             mbind (updb b (\<lambda>x. x\<lparr>bdev := dev, blockno := bn, bflags := 0, brefcnt := 1\<rparr>)) (\<lambda>_.
             mbind (release BcacheLk) (\<lambda>_.
             mbind (acquiresleep (BufSl b)) (\<lambda>_.
             ret b)))
         | None \<Rightarrow> panic ''bget: no buffers'')))))"

definition bread :: "uint \<Rightarrow> uint \<Rightarrow> ('z bio_state_scheme, nat) kfun" where
  "bread dev bn =
     mbind (bget dev bn) (\<lambda>b.
     mbind (getb b) (\<lambda>x.
     mbind (if bflags x AND B_VALID = 0 then iderw b else ret ()) (\<lambda>_.
     ret b)))"

definition bwrite :: "nat \<Rightarrow> ('z bio_state_scheme, unit) kfun" where
  "bwrite b =
     mbind (holdingsleep (BufSl b)) (\<lambda>h.
     if \<not> h then panic ''bwrite'' else
     mbind (updb b (\<lambda>x. x\<lparr>bflags := bflags x OR B_DIRTY\<rparr>)) (\<lambda>_.
     iderw b))"

text \<open>What \<open>brelse\<close> does with a buffer no one is waiting for: unlink it and insert it at the front.\<close>

definition move_front :: "nat \<Rightarrow> ('z bio_state_scheme, unit) kfun" where
  "move_front b =
     mbind (getb b) (\<lambda>x.
     mbind (set_prev (bnext x) (bprev x)) (\<lambda>_.
     mbind (getb b) (\<lambda>x.
     mbind (set_next (bprev x) (bnext x)) (\<lambda>_.
     push_front b))))"

definition brelse :: "nat \<Rightarrow> ('z bio_state_scheme, unit) kfun" where
  "brelse b =
     mbind (holdingsleep (BufSl b)) (\<lambda>h.
     if \<not> h then panic ''brelse'' else
     mbind (releasesleep (BufSl b)) (\<lambda>_.
     mbind (acquire BcacheLk) (\<lambda>_.
     mbind (updb b (\<lambda>x. x\<lparr>brefcnt := brefcnt x - 1\<rparr>)) (\<lambda>_.
     mbind (getb b) (\<lambda>x.
     mbind (if brefcnt x = 0 then move_front b else ret ()) (\<lambda>_.
     release BcacheLk))))))"

section \<open>The buffer list\<close>

text \<open>
  \<open>nseg bs a xs c\<close>: starting at pointer \<open>a\<close> the \<open>next\<close> fields lead through the buffers \<open>xs\<close> to
  pointer \<open>c\<close>; \<open>pseg\<close> is the same for \<open>prev\<close>.
\<close>

fun nseg :: "buf list \<Rightarrow> nat option \<Rightarrow> nat list \<Rightarrow> nat option \<Rightarrow> bool" where
  "nseg bs a [] c \<longleftrightarrow> a = c"
| "nseg bs a (x # xs) c \<longleftrightarrow> a = Some x \<and> nseg bs (bnext (bs ! x)) xs c"

fun pseg :: "buf list \<Rightarrow> nat option \<Rightarrow> nat list \<Rightarrow> nat option \<Rightarrow> bool" where
  "pseg bs a [] c \<longleftrightarrow> a = c"
| "pseg bs a (x # xs) c \<longleftrightarrow> a = Some x \<and> pseg bs (bprev (bs ! x)) xs c"

lemma nseg_append: "nseg bs a (xs @ ys) c \<longleftrightarrow> (\<exists>b. nseg bs a xs b \<and> nseg bs b ys c)"
  by (induction xs arbitrary: a) auto

lemma pseg_append: "pseg bs a (xs @ ys) c \<longleftrightarrow> (\<exists>b. pseg bs a xs b \<and> pseg bs b ys c)"
  by (induction xs arbitrary: a) auto

lemma nseg_cong: "(\<And>x. x \<in> set xs \<Longrightarrow> bnext (bs ! x) = bnext (cs ! x)) \<Longrightarrow> nseg bs a xs c = nseg cs a xs c"
  by (induction xs arbitrary: a) auto

lemma pseg_cong: "(\<And>x. x \<in> set xs \<Longrightarrow> bprev (bs ! x) = bprev (cs ! x)) \<Longrightarrow> pseg bs a xs c = pseg cs a xs c"
  by (induction xs arbitrary: a) auto


text \<open>The doubly linked list from the list head holds the buffers \<open>ord\<close>, most recently used first.\<close>

definition dll :: "buf list \<Rightarrow> nat option \<Rightarrow> nat option \<Rightarrow> nat list \<Rightarrow> bool" where
  "dll bs hn hp ord \<longleftrightarrow> nseg bs hn ord None \<and> pseg bs hp (rev ord) None \<and> distinct ord \<and>
     set ord \<subseteq> {..<length bs}"

text \<open>Buffers agree in everything but the list pointers.\<close>

definition same_buf :: "buf \<Rightarrow> buf \<Rightarrow> bool" where
  "same_buf x y \<longleftrightarrow> y = x\<lparr>bprev := bprev y, bnext := bnext y\<rparr>"

definition same_bufs :: "buf list \<Rightarrow> buf list \<Rightarrow> bool" where
  "same_bufs bs cs \<longleftrightarrow> list_all2 same_buf bs cs"

lemma same_buf_refl [simp]: "same_buf x x"
  by (simp add: same_buf_def)

lemma same_buf_trans: "same_buf x y \<Longrightarrow> same_buf y z \<Longrightarrow> same_buf x z"
  by (cases x, cases y, cases z) (simp add: same_buf_def)

lemma same_bufs_refl [simp]: "same_bufs bs bs"
  by (simp add: same_bufs_def list_all2_refl)

lemma same_bufs_trans: "same_bufs a b \<Longrightarrow> same_bufs b c \<Longrightarrow> same_bufs a c"
  unfolding same_bufs_def by (rule list_all2_trans [OF same_buf_trans])

lemma same_bufs_upd: "(\<And>x. same_buf x (f x)) \<Longrightarrow> same_bufs bs (upd_at i f bs)"
  by (auto simp: same_bufs_def list_all2_conv_all_nth nth_upd_at)

lemma same_bufs_ptr [simp]:
  "same_bufs bs (upd_at i (\<lambda>x. x\<lparr>bnext := v\<rparr>) bs)" "same_bufs bs (upd_at i (\<lambda>x. x\<lparr>bprev := v\<rparr>) bs)"
  "same_bufs bs (upd_at i (\<lambda>x. x\<lparr>bnext := v, bprev := w\<rparr>) bs)"
  "same_bufs bs (upd_at i (\<lambda>x. x\<lparr>bprev := w, bnext := v\<rparr>) bs)"
  by (rule same_bufs_upd, simp add: same_buf_def)+

lemma same_bufs_length: "same_bufs bs cs \<Longrightarrow> length cs = length bs"
  by (simp add: same_bufs_def list_all2_lengthD)

lemma same_bufs_nth:
  "same_bufs bs cs \<Longrightarrow> i < length bs \<Longrightarrow> cs ! i = (bs ! i)\<lparr>bprev := bprev (cs ! i), bnext := bnext (cs ! i)\<rparr>"
  by (simp add: same_bufs_def list_all2_conv_all_nth same_buf_def)

lemma same_bufsD:
  "same_bufs bs cs \<Longrightarrow> i < length bs \<Longrightarrow> bflags (cs ! i) = bflags (bs ! i)"
  "same_bufs bs cs \<Longrightarrow> i < length bs \<Longrightarrow> bdev (cs ! i) = bdev (bs ! i)"
  "same_bufs bs cs \<Longrightarrow> i < length bs \<Longrightarrow> blockno (cs ! i) = blockno (bs ! i)"
  "same_bufs bs cs \<Longrightarrow> i < length bs \<Longrightarrow> brefcnt (cs ! i) = brefcnt (bs ! i)"
  "same_bufs bs cs \<Longrightarrow> i < length bs \<Longrightarrow> bdata (cs ! i) = bdata (bs ! i)"
  using arg_cong [OF same_bufs_nth, of bs cs i bflags] arg_cong [OF same_bufs_nth, of bs cs i bdev]
    arg_cong [OF same_bufs_nth, of bs cs i blockno] arg_cong [OF same_bufs_nth, of bs cs i brefcnt]
    arg_cong [OF same_bufs_nth, of bs cs i bdata]
  by simp_all

lemma set_ptr_simps [simp]:
  "set_next None v s = Ret () (s\<lparr>head_next := v\<rparr>)"
  "set_prev None v s = Ret () (s\<lparr>head_prev := v\<rparr>)"
  "set_next (Some i) v s = Ret () (s\<lparr>bufs := upd_at i (\<lambda>x. x\<lparr>bnext := v\<rparr>) (bufs s)\<rparr>)"
  "set_prev (Some i) v s = Ret () (s\<lparr>bufs := upd_at i (\<lambda>x. x\<lparr>bprev := v\<rparr>) (bufs s)\<rparr>)"
  by (simp_all add: set_next_def set_prev_def updb_def)

lemma nseg_upd_prev [simp]: "nseg (upd_at i (\<lambda>x. x\<lparr>bprev := v\<rparr>) bs) a xs c = nseg bs a xs c"
  by (rule nseg_cong) (auto simp: upd_at_def nth_list_update)

lemma pseg_upd_next [simp]: "pseg (upd_at i (\<lambda>x. x\<lparr>bnext := v\<rparr>) bs) a xs c = pseg bs a xs c"
  by (rule pseg_cong) (auto simp: upd_at_def nth_list_update)

lemma seg_upd_notin [simp]:
  "i \<notin> set xs \<Longrightarrow> nseg (upd_at i f bs) a xs c = nseg bs a xs c"
  "i \<notin> set xs \<Longrightarrow> pseg (upd_at i f bs) a xs c = pseg bs a xs c"
  by (rule nseg_cong, simp add: upd_at_def nth_list_update split: if_splits, metis)
     (rule pseg_cong, simp add: upd_at_def nth_list_update split: if_splits, metis)

lemma push_front_dll:
  assumes d: "dll (bufs s) (head_next s) (head_prev s) ord" and b: "b \<notin> set ord" "b < length (bufs s)"
  shows "\<exists>bs hn hp. push_front b s = Ret () (s\<lparr>bufs := bs, head_next := hn, head_prev := hp\<rparr>) \<and>
    dll bs hn hp (b # ord) \<and> same_bufs (bufs s) bs"
proof (cases ord)
  case Nil
  then have "head_next s = None" using d by (simp add: dll_def)
  with Nil b show ?thesis
    by (intro exI [of _ "upd_at b (\<lambda>x. x\<lparr>bnext := None, bprev := None\<rparr>) (bufs s)"] exI [of _ "Some b"])
       (simp add: push_front_def updb_def dll_def)
next
  case (Cons y ys)
  let ?bs = "upd_at y (\<lambda>x. x\<lparr>bprev := Some b\<rparr>) (upd_at b (\<lambda>x. x\<lparr>bnext := Some y, bprev := None\<rparr>) (bufs s))"
  have h: "head_next s = Some y" and yb: "y \<noteq> b" "y < length (bufs s)" using d b Cons by (auto simp: dll_def)
  have "dll ?bs (Some b) (head_prev s) (b # ord)"
    using d b Cons yb by (auto simp: dll_def pseg_append)
  moreover have "same_bufs (bufs s) ?bs"
    by (rule same_bufs_trans [OF same_bufs_ptr(3) same_bufs_ptr(2)])
  ultimately show ?thesis using h
    by (intro exI [of _ ?bs] exI [of _ "Some b"] exI [of _ "head_prev s"]) (simp add: push_front_def updb_def)
qed

text \<open>Unlinking a buffer, as \<open>brelse\<close> does before it inserts it at the front.\<close>

definition put_next :: "nat option \<Rightarrow> nat option \<Rightarrow> buf list \<Rightarrow> buf list" where
  "put_next q v bs = (case q of None \<Rightarrow> bs | Some i \<Rightarrow> upd_at i (\<lambda>x. x\<lparr>bnext := v\<rparr>) bs)"

definition put_prev :: "nat option \<Rightarrow> nat option \<Rightarrow> buf list \<Rightarrow> buf list" where
  "put_prev q v bs = (case q of None \<Rightarrow> bs | Some i \<Rightarrow> upd_at i (\<lambda>x. x\<lparr>bprev := v\<rparr>) bs)"

lemma put_seg [simp]:
  "nseg (put_prev q v bs) a xs c = nseg bs a xs c" "pseg (put_next q v bs) a xs c = pseg bs a xs c"
  by (simp_all add: put_prev_def put_next_def split: option.split)

lemma put_same: "same_bufs bs (put_prev q v bs)" "same_bufs bs (put_next q v bs)"
  by (simp_all add: put_prev_def put_next_def split: option.split)

lemma length_put [simp]: "length (put_prev q v bs) = length bs" "length (put_next q v bs) = length bs"
  by (simp_all add: put_prev_def put_next_def split: option.split)

lemma put_comm: "put_next q v (put_prev r w bs) = put_prev r w (put_next q v bs)"
  by (cases q; cases r) (auto simp: put_next_def put_prev_def intro!: nth_equalityI simp: nth_upd_at)

lemma nseg_unlink:
  assumes "nseg bs h xs (Some b)" and "nseg bs (bnext (bs ! b)) ys None" and "pseg bs p (rev xs) None"
    and "distinct (xs @ b # ys)" and "set xs \<subseteq> {..<length bs}"
  shows "nseg (put_next p (bnext (bs ! b)) bs) (if p = None then bnext (bs ! b) else h) (xs @ ys) None"
proof (cases xs rule: rev_cases)
  case Nil
  with assms show ?thesis by (simp add: put_next_def)
next
  case (snoc us u)
  then have "p = Some u" using assms(3) by simp
  moreover have "nseg bs h us (Some u)" using assms(1) snoc by (simp add: nseg_append)
  ultimately show ?thesis using assms(2,4,5) snoc by (simp add: put_next_def nseg_append)
qed

lemma pseg_unlink:
  assumes "pseg bs h (rev ys) (Some b)" and "pseg bs (bprev (bs ! b)) (rev xs) None" and "nseg bs n ys None"
    and "distinct (xs @ b # ys)" and "set ys \<subseteq> {..<length bs}"
  shows "pseg (put_prev n (bprev (bs ! b)) bs) (if n = None then bprev (bs ! b) else h) (rev ys @ rev xs) None"
proof (cases ys)
  case Nil
  with assms show ?thesis by (simp add: put_prev_def)
next
  case (Cons v vs)
  then have "n = Some v" using assms(3) by simp
  moreover have "pseg bs h (rev vs) (Some v)" using assms(1) Cons by (simp add: pseg_append)
  ultimately show ?thesis using assms(2,4,5) Cons by (simp add: put_prev_def pseg_append)
qed

lemma dll_unlink:
  assumes d: "dll bs hn hp (xs @ b # ys)"
  defines "n \<equiv> bnext (bs ! b)" and "p \<equiv> bprev (bs ! b)"
  shows "dll (put_next p n (put_prev n p bs)) (if p = None then n else hn) (if n = None then p else hp) (xs @ ys)"
    and "put_prev n p bs ! b = bs ! b"
proof -
  from d have nn: "nseg bs hn xs (Some b)" "nseg bs n ys None"
    and pp: "pseg bs hp (rev ys) (Some b)" "pseg bs p (rev xs) None"
    and di: "distinct (xs @ b # ys)" and l: "set (xs @ b # ys) \<subseteq> {..<length bs}"
    by (auto simp: dll_def nseg_append pseg_append n_def p_def)
  have b: "n \<noteq> Some b" using nn(2) di by (cases ys) auto
  then show same: "put_prev n p bs ! b = bs ! b" by (cases n) (auto simp: put_prev_def)
  have "nseg (put_next p n (put_prev n p bs)) (if p = None then n else hn) (xs @ ys) None"
    using nseg_unlink [of bs hn xs b ys p] nn pp di l unfolding n_def [symmetric] put_comm by simp
  moreover have "pseg (put_next p n (put_prev n p bs)) (if n = None then p else hp) (rev ys @ rev xs) None"
    using pseg_unlink [of bs hp ys b xs n] nn pp di l unfolding p_def [symmetric] by simp
  ultimately show "dll (put_next p n (put_prev n p bs)) (if p = None then n else hn) (if n = None then p else hp) (xs @ ys)"
    using di l by (simp add: dll_def)
qed

lemma set_next_eq: "set_next q v s = Ret () (s\<lparr>bufs := put_next q v (bufs s), head_next := if q = None then v else head_next s\<rparr>)"
  by (cases q) (simp_all add: put_next_def)

lemma set_prev_eq: "set_prev q v s = Ret () (s\<lparr>bufs := put_prev q v (bufs s), head_prev := if q = None then v else head_prev s\<rparr>)"
  by (cases q) (simp_all add: put_prev_def)

lemma move_front_dll:
  assumes d: "dll (bufs s) (head_next s) (head_prev s) (xs @ b # ys)"
  shows "\<exists>bs hn hp. move_front b s = Ret () (s\<lparr>bufs := bs, head_next := hn, head_prev := hp\<rparr>) \<and>
    dll bs hn hp (b # xs @ ys) \<and> same_bufs (bufs s) bs"
proof -
  let ?n = "bnext (bufs s ! b)" and ?p = "bprev (bufs s ! b)"
  define bs where "bs = put_next ?p ?n (put_prev ?n ?p (bufs s))"
  define hn where "hn = (if ?p = None then ?n else head_next s)"
  define hp where "hp = (if ?n = None then ?p else head_prev s)"
  let ?s = "s\<lparr>bufs := bs, head_next := hn, head_prev := hp\<rparr>"
  have b: "b < length (bufs s)" "b \<notin> set (xs @ ys)" using d by (auto simp: dll_def)
  have sb: "same_bufs (bufs s) bs" unfolding bs_def by (rule same_bufs_trans [OF put_same])
  have dd: "dll (bufs ?s) (head_next ?s) (head_prev ?s) (xs @ ys)"
    using dll_unlink(1) [OF d] by (simp add: bs_def hn_def hp_def)
  obtain cs kn kp where c: "push_front b ?s = Ret () (?s\<lparr>bufs := cs, head_next := kn, head_prev := kp\<rparr>)"
    "dll cs kn kp (b # xs @ ys)" "same_bufs bs cs"
    using push_front_dll [OF dd b(2)] b(1) by (auto simp: bs_def)
  have "move_front b s = push_front b ?s"
    using b(1) dll_unlink(2) [OF d]
    by (auto simp: move_front_def set_prev_eq set_next_eq getb_def bs_def hn_def hp_def intro!: arg_cong [where f = "push_front b"])
  with c sb show ?thesis by (auto intro: same_bufs_trans)
qed

section \<open>The contents of the cache\<close>

abbreviation valid :: "buf \<Rightarrow> bool" where "valid x \<equiv> bflags x AND B_VALID \<noteq> 0"
abbreviation dirty :: "buf \<Rightarrow> bool" where "dirty x \<equiv> bflags x AND B_DIRTY \<noteq> 0"

lemma flag_bit: "(f AND 4 = (0 :: uint)) = (\<not> bit f 2)" "(f AND 2 = (0 :: uint)) = (\<not> bit f 1)"
  using and_exp_eq_0_iff_not_bit [of f 2] and_exp_eq_0_iff_not_bit [of f 1] by simp_all

lemma flag_and: "f AND 4 = (if bit f 2 then 4 else (0 :: uint))" "f AND 2 = (if bit f 1 then 2 else (0 :: uint))"
proof -
  have "f AND 2 ^ n = (if bit f n then 2 ^ n else 0)" for n
    by (rule bit_eqI) (auto simp: bit_simps)
  from this [of 2] this [of 1] show "f AND 4 = (if bit f 2 then 4 else 0)" "f AND 2 = (if bit f 1 then 2 else 0)"
    by simp_all
qed

lemma flag_simps [simp]:
  "(f OR 4) AND 4 \<noteq> (0 :: uint)" "(f OR 2) AND 2 \<noteq> (0 :: uint)"
  "((f OR 4) AND 2 = (0 :: uint)) = (f AND 2 = 0)" "((f OR 2) AND 4 = (0 :: uint)) = (f AND 4 = 0)"
  "((f AND - 5) AND 2 = (0 :: uint)) = (f AND 2 = 0)" "(f AND - 5) AND 4 = (0 :: uint)"
proof -
  have n: "(- 5 :: uint) = NOT 4" by simp
  show "(f OR 4) AND 4 \<noteq> (0 :: uint)" "(f OR 2) AND 2 \<noteq> (0 :: uint)"
    "((f OR 4) AND 2 = (0 :: uint)) = (f AND 2 = 0)" "((f OR 2) AND 4 = (0 :: uint)) = (f AND 4 = 0)"
    "((f AND - 5) AND 2 = (0 :: uint)) = (f AND 2 = 0)" "(f AND - 5) AND 4 = (0 :: uint)"
    unfolding n by (simp_all only: flag_bit) (simp_all add: bit_simps)
qed

lemma flag_both [simp]: "(f AND 6 = (2 :: uint)) = (f AND 2 \<noteq> 0 \<and> f AND 4 = 0)"
proof -
  have "f AND 6 = f AND 2 OR f AND (4 :: uint)"
    using bit.conj_disj_distrib [of f 2 4] by simp
  then show ?thesis by (simp add: flag_and)
qed

lemma quiet_bio [simp]: "quiet p (s\<lparr>bufs := x\<rparr>) = quiet p s" "quiet p (s\<lparr>head_next := y\<rparr>) = quiet p s"
  "quiet p (s\<lparr>head_prev := y\<rparr>) = quiet p s" "quiet p (s\<lparr>disk := d\<rparr>) = quiet p s" "quiet p (s\<lparr>writes := w\<rparr>) = quiet p s"
  by (simp_all add: quiet_def)

text \<open>The buffer that holds block \<open>bn\<close> of the disk.\<close>

definition slot :: "buf list \<Rightarrow> uint \<Rightarrow> nat option" where
  "slot bs bn = find_idx (\<lambda>x. bdev x = 1 \<and> blockno x = bn) bs"

text \<open>
  The invariant of the cache, for an undisturbed process: \<open>lk\<close> tells which buffers are locked. The list
  runs through all buffers; no block has two buffers; a buffer is referenced while it is locked; locked and
  dirty buffers hold valid data of some block of the disk; the others agree with the disk.
\<close>

definition cache_at :: "buf list \<Rightarrow> nat option \<Rightarrow> nat option \<Rightarrow> block list \<Rightarrow> (nat \<Rightarrow> bool) \<Rightarrow> bool" where
  "cache_at bs hn hp dk lk \<longleftrightarrow>
     (\<exists>ord. dll bs hn hp ord \<and> set ord = {..<length bs}) \<and>
     (\<forall>i < length bs. \<forall>j < length bs. bdev (bs ! i) = 1 \<longrightarrow> bdev (bs ! j) = 1 \<longrightarrow> blockno (bs ! i) = blockno (bs ! j) \<longrightarrow> i = j) \<and>
     (\<forall>i < length bs. brefcnt (bs ! i) = (if lk i then 1 else 0)) \<and>
     (\<forall>i < length bs. lk i \<or> dirty (bs ! i) \<longrightarrow> bdev (bs ! i) = 1 \<and> valid (bs ! i)) \<and>
     (\<forall>i < length bs. bdev (bs ! i) = 1 \<longrightarrow> unat (blockno (bs ! i)) < length dk \<and>
        (valid (bs ! i) \<longrightarrow> length (bdata (bs ! i)) = BSIZE \<and>
           (lk i \<or> dirty (bs ! i) \<or> bdata (bs ! i) = dk ! unat (blockno (bs ! i))))) \<and>
     (\<forall>b \<in> set dk. length b = BSIZE)"

abbreviation cache_ok :: "'z bio_state_scheme \<Rightarrow> bool" where
  "cache_ok s \<equiv> cache_at (bufs s) (head_next s) (head_prev s) (disk s) (\<lambda>i. slocked (slk s (BufSl i)))"

lemma slot_Some_iff:
  assumes "cache_at bs hn hp dk lk"
  shows "slot bs bn = Some i \<longleftrightarrow> i < length bs \<and> bdev (bs ! i) = 1 \<and> blockno (bs ! i) = bn"
  using assms unfolding slot_def cache_at_def find_idx_Some
  by (metis (no_types, lifting) order.strict_trans nat_neq_iff)

lemma slot_None_iff: "slot bs bn = None \<longleftrightarrow> (\<forall>i < length bs. \<not> (bdev (bs ! i) = 1 \<and> blockno (bs ! i) = bn))"
  by (auto simp: slot_def find_idx_None all_set_conv_all_nth)


text \<open>The search through the list finds the buffer of the block, and the least recently used free one.\<close>

definition free_buf :: "buf \<Rightarrow> bool" where
  "free_buf x \<longleftrightarrow> brefcnt x = 0 \<and> bflags x AND B_DIRTY = 0"

lemma bget_cached_find:
  assumes "nseg (bufs s) a xs None" and "set xs \<subseteq> {..<length (bufs s)}" and "length xs \<le> n"
  shows "bget_cached n a dev bn s = Ret (find (\<lambda>i. bdev (bufs s ! i) = dev \<and> blockno (bufs s ! i) = bn) xs) s"
  using assms
proof (induction xs arbitrary: a n)
  case (Cons x xs)
  then obtain k where "n = Suc k" by (cases n) auto
  with Cons show ?case by (auto simp: getb_def)
qed simp

lemma bget_unused_find:
  assumes "pseg (bufs s) a xs None" and "set xs \<subseteq> {..<length (bufs s)}" and "length xs \<le> n"
  shows "bget_unused n a s = Ret (find (\<lambda>i. free_buf (bufs s ! i)) xs) s"
  using assms
proof (induction xs arbitrary: a n)
  case (Cons x xs)
  then obtain k where "n = Suc k" by (cases n) auto
  with Cons show ?case by (auto simp: getb_def free_buf_def)
qed simp

lemma find_set_unique:
  assumes "\<And>i. i \<in> set xs \<Longrightarrow> P i \<longleftrightarrow> i = k" and "k \<in> set xs"
  shows "find P xs = Some k"
  using assms
proof (induction xs)
  case (Cons x xs)
  show ?case
  proof (cases "x = k")
    case True
    with Cons.prems(1) [of x] show ?thesis by simp
  next
    case False
    with Cons.prems have "find P xs = Some k" by (intro Cons.IH) auto
    with False Cons.prems(1) [of x] show ?thesis by simp
  qed
qed simp

lemma bget_cached_slot:
  assumes "cache_at (bufs s) (head_next s) (head_prev s) dk lk"
  shows "bget_cached (length (bufs s)) (head_next s) 1 bn s = Ret (slot (bufs s) bn) s"
proof -
  let ?P = "\<lambda>i. bdev (bufs s ! i) = 1 \<and> blockno (bufs s ! i) = bn"
  obtain ord where o: "dll (bufs s) (head_next s) (head_prev s) ord" "set ord = {..<length (bufs s)}"
    using assms by (auto simp: cache_at_def)
  then have "length ord = length (bufs s)" by (metis card_lessThan distinct_card dll_def)
  with o have "bget_cached (length (bufs s)) (head_next s) 1 bn s = Ret (find ?P ord) s"
    by (intro bget_cached_find) (auto simp: dll_def)
  moreover have "find ?P ord = slot (bufs s) bn"
  proof (cases "slot (bufs s) bn")
    case None
    then have "find ?P ord = None" unfolding slot_None_iff using o(2) by (auto simp: find_None_iff)
    with None show ?thesis by simp
  next
    case (Some k)
    then have k: "k < length (bufs s)" "?P k" by (simp_all add: slot_Some_iff [OF assms])
    have "find ?P ord = Some k"
    proof (rule find_set_unique)
      fix i assume "i \<in> set ord"
      then have "i < length (bufs s)" using o(2) by auto
      with slot_Some_iff [OF assms, of bn i] Some show "?P i \<longleftrightarrow> i = k" by auto
    qed (use o(2) k(1) in auto)
    with Some show ?thesis by simp
  qed
  ultimately show ?thesis by simp
qed

lemma bget_hit:
  assumes q: "quiet p s" and c: "cache_ok s" and b: "slot (bufs s) bn = Some b" and l: "\<not> slocked (slk s (BufSl b))"
  shows "bget 1 bn s = Ret b (s\<lparr>cpus := crit s, bufs := upd_at b (\<lambda>x. x\<lparr>brefcnt := brefcnt x + 1\<rparr>) (bufs s),
    slk := (slk s)(BufSl b := (slk s (BufSl b))\<lparr>slocked := True, spid := pid (procs s ! p)\<rparr>)\<rparr>)"
proof -
  let ?t = "s\<lparr>bufs := upd_at b (\<lambda>x. x\<lparr>brefcnt := brefcnt x + 1\<rparr>) (bufs s)\<rparr>"
  have f: "bget_cached (length (bufs s)) (head_next s) 1 bn (inlock BcacheLk s) = Ret (Some b) (inlock BcacheLk s)"
    using bget_cached_slot [of "inlock BcacheLk s" _ _ bn] c b by (simp add: inlock_def)
  have u: "updb b (\<lambda>x. x\<lparr>brefcnt := brefcnt x + 1\<rparr>) (inlock BcacheLk s) = Ret () (inlock BcacheLk ?t)"
    by (simp add: updb_def inlock_def)
  have qt: "quiet p (?t\<lparr>cpus := crit ?t\<rparr>)" by (rule quiet_crit) (use q in simp)
  have a: "acquiresleep (BufSl b) (?t\<lparr>cpus := crit ?t\<rparr>) = Ret () ((?t\<lparr>cpus := crit ?t\<rparr>)\<lparr>cpus := crit (?t\<lparr>cpus := crit ?t\<rparr>),
    slk := (slk s)(BufSl b := (slk s (BufSl b))\<lparr>slocked := True, spid := pid (procs s ! p)\<rparr>)\<rparr>)"
    using acquiresleep_free [OF qt, of "BufSl b"] l by simp
  have h: "gets (\<lambda>s. (length (bufs s), head_next s)) (inlock BcacheLk s) = Ret (length (bufs s), head_next s) (inlock BcacheLk s)"
    by (simp add: inlock_def)
  have ct: "crit ?t = crit s" by (simp add: crit_def)
  have r: "release BcacheLk (inlock BcacheLk ?t) = Ret () (?t\<lparr>cpus := crit ?t\<rparr>)"
    using release_quiet [of p ?t] q by simp
  show ?thesis
    unfolding bget_def by (simp add: acquire_quiet [OF q] h f u r a del: gets_apply) (simp add: ct)
qed


lemma bget_miss:
  assumes q: "quiet p s" and c: "cache_ok s" and n: "slot (bufs s) bn = None"
    and d: "dll (bufs s) (head_next s) (head_prev s) ord" "set ord = {..<length (bufs s)}"
    and b: "find (\<lambda>i. free_buf (bufs s ! i)) (rev ord) = Some b" and l: "\<not> slocked (slk s (BufSl b))"
  shows "bget 1 bn s = Ret b (s\<lparr>cpus := crit s,
    bufs := upd_at b (\<lambda>x. x\<lparr>bdev := 1, blockno := bn, bflags := 0, brefcnt := 1\<rparr>) (bufs s),
    slk := (slk s)(BufSl b := (slk s (BufSl b))\<lparr>slocked := True, spid := pid (procs s ! p)\<rparr>)\<rparr>)"
proof -
  let ?f = "\<lambda>x. x\<lparr>bdev := 1, blockno := bn, bflags := 0, brefcnt := 1\<rparr>"
  let ?t = "s\<lparr>bufs := upd_at b ?f (bufs s)\<rparr>"
  have f: "bget_cached (length (bufs s)) (head_next s) 1 bn (inlock BcacheLk s) = Ret None (inlock BcacheLk s)"
    using bget_cached_slot [of "inlock BcacheLk s" _ _ bn] c n by (simp add: inlock_def)
  have len: "length ord = length (bufs s)" using d by (metis card_lessThan distinct_card dll_def)
  have g: "bget_unused (length (bufs s)) (head_prev s) (inlock BcacheLk s) = Ret (Some b) (inlock BcacheLk s)"
    using bget_unused_find [of "inlock BcacheLk s" "head_prev s" "rev ord" "length (bufs s)"] d len b
    by (simp add: inlock_def dll_def)
  have u: "updb b ?f (inlock BcacheLk s) = Ret () (inlock BcacheLk ?t)"
    by (simp add: updb_def inlock_def)
  have qt: "quiet p (?t\<lparr>cpus := crit ?t\<rparr>)" by (rule quiet_crit) (use q in simp)
  have a: "acquiresleep (BufSl b) (?t\<lparr>cpus := crit ?t\<rparr>) = Ret () ((?t\<lparr>cpus := crit ?t\<rparr>)\<lparr>cpus := crit (?t\<lparr>cpus := crit ?t\<rparr>),
    slk := (slk s)(BufSl b := (slk s (BufSl b))\<lparr>slocked := True, spid := pid (procs s ! p)\<rparr>)\<rparr>)"
    using acquiresleep_free [OF qt, of "BufSl b"] l by simp
  have h: "gets (\<lambda>s. (length (bufs s), head_next s)) (inlock BcacheLk s) = Ret (length (bufs s), head_next s) (inlock BcacheLk s)"
    "gets head_prev (inlock BcacheLk s) = Ret (head_prev s) (inlock BcacheLk s)"
    by (simp_all add: inlock_def)
  have ct: "crit ?t = crit s" by (simp add: crit_def)
  have r: "release BcacheLk (inlock BcacheLk ?t) = Ret () (?t\<lparr>cpus := crit ?t\<rparr>)"
    using release_quiet [of p ?t] q by simp
  show ?thesis
    unfolding bget_def by (simp add: acquire_quiet [OF q] h f g u r a del: gets_apply) (simp add: ct)
qed

text \<open>\<open>iderw\<close> on a buffer the process has locked.\<close>

definition mine :: "nat \<Rightarrow> nat \<Rightarrow> 'z bio_state_scheme \<Rightarrow> bool" where
  "mine p b s \<longleftrightarrow> slocked (slk s (BufSl b)) \<and> spid (slk s (BufSl b)) = pid (procs s ! p) \<and> b < length (bufs s)"

lemma iderw_read:
  assumes q: "quiet p s" and m: "mine p b s" and x: "\<not> valid (bufs s ! b)" "\<not> dirty (bufs s ! b)" "bdev (bufs s ! b) = 1"
    "unat (blockno (bufs s ! b)) < length (disk s)"
  shows "iderw b s = Ret () (s\<lparr>cpus := crit s, bufs := upd_at b (\<lambda>x. x\<lparr>bdata := disk s ! unat (blockno x), bflags := bflags x OR B_VALID\<rparr>) (bufs s)\<rparr>)"
  using assms
  by (simp add: iderw_def holdingsleep_eq [OF q] mine_def getb_def updb_def not_le upd_at_def Let_def)

lemma iderw_write:
  assumes q: "quiet p s" and m: "mine p b s" and x: "dirty (bufs s ! b)" "bdev (bufs s ! b) = 1"
    "unat (blockno (bufs s ! b)) < length (disk s)"
  shows "iderw b s = Ret () (s\<lparr>cpus := crit s, bufs := upd_at b (\<lambda>x. x\<lparr>bflags := (bflags x AND NOT B_DIRTY) OR B_VALID\<rparr>) (bufs s),
    disk := (disk s)[unat (blockno (bufs s ! b)) := bdata (bufs s ! b)],
    writes := writes s @ [(unat (blockno (bufs s ! b)), bdata (bufs s ! b))]\<rparr>)"
  using assms
  by (simp add: iderw_def holdingsleep_eq [OF q] mine_def getb_def updb_def not_le upd_at_def Let_def)

lemma bwrite_eq:
  assumes q: "quiet p s" and m: "mine p b s" and x: "bdev (bufs s ! b) = 1"
    "unat (blockno (bufs s ! b)) < length (disk s)"
  shows "bwrite b s = Ret () (s\<lparr>cpus := crit s, bufs := upd_at b (\<lambda>x. x\<lparr>bflags := ((bflags x OR B_DIRTY) AND NOT B_DIRTY) OR B_VALID\<rparr>) (bufs s),
    disk := (disk s)[unat (blockno (bufs s ! b)) := bdata (bufs s ! b)],
    writes := writes s @ [(unat (blockno (bufs s ! b)), bdata (bufs s ! b))]\<rparr>)"
proof -
  let ?t = "s\<lparr>cpus := crit s, bufs := upd_at b (\<lambda>x. x\<lparr>bflags := bflags x OR B_DIRTY\<rparr>) (bufs s)\<rparr>"
  have "quiet p ?t" using quiet_crit [OF q] by simp
  moreover have "mine p b ?t" using m by (simp add: mine_def)
  moreover have "crit ?t = crit s" by (simp add: crit_def)
  ultimately have "iderw b ?t = Ret () (s\<lparr>cpus := crit s, bufs := upd_at b (\<lambda>x. x\<lparr>bflags := ((bflags x OR B_DIRTY) AND NOT B_DIRTY) OR B_VALID\<rparr>) (bufs s),
    disk := (disk s)[unat (blockno (bufs s ! b)) := bdata (bufs s ! b)],
    writes := writes s @ [(unat (blockno (bufs s ! b)), bdata (bufs s ! b))]\<rparr>)"
    using iderw_write [of p ?t b] m x by (simp add: mine_def)
  with m show ?thesis by (simp add: bwrite_def holdingsleep_eq [OF q] mine_def updb_def)
qed


text \<open>Replacing the contents of one buffer.\<close>

lemma dll_upd:
  assumes "\<And>x. bnext (f x) = bnext x" and "\<And>x. bprev (f x) = bprev x"
  shows "dll (upd_at b f bs) hn hp ord = dll bs hn hp ord"
proof -
  have "nseg (upd_at b f bs) hn ord None = nseg bs hn ord None"
    by (rule nseg_cong) (auto simp: upd_at_def nth_list_update assms)
  moreover have "pseg (upd_at b f bs) hp (rev ord) None = pseg bs hp (rev ord) None"
    by (rule pseg_cong) (auto simp: upd_at_def nth_list_update assms)
  ultimately show ?thesis by (simp add: dll_def)
qed

lemma cacheD:
  assumes "cache_at bs hn hp dk lk"
  shows "\<exists>ord. dll bs hn hp ord \<and> set ord = {..<length bs}"
    and "i < length bs \<Longrightarrow> j < length bs \<Longrightarrow> bdev (bs ! i) = 1 \<Longrightarrow> bdev (bs ! j) = 1 \<Longrightarrow>
      blockno (bs ! i) = blockno (bs ! j) \<Longrightarrow> i = j"
    and "i < length bs \<Longrightarrow> brefcnt (bs ! i) = (if lk i then 1 else 0)"
    and "i < length bs \<Longrightarrow> lk i \<or> dirty (bs ! i) \<Longrightarrow> bdev (bs ! i) = 1 \<and> valid (bs ! i)"
    and "i < length bs \<Longrightarrow> bdev (bs ! i) = 1 \<Longrightarrow> unat (blockno (bs ! i)) < length dk"
    and "i < length bs \<Longrightarrow> bdev (bs ! i) = 1 \<Longrightarrow> valid (bs ! i) \<Longrightarrow> length (bdata (bs ! i)) = BSIZE"
    and "i < length bs \<Longrightarrow> bdev (bs ! i) = 1 \<Longrightarrow> valid (bs ! i) \<Longrightarrow> \<not> lk i \<Longrightarrow> \<not> dirty (bs ! i) \<Longrightarrow>
      bdata (bs ! i) = dk ! unat (blockno (bs ! i))"
    and "k < length dk \<Longrightarrow> length (dk ! k) = BSIZE"
  using assms unfolding cache_at_def by (blast, blast, blast, blast, blast, blast, blast, simp)

lemma cache_at_upd:
  assumes c: "cache_at bs hn hp dk lk" and b: "b < length bs"
    and ptr: "\<And>x. bnext (f x) = bnext x" "\<And>x. bprev (f x) = bprev x"
    and lk: "\<And>i. i \<noteq> b \<Longrightarrow> lk' i = lk i"
    and x: "bdev (f (bs ! b)) = 1" "valid (f (bs ! b))" "unat (blockno (f (bs ! b))) < length dk"
      "length (bdata (f (bs ! b))) = BSIZE" "brefcnt (f (bs ! b)) = (if lk' b then 1 else 0)"
      "lk' b \<or> dirty (f (bs ! b)) \<or> bdata (f (bs ! b)) = dk ! unat (blockno (f (bs ! b)))"
    and new: "\<And>i. i < length bs \<Longrightarrow> i \<noteq> b \<Longrightarrow> bdev (bs ! i) = 1 \<Longrightarrow> blockno (bs ! i) \<noteq> blockno (f (bs ! b))"
  shows "cache_at (upd_at b f bs) hn hp dk lk'"
proof -
  have g: "upd_at b f bs ! i = (if i = b then f (bs ! b) else bs ! i)" if "i < length bs" for i
    using that by (simp add: nth_upd_at)
  have "\<exists>ord. dll (upd_at b f bs) hn hp ord \<and> set ord = {..<length (upd_at b f bs)}"
    using c by (simp add: dll_upd [OF ptr] cache_at_def)
  moreover have "\<forall>i < length bs. \<forall>j < length bs. bdev (upd_at b f bs ! i) = 1 \<longrightarrow> bdev (upd_at b f bs ! j) = 1 \<longrightarrow>
      blockno (upd_at b f bs ! i) = blockno (upd_at b f bs ! j) \<longrightarrow> i = j"
    using cacheD(2) [OF c] new b by (simp add: g) (metis new)
  moreover have "\<forall>i < length bs. brefcnt (upd_at b f bs ! i) = (if lk' i then 1 else 0)"
    using cacheD(3) [OF c] x(5) lk by (simp add: g)
  moreover have "\<forall>i < length bs. lk' i \<or> dirty (upd_at b f bs ! i) \<longrightarrow> bdev (upd_at b f bs ! i) = 1 \<and> valid (upd_at b f bs ! i)"
    using cacheD(4) [OF c] x lk by (simp add: g)
  moreover have "\<forall>i < length bs. bdev (upd_at b f bs ! i) = 1 \<longrightarrow> unat (blockno (upd_at b f bs ! i)) < length dk \<and>
        (valid (upd_at b f bs ! i) \<longrightarrow> length (bdata (upd_at b f bs ! i)) = BSIZE \<and>
           (lk' i \<or> dirty (upd_at b f bs ! i) \<or> bdata (upd_at b f bs ! i) = dk ! unat (blockno (upd_at b f bs ! i))))"
    using cacheD(5-7) [OF c] x lk by (simp add: g) blast
  ultimately show ?thesis using c by (simp add: cache_at_def)
qed

lemma cache_at_disk:
  assumes c: "cache_at bs hn hp dk lk" and d: "length dk' = length dk" "\<forall>x \<in> set dk'. length x = BSIZE"
    and k: "\<And>n. n \<noteq> k \<Longrightarrow> dk' ! n = dk ! n"
    and l: "\<And>i. i < length bs \<Longrightarrow> bdev (bs ! i) = 1 \<Longrightarrow> unat (blockno (bs ! i)) = k \<Longrightarrow> lk i"
  shows "cache_at bs hn hp dk' lk"
proof -
  have "unat (blockno (bs ! i)) < length dk' \<and> (valid (bs ! i) \<longrightarrow> length (bdata (bs ! i)) = BSIZE \<and>
      (lk i \<or> dirty (bs ! i) \<or> bdata (bs ! i) = dk' ! unat (blockno (bs ! i))))"
    if "i < length bs" "bdev (bs ! i) = 1" for i
    using cacheD(5-7) [OF c that] l [OF that] k [of "unat (blockno (bs ! i))"] d(1) by metis
  with c d(2) show ?thesis by (simp add: cache_at_def)
qed

lemma slot_upd:
  assumes c: "cache_at bs hn hp dk lk" "cache_at (upd_at b f bs) hn' hp' dk' lk'" and b: "b < length bs" "bdev (f (bs ! b)) = 1"
  shows "slot (upd_at b f bs) n = (if n = blockno (f (bs ! b)) then Some b else if slot bs n = Some b then None else slot bs n)"
proof -
  have old: "slot bs n = Some k \<longleftrightarrow> k < length bs \<and> bdev (bs ! k) = 1 \<and> blockno (bs ! k) = n" for k
    by (rule slot_Some_iff [OF c(1)])
  have upd: "slot (upd_at b f bs) n = Some k \<longleftrightarrow> (if k = b then blockno (f (bs ! b)) = n else slot bs n = Some k)" for k
    unfolding slot_Some_iff [OF c(2)] old using b by (cases "k < length bs") (simp_all add: nth_upd_at)
  have eq: "a = a'" if "\<And>k. a = Some k \<longleftrightarrow> a' = Some k" for a a' :: "nat option"
    using that by (metis option.exhaust)
  show ?thesis
  proof (cases "n = blockno (f (bs ! b))")
    case True
    with upd [of b] show ?thesis by simp
  next
    case False
    show ?thesis by (rule eq) (simp add: upd False False [symmetric])
  qed
qed

section \<open>Blocks seen through the cache\<close>

text \<open>
  \<open>bview s bn\<close> is the content of block \<open>bn\<close>: of its buffer if it has a valid one, otherwise of the disk.
  \<open>busy s\<close> are the blocks whose buffers are locked and \<open>pinned s\<close> those whose buffers are dirty.
\<close>

definition bview :: "'z bio_state_scheme \<Rightarrow> uint \<Rightarrow> block" where
  "bview s bn = (case slot (bufs s) bn of
       Some i \<Rightarrow> if valid (bufs s ! i) then bdata (bufs s ! i) else disk s ! unat bn
     | None \<Rightarrow> disk s ! unat bn)"

definition busy :: "'z bio_state_scheme \<Rightarrow> uint set" where
  "busy s = {bn. \<exists>i. slot (bufs s) bn = Some i \<and> slocked (slk s (BufSl i))}"

definition pinned :: "'z bio_state_scheme \<Rightarrow> uint set" where
  "pinned s = {bn. \<exists>i. slot (bufs s) bn = Some i \<and> dirty (bufs s ! i)}"

text \<open>
  \<open>bcalm p s t\<close>: process \<open>p\<close> ran undisturbed from \<open>s\<close> to \<open>t\<close>, which may differ in the cache but not
  on the disk or in anything above the cache.
\<close>

definition bcalm :: "nat \<Rightarrow> 'z bio_state_scheme \<Rightarrow> 'z bio_state_scheme \<Rightarrow> bool" where
  "bcalm p s t \<longleftrightarrow> t = s\<lparr>cpus := cpus t, procs := procs t, queue := queue t, q_tail := q_tail t, slk := slk t,
       bufs := bufs t, head_prev := head_prev t, head_next := head_next t\<rparr> \<and>
     quiet p t \<and> procs t ! p = procs s ! p \<and> length (procs t) = length (procs s) \<and>
     cache_ok t \<and> length (bufs t) = length (bufs s) \<and> (\<forall>i. slk t (InodeSl i) = slk s (InodeSl i))"

lemma bcalmD:
  assumes "bcalm p s t"
  shows "quiet p t" "cache_ok t" "length (bufs t) = length (bufs s)" "disk t = disk s" "writes t = writes s"
    "procs t ! p = procs s ! p" "slk t (InodeSl i) = slk s (InodeSl i)" "length (procs t) = length (procs s)"
proof -
  have f: "t = s\<lparr>cpus := cpus t, procs := procs t, queue := queue t, q_tail := q_tail t, slk := slk t,
       bufs := bufs t, head_prev := head_prev t, head_next := head_next t\<rparr>" using assms unfolding bcalm_def by blast
  show "disk t = disk s" "writes t = writes s" by (subst f, simp)+
qed (use assms in \<open>unfold bcalm_def, blast+\<close>)

lemma view_same:
  "bufs t = bufs s \<Longrightarrow> disk t = disk s \<Longrightarrow> bview t = bview s"
  "bufs t = bufs s \<Longrightarrow> slk t = slk s \<Longrightarrow> busy t = busy s"
  "bufs t = bufs s \<Longrightarrow> pinned t = pinned s"
  by (auto simp: bview_def fun_eq_iff busy_def pinned_def split: option.split)

lemma free_exists:
  assumes c: "cache_ok s" and "card (busy s \<union> pinned s) < length (bufs s)"
  shows "\<exists>i < length (bufs s). free_buf (bufs s ! i) \<and> \<not> slocked (slk s (BufSl i))"
proof (rule ccontr)
  assume no: "\<not> ?thesis"
  let ?n = "length (bufs s)"
  have *: "bdev (bufs s ! i) = 1 \<and> blockno (bufs s ! i) \<in> busy s \<union> pinned s" if "i < ?n" for i
  proof -
    have l: "slocked (slk s (BufSl i)) \<or> dirty (bufs s ! i)"
      using no that cacheD(3) [OF c that] unfolding free_buf_def by auto
    then have "bdev (bufs s ! i) = 1" using cacheD(4) [OF c that] by simp
    with that have "slot (bufs s) (blockno (bufs s ! i)) = Some i" by (simp add: slot_Some_iff [OF c])
    with l \<open>bdev (bufs s ! i) = 1\<close> show ?thesis by (auto simp: busy_def pinned_def)
  qed
  have "inj_on (\<lambda>i. blockno (bufs s ! i)) {..<?n}"
    using cacheD(2) [OF c] * by (auto simp: inj_on_def)
  moreover have "(\<lambda>i. blockno (bufs s ! i)) ` {..<?n} \<subseteq> busy s \<union> pinned s" using * by auto
  ultimately have "?n \<le> card (busy s \<union> pinned s)"
    using card_inj_on_le [of "\<lambda>i. blockno (bufs s ! i)" "{..<?n}" "busy s \<union> pinned s"] by simp
  with assms(2) show False by simp
qed


text \<open>What \<open>bread\<close> leaves behind, in one form for a block that was cached and one that was not.\<close>

definition took :: "nat \<Rightarrow> nat \<Rightarrow> (buf \<Rightarrow> buf) \<Rightarrow> 'z bio_state_scheme \<Rightarrow> 'z bio_state_scheme" where
  "took p b f s = s\<lparr>cpus := crit s, bufs := upd_at b f (bufs s),
     slk := (slk s)(BufSl b := (slk s (BufSl b))\<lparr>slocked := True, spid := pid (procs s ! p)\<rparr>)\<rparr>"

lemma quiet_took: "quiet p s \<Longrightarrow> quiet p (took p b f s)"
  using quiet_crit [of p s] by (simp add: took_def)

lemma took_iderw:
  assumes "quiet p s" and "b < length (bufs s)" and "\<not> valid (f (bufs s ! b))" "\<not> dirty (f (bufs s ! b))"
    "bdev (f (bufs s ! b)) = 1" "unat (blockno (f (bufs s ! b))) < length (disk s)"
  shows "iderw b (took p b f s) = Ret () (took p b (\<lambda>x. (f x)\<lparr>bdata := disk s ! unat (blockno (f x)), bflags := bflags (f x) OR B_VALID\<rparr>) s)"
proof -
  have "mine p b (took p b f s)" using assms(2) by (simp add: mine_def took_def)
  moreover have "crit (took p b f s) = crit s" by (simp add: took_def crit_def)
  ultimately show ?thesis
    using iderw_read [OF quiet_took [OF assms(1)], of b b f] assms(2-6) by (simp add: took_def)
qed

definition read_in :: "'z bio_state_scheme \<Rightarrow> uint \<Rightarrow> nat \<Rightarrow> (buf \<Rightarrow> buf) \<Rightarrow> bool" where
  "read_in s bn b f \<longleftrightarrow> b < length (bufs s) \<and> \<not> slocked (slk s (BufSl b)) \<and>
     (\<forall>x. bnext (f x) = bnext x) \<and> (\<forall>x. bprev (f x) = bprev x) \<and>
     bdev (f (bufs s ! b)) = 1 \<and> blockno (f (bufs s ! b)) = bn \<and> valid (f (bufs s ! b)) \<and> brefcnt (f (bufs s ! b)) = 1 \<and>
     bdata (f (bufs s ! b)) = bview s bn \<and>
     (if slot (bufs s) bn = Some b then dirty (f (bufs s ! b)) = dirty (bufs s ! b)
      else slot (bufs s) bn = None \<and> \<not> dirty (bufs s ! b) \<and> \<not> dirty (f (bufs s ! b)))"

lemma bread_hit:
  assumes q: "quiet p s" and c: "cache_ok s" and b: "slot (bufs s) bn = Some b" and l: "\<not> slocked (slk s (BufSl b))"
  shows "\<exists>f. bread 1 bn s = Ret b (took p b f s) \<and> read_in s bn b f"
proof -
  let ?g = "\<lambda>x. x\<lparr>brefcnt := brefcnt x + 1\<rparr>"
  have bget: "bget 1 bn s = Ret b (took p b ?g s)"
    using bget_hit [OF q c b l] by (simp add: took_def)
  have x: "b < length (bufs s)" "bdev (bufs s ! b) = 1" "blockno (bufs s ! b) = bn"
    using b by (simp_all add: slot_Some_iff [OF c])
  have r: "brefcnt (bufs s ! b) = 0" using cacheD(3) [OF c x(1)] l by simp
  have gb: "getb b (took p b ?g s) = Ret (?g (bufs s ! b)) (took p b ?g s)"
    using x(1) by (simp add: getb_def took_def)
  show ?thesis
  proof (cases "valid (bufs s ! b)")
    case True
    then have "bread 1 bn s = Ret b (took p b ?g s)" by (simp add: bread_def bget gb)
    moreover have "read_in s bn b ?g" using x r True l b by (simp add: read_in_def bview_def)
    ultimately show ?thesis by blast
  next
    case False
    then have nd: "\<not> dirty (bufs s ! b)" using cacheD(4) [OF c x(1)] by blast
    let ?f = "\<lambda>x. (?g x)\<lparr>bdata := disk s ! unat (blockno (?g x)), bflags := bflags (?g x) OR B_VALID\<rparr>"
    have "iderw b (took p b ?g s) = Ret () (took p b ?f s)"
      by (rule took_iderw [OF q x(1)]) (use False nd x cacheD(5) [OF c x(1)] in simp_all)
    then have "bread 1 bn s = Ret b (took p b ?f s)" using False by (simp add: bread_def bget gb)
    moreover have "read_in s bn b ?f" using x r False nd l b by (simp add: read_in_def bview_def)
    ultimately show ?thesis by blast
  qed
qed

lemma bread_miss:
  assumes q: "quiet p s" and c: "cache_ok s" and n: "slot (bufs s) bn = None" and bn: "unat bn < length (disk s)"
    and o: "dll (bufs s) (head_next s) (head_prev s) ord" "set ord = {..<length (bufs s)}"
    and b: "find (\<lambda>i. free_buf (bufs s ! i)) (rev ord) = Some b"
  shows "\<exists>f. bread 1 bn s = Ret b (took p b f s) \<and> read_in s bn b f"
proof -
  have x: "b < length (bufs s)" "free_buf (bufs s ! b)" using b o(2) unfolding find_Some_iff
    by (metis length_rev lessThan_iff nth_mem set_rev)+
  then have l: "\<not> slocked (slk s (BufSl b))" using cacheD(3) [OF c x(1)] by (auto simp: free_buf_def)
  let ?g = "\<lambda>x. x\<lparr>bdev := 1, blockno := bn, bflags := 0, brefcnt := 1\<rparr>"
  let ?f = "\<lambda>x. (?g x)\<lparr>bdata := disk s ! unat (blockno (?g x)), bflags := bflags (?g x) OR B_VALID\<rparr>"
  have bget: "bget 1 bn s = Ret b (took p b ?g s)"
    using bget_miss [OF q c n o b l] by (simp add: took_def)
  have gb: "getb b (took p b ?g s) = Ret (?g (bufs s ! b)) (took p b ?g s)"
    using x(1) by (simp add: getb_def took_def)
  have "iderw b (took p b ?g s) = Ret () (took p b ?f s)"
    by (rule took_iderw [OF q x(1)]) (use bn in simp_all)
  then have "bread 1 bn s = Ret b (took p b ?f s)" by (simp add: bread_def bget gb)
  moreover have "read_in s bn b ?f" using x l n by (simp add: read_in_def bview_def free_buf_def)
  ultimately show ?thesis by blast
qed


lemma slocked_took: "slocked (slk (took p b f s) (BufSl i)) \<longleftrightarrow> i = b \<or> slocked (slk s (BufSl i))"
  by (simp add: took_def)

lemma took_simps [simp]:
  "bufs (took p b f s) = upd_at b f (bufs s)" "disk (took p b f s) = disk s" "writes (took p b f s) = writes s"
  "head_next (took p b f s) = head_next s" "head_prev (took p b f s) = head_prev s" "procs (took p b f s) = procs s"
  "slk (took p b f s) (InodeSl i) = slk s (InodeSl i)"
  by (simp_all add: took_def)

lemma bview_length:
  assumes "cache_ok s" and "unat bn < length (disk s)"
  shows "length (bview s bn) = BSIZE"
  using cacheD(6,8) [OF assms(1)] assms(2)
  by (auto simp: bview_def slot_Some_iff [OF assms(1)] split: option.split)

lemma read_in_cache:
  assumes c: "cache_ok s" and r: "read_in s bn b f" and bn: "unat bn < length (disk s)"
  shows "cache_ok (took p b f s)"
proof -
  have "cache_at (upd_at b f (bufs s)) (head_next s) (head_prev s) (disk s) (\<lambda>i. slocked (slk (took p b f s) (BufSl i)))"
  proof (rule cache_at_upd [OF c])
    fix i assume i: "i < length (bufs s)" "i \<noteq> b" "bdev (bufs s ! i) = 1"
    show "blockno (bufs s ! i) \<noteq> blockno (f (bufs s ! b))"
    proof
      assume "blockno (bufs s ! i) = blockno (f (bufs s ! b))"
      then have "slot (bufs s) bn = Some i" using i r by (simp add: slot_Some_iff [OF c] read_in_def)
      with r i show False by (simp add: read_in_def split: if_splits)
    qed
  qed (use r bn bview_length [OF c bn] in \<open>simp_all add: read_in_def slocked_took\<close>)
  then show ?thesis by simp
qed

lemma read_in_slot:
  assumes c: "cache_ok s" and r: "read_in s bn b f" and bn: "unat bn < length (disk s)"
  shows "slot (upd_at b f (bufs s)) n = (if n = bn then Some b else if slot (bufs s) n = Some b then None else slot (bufs s) n)"
  using slot_upd [OF c read_in_cache [OF c r bn, simplified]] r by (simp add: read_in_def)

text \<open>Unless it holds the block that is read, the buffer taken was free and agreed with the disk.\<close>

lemma read_in_victim:
  assumes c: "cache_ok s" and r: "read_in s bn b f" and n: "slot (bufs s) n = Some b" "n \<noteq> bn"
  shows "bview s n = disk s ! unat n" "\<not> slocked (slk s (BufSl b))" "\<not> dirty (bufs s ! b)"
proof -
  have x: "b < length (bufs s)" "bdev (bufs s ! b) = 1" "blockno (bufs s ! b) = n"
    using n(1) by (simp_all add: slot_Some_iff [OF c])
  have "slot (bufs s) bn \<noteq> Some b" using x n(2) by (simp add: slot_Some_iff [OF c])
  with r show l: "\<not> slocked (slk s (BufSl b))" and d: "\<not> dirty (bufs s ! b)" by (simp_all add: read_in_def)
  from cacheD(7) [OF c x(1,2)] l d x(3) n(1) show "bview s n = disk s ! unat n" by (simp add: bview_def)
qed

lemma read_in_view:
  assumes c: "cache_ok s" and r: "read_in s bn b f" and bn: "unat bn < length (disk s)"
  shows "bview (took p b f s) = bview s"
proof
  fix n
  have b: "b < length (bufs s)" using r by (simp add: read_in_def)
  consider "n = bn" | "n \<noteq> bn" "slot (bufs s) n = Some b" | "n \<noteq> bn" "slot (bufs s) n \<noteq> Some b" by blast
  then show "bview (took p b f s) n = bview s n"
  proof cases
    case 1
    then have "bview (took p b f s) n = bdata (f (bufs s ! b))"
      using r b unfolding bview_def by (simp add: read_in_slot [OF c r bn] read_in_def)
    then show ?thesis using r 1 by (simp add: read_in_def)
  next
    case 2
    then have "bview (took p b f s) n = disk s ! unat n" by (simp add: bview_def read_in_slot [OF c r bn])
    then show ?thesis using read_in_victim(1) [OF c r 2(2,1)] by simp
  next
    case 3
    then show ?thesis by (cases "slot (bufs s) n") (simp_all add: bview_def read_in_slot [OF c r bn])
  qed
qed

lemma read_in_held:
  assumes c: "cache_ok s" and r: "read_in s bn b f" and bn: "unat bn < length (disk s)"
  shows "busy (took p b f s) = insert bn (busy s)"
proof (rule set_eqI)
  fix n
  show "n \<in> busy (took p b f s) \<longleftrightarrow> n \<in> insert bn (busy s)"
  proof (cases "n = bn")
    case True
    then show ?thesis by (simp add: busy_def read_in_slot [OF c r bn] slocked_took)
  next
    case False
    then show ?thesis using read_in_victim(2) [OF c r _ False]
      by (cases "slot (bufs s) n") (auto simp: busy_def read_in_slot [OF c r bn] slocked_took)
  qed
qed

lemma read_in_pinned:
  assumes c: "cache_ok s" and r: "read_in s bn b f" and bn: "unat bn < length (disk s)"
  shows "pinned (took p b f s) = pinned s"
proof (rule set_eqI)
  fix n
  have b: "b < length (bufs s)" using r by (simp add: read_in_def)
  show "n \<in> pinned (took p b f s) \<longleftrightarrow> n \<in> pinned s"
  proof (cases "n = bn")
    case True
    then show ?thesis using r b
      by (cases "slot (bufs s) bn") (auto simp: pinned_def read_in_slot [OF c r bn] read_in_def split: if_splits)
  next
    case False
    then show ?thesis using read_in_victim(3) [OF c r _ False]
      by (cases "slot (bufs s) n") (auto simp: pinned_def read_in_slot [OF c r bn])
  qed
qed

lemma bread_spec:
  assumes q: "quiet p s" and c: "cache_ok s" and bn: "unat bn < length (disk s)" and free: "bn \<notin> busy s"
    and room: "bn \<in> pinned s \<or> card (busy s \<union> pinned s) < length (bufs s)"
  shows "\<exists>b t. bread 1 bn s = Ret b t \<and> bcalm p s t \<and> mine p b t \<and> slot (bufs t) bn = Some b \<and>
    bdata (bufs t ! b) = bview s bn \<and> bview t = bview s \<and> busy t = insert bn (busy s) \<and> pinned t = pinned s \<and>
    (\<forall>b' n. n \<noteq> bn \<longrightarrow> slot (bufs s) n = Some b' \<longrightarrow> mine p b' s \<longrightarrow> slot (bufs t) n = Some b' \<and> mine p b' t)"
proof -
  obtain b f where r: "bread 1 bn s = Ret b (took p b f s)" "read_in s bn b f"
  proof (cases "slot (bufs s) bn")
    case None
    obtain ord where o: "dll (bufs s) (head_next s) (head_prev s) ord" "set ord = {..<length (bufs s)}"
      using cacheD(1) [OF c] by blast
    obtain b where b: "find (\<lambda>i. free_buf (bufs s ! i)) (rev ord) = Some b"
      using free_exists [OF c] None room o(2) by (cases "find (\<lambda>i. free_buf (bufs s ! i)) (rev ord)") (auto simp: find_None_iff pinned_def)
    with bread_miss [OF q c None bn o b] that show ?thesis by blast
  next
    case (Some b)
    with free have "\<not> slocked (slk s (BufSl b))" by (auto simp: busy_def)
    with bread_hit [OF q c Some] that show ?thesis by blast
  qed
  have "b < length (bufs s)" "bdata (f (bufs s ! b)) = bview s bn" using r(2) by (simp_all add: read_in_def)
  moreover have "took p b f s = s\<lparr>cpus := cpus (took p b f s), procs := procs (took p b f s), queue := queue (took p b f s),
      q_tail := q_tail (took p b f s), slk := slk (took p b f s), bufs := bufs (took p b f s),
      head_prev := head_prev (took p b f s), head_next := head_next (took p b f s)\<rparr>"
    by (simp add: took_def)
  moreover have "\<forall>b' n. n \<noteq> bn \<longrightarrow> slot (bufs s) n = Some b' \<longrightarrow> mine p b' s \<longrightarrow>
      slot (bufs (took p b f s)) n = Some b' \<and> mine p b' (took p b f s)"
    using r(2) by (auto simp: read_in_slot [OF c r(2) bn] mine_def took_def) (auto simp: read_in_def)
  ultimately show ?thesis
    using r(1) quiet_took [OF q, of b f] read_in_cache [OF c r(2) bn, of p] read_in_view [OF c r(2) bn, of p]
      read_in_held [OF c r(2) bn, of p] read_in_pinned [OF c r(2) bn, of p] read_in_slot [OF c r(2) bn, of bn]
    by (intro exI [of _ b] exI [of _ "took p b f s"] conjI) (simp_all add: bcalm_def mine_def slocked_took, simp add: took_def)
qed


lemma calm_bio:
  assumes "calm p s t"
  shows "bufs t = bufs s" "head_next t = head_next s" "head_prev t = head_prev s" "disk t = disk s"
    "writes t = writes s" "slk t = slk s"
  by (subst calmD(3) [OF assms], simp)+

lemma calm_frame:
  assumes "calm p (s\<lparr>slk := l\<rparr>) t"
  shows "t\<lparr>bufs := bs, head_next := hn, head_prev := hp\<rparr> =
    s\<lparr>cpus := cpus t, procs := procs t, queue := queue t, q_tail := q_tail t, slk := l, bufs := bs, head_prev := hp, head_next := hn\<rparr>"
  using assms by (cases s, cases t) (simp add: calm_def)

lemma same_bufs_slot:
  assumes "same_bufs bs cs"
  shows "slot cs n = slot bs n"
  unfolding slot_def by (rule find_idx_cong) (use same_bufs_length [OF assms] same_bufsD [OF assms] in simp_all)

lemma same_bufs_cache:
  assumes c: "cache_at bs hn hp dk lk" and s: "same_bufs bs cs" and d: "dll cs hn' hp' ord" "set ord = {..<length cs}"
  shows "cache_at cs hn' hp' dk lk"
proof -
  have l: "length cs = length bs" by (rule same_bufs_length [OF s])
  note f = same_bufsD [OF s]
  have "\<exists>ord. dll cs hn' hp' ord \<and> set ord = {..<length cs}" using d by blast
  with c show ?thesis by (simp add: cache_at_def l f)
qed

lemma brelse_run:
  assumes q: "quiet p s" and m: "mine p b s" and d: "dll (bufs s) (head_next s) (head_prev s) (xs @ b # ys)"
    and r: "brefcnt (bufs s ! b) = 1"
  shows "\<exists>t bs hn hp. brelse b s = Ret () (t\<lparr>bufs := bs, head_next := hn, head_prev := hp\<rparr>) \<and>
    calm p (s\<lparr>slk := (slk s)(BufSl b := (slk s (BufSl b))\<lparr>slocked := False, spid := 0\<rparr>)\<rparr>) t \<and>
    dll bs hn hp (b # xs @ ys) \<and> same_bufs (upd_at b (\<lambda>x. x\<lparr>brefcnt := 0\<rparr>) (bufs s)) bs"
proof -
  let ?l = "(slk s)(BufSl b := (slk s (BufSl b))\<lparr>slocked := False, spid := 0\<rparr>)"
  let ?s1 = "s\<lparr>cpus := crit s\<rparr>"
  have q1: "quiet p ?s1" by (rule quiet_crit [OF q])
  obtain t1 where t1: "releasesleep (BufSl b) ?s1 = Ret () t1" "calm p (?s1\<lparr>slk := ?l\<rparr>) t1"
    using releasesleep_eq [OF q1, of "BufSl b"] by auto
  note f = calm_bio [OF t1(2), simplified]
  have qt: "quiet p t1" by (rule calmD(1) [OF t1(2)])
  let ?t2 = "t1\<lparr>bufs := upd_at b (\<lambda>x. x\<lparr>brefcnt := brefcnt x - 1\<rparr>) (bufs s)\<rparr>"
  have b: "b < length (bufs s)" using m by (simp add: mine_def)
  have d2: "dll (bufs (inlock BcacheLk ?t2)) (head_next (inlock BcacheLk ?t2)) (head_prev (inlock BcacheLk ?t2)) (xs @ b # ys)"
    using d f by (simp add: inlock_def dll_upd)
  obtain bs hn hp where w: "move_front b (inlock BcacheLk ?t2)
      = Ret () ((inlock BcacheLk ?t2)\<lparr>bufs := bs, head_next := hn, head_prev := hp\<rparr>)"
    "dll bs hn hp (b # xs @ ys)" "same_bufs (upd_at b (\<lambda>x. x\<lparr>brefcnt := brefcnt x - 1\<rparr>) (bufs s)) bs"
    using move_front_dll [OF d2] by (auto simp: inlock_def)
  let ?t3 = "t1\<lparr>bufs := bs, head_next := hn, head_prev := hp\<rparr>"
  have e: "(inlock BcacheLk ?t2)\<lparr>bufs := bs, head_next := hn, head_prev := hp\<rparr> = inlock BcacheLk ?t3"
    by (simp add: inlock_def)
  have rel: "release BcacheLk (inlock BcacheLk ?t3) = Ret () (?t3\<lparr>cpus := crit ?t3\<rparr>)"
    by (rule release_quiet [of p]) (use qt in simp)
  have u: "updb b (\<lambda>x. x\<lparr>brefcnt := brefcnt x - 1\<rparr>) (inlock BcacheLk t1) = Ret () (inlock BcacheLk ?t2)"
    using f by (simp add: updb_def inlock_def)
  have g: "getb b (inlock BcacheLk ?t2) = Ret ((bufs s ! b)\<lparr>brefcnt := 0\<rparr>) (inlock BcacheLk ?t2)"
    using b r by (simp add: getb_def inlock_def)
  have "holdingsleep (BufSl b) s = Ret True ?s1" using m by (simp add: holdingsleep_eq [OF q] mine_def)
  then have "brelse b s = Ret () (?t3\<lparr>cpus := crit ?t3\<rparr>)"
    unfolding brelse_def by (simp add: t1(1) acquire_quiet [OF qt] u g w(1) e rel)
  moreover have "crit ?t3 = crit t1" by (simp add: crit_def)
  moreover have "upd_at b (\<lambda>x. x\<lparr>brefcnt := brefcnt x - 1\<rparr>) (bufs s) = upd_at b (\<lambda>x. x\<lparr>brefcnt := 0\<rparr>) (bufs s)"
    by (rule upd_at_cong) (simp add: r)
  moreover have "(s\<lparr>slk := ?l\<rparr>)\<lparr>cpus := crit (s\<lparr>slk := ?l\<rparr>)\<rparr> = ?s1\<lparr>slk := ?l\<rparr>" by (simp add: crit_def)
  then have "calm p (s\<lparr>slk := ?l\<rparr>) (?s1\<lparr>slk := ?l\<rparr>)" using calm_crit [of p "s\<lparr>slk := ?l\<rparr>"] q by simp
  then have "calm p (s\<lparr>slk := ?l\<rparr>) (t1\<lparr>cpus := crit t1\<rparr>)"
    by (rule calm_trans [OF calm_trans [OF _ t1(2)] calm_crit [OF qt]])
  ultimately show ?thesis using w(2,3)
    by (intro exI [of _ "t1\<lparr>cpus := crit t1\<rparr>"] exI [of _ bs] exI [of _ hn] exI [of _ hp]) simp
qed


text \<open>The holder of a buffer whose contents are on disk, or which the log will write, gives it back.\<close>

lemma brelse_spec:
  assumes q: "quiet p s" and c: "cache_ok s" and m: "mine p b s" and bn: "slot (bufs s) bn = Some b"
    and saved: "dirty (bufs s ! b) \<or> bdata (bufs s ! b) = disk s ! unat bn"
  shows "\<exists>t. brelse b s = Ret () t \<and> bcalm p s t \<and> bview t = bview s \<and> busy t = busy s - {bn} \<and> pinned t = pinned s \<and>
    (\<forall>b' n. n \<noteq> bn \<longrightarrow> slot (bufs s) n = Some b' \<longrightarrow> mine p b' s \<longrightarrow> slot (bufs t) n = Some b' \<and> mine p b' t)"
proof -
  let ?f = "\<lambda>x. x\<lparr>brefcnt := 0\<rparr>" and ?l = "(slk s)(BufSl b := (slk s (BufSl b))\<lparr>slocked := False, spid := 0\<rparr>)"
  have b: "b < length (bufs s)" "bdev (bufs s ! b) = 1" "blockno (bufs s ! b) = bn"
    using bn by (simp_all add: slot_Some_iff [OF c])
  have lb: "slocked (slk s (BufSl b))" using m by (simp add: mine_def)
  obtain ord where o: "dll (bufs s) (head_next s) (head_prev s) ord" "set ord = {..<length (bufs s)}"
    using cacheD(1) [OF c] by blast
  then obtain xs ys where ord: "ord = xs @ b # ys" using b(1) by (metis lessThan_iff split_list)
  obtain t bs hn hp where r: "brelse b s = Ret () (t\<lparr>bufs := bs, head_next := hn, head_prev := hp\<rparr>)"
    "calm p (s\<lparr>slk := ?l\<rparr>) t" "dll bs hn hp (b # xs @ ys)" "same_bufs (upd_at b ?f (bufs s)) bs"
    using brelse_run [OF q m o(1) [unfolded ord]] cacheD(3) [OF c b(1)] lb by auto
  let ?t = "t\<lparr>bufs := bs, head_next := hn, head_prev := hp\<rparr>"
  note fl = calm_bio [OF r(2), simplified]
  have c1: "cache_at (upd_at b ?f (bufs s)) (head_next s) (head_prev s) (disk s) (\<lambda>i. slocked (?l (BufSl i)))"
  proof (rule cache_at_upd [OF c b(1)])
    show "blockno (bufs s ! i) \<noteq> blockno (?f (bufs s ! b))" if "i < length (bufs s)" "i \<noteq> b" "bdev (bufs s ! i) = 1" for i
      using cacheD(2) [OF c that(1) b(1) that(3) b(2)] that(2) by auto
  qed (use b lb cacheD(4-6) [OF c b(1)] saved in auto)
  have len: "length bs = length (bufs s)" using same_bufs_length [OF r(4)] by simp
  have c2: "cache_ok ?t"
    using same_bufs_cache [OF c1 r(4,3)] o(2) ord fl len by simp
  have sl: "slot bs n = slot (bufs s) n" for n
    unfolding same_bufs_slot [OF r(4)] slot_upd [OF c c1 b(1), simplified, OF b(2)] using bn b(3) slot_Some_iff [OF c, of n b]
    by auto
  have bv: "bdata (bs ! i) = bdata (bufs s ! i)" "bflags (bs ! i) = bflags (bufs s ! i)" if "i < length (bufs s)" for i
    using same_bufsD(1,5) [OF r(4), of i] that by (simp_all add: nth_upd_at split: if_splits)
  have rng: "slot (bufs s) n = Some i \<Longrightarrow> i < length (bufs s)" for n i by (simp add: slot_Some_iff [OF c])
  have "bview ?t = bview s"
    by (rule ext) (simp add: bview_def sl fl bv rng split: option.split)
  moreover have "busy ?t = busy s - {bn}"
  proof (rule set_eqI)
    fix n
    have "slot (bufs s) n = Some b \<longleftrightarrow> n = bn" using b by (auto simp: slot_Some_iff [OF c])
    then show "n \<in> busy ?t \<longleftrightarrow> n \<in> busy s - {bn}"
      by (cases "slot (bufs s) n") (auto simp: busy_def sl fl)
  qed
  moreover have "pinned ?t = pinned s" by (auto simp: pinned_def sl bv rng)
  moreover have "\<forall>b' n. n \<noteq> bn \<longrightarrow> slot (bufs s) n = Some b' \<longrightarrow> mine p b' s \<longrightarrow> slot (bufs ?t) n = Some b' \<and> mine p b' ?t"
    using b(3) calmD(2) [OF r(2)] len by (auto simp: sl mine_def fl slot_Some_iff [OF c])
  moreover have "bcalm p s ?t"
    unfolding bcalm_def
  proof (intro conjI)
    show "?t = s\<lparr>cpus := cpus ?t, procs := procs ?t, queue := queue ?t, q_tail := q_tail ?t, slk := slk ?t,
       bufs := bufs ?t, head_prev := head_prev ?t, head_next := head_next ?t\<rparr>"
      using calm_frame [OF r(2), where bs = bs and hn = hn and hp = hp] fl(6) by simp
    show "quiet p ?t" using calmD(1) [OF r(2)] by simp
    show "procs ?t ! p = procs s ! p" "length (procs ?t) = length (procs s)" using r(2) by (simp_all add: calm_def)
    show "cache_ok ?t" by (rule c2)
    show "length (bufs ?t) = length (bufs s)" using len by simp
    show "\<forall>i. slk ?t (InodeSl i) = slk s (InodeSl i)" using fl(6) by simp
  qed
  ultimately show ?thesis using r(1) by blast
qed


text \<open>Changing the contents of a locked buffer: a store by its holder, the flag \<open>log_write\<close> sets, a write to the disk.\<close>

lemma hold_upd:
  fixes ws :: "(nat \<times> block) list"
  assumes q: "quiet p s" and c: "cache_ok s" and m: "mine p b s" and bn: "slot (bufs s) bn = Some b"
    and f: "\<And>x. bnext (f x) = bnext x" "\<And>x. bprev (f x) = bprev x" "\<And>x. bdev (f x) = bdev x" "\<And>x. blockno (f x) = blockno x"
      "\<And>x. brefcnt (f x) = brefcnt x" "\<And>x. valid x \<Longrightarrow> valid (f x)" "length (bdata (f (bufs s ! b))) = BSIZE"
    and dk: "length dk = length (disk s)" "\<forall>x \<in> set dk. length x = BSIZE" "\<And>n. n \<noteq> unat bn \<Longrightarrow> dk ! n = disk s ! n"
  defines "t \<equiv> s\<lparr>bufs := upd_at b f (bufs s), disk := dk, writes := ws\<rparr>"
  shows "cache_ok t" "slot (bufs t) = slot (bufs s)" "mine p b t" "busy t = busy s"
    "bview t = (bview s)(bn := bdata (f (bufs s ! b)))"
    "pinned t = (if dirty (f (bufs s ! b)) then insert bn (pinned s) else pinned s - {bn})"
proof -
  have b: "b < length (bufs s)" "bdev (bufs s ! b) = 1" "blockno (bufs s ! b) = bn"
    using bn by (simp_all add: slot_Some_iff [OF c])
  have nb: "slot (bufs s) n = Some b \<longleftrightarrow> n = bn" for n using b by (auto simp: slot_Some_iff [OF c])
  have lb: "slocked (slk s (BufSl b))" using m by (simp add: mine_def)
  have v: "valid (bufs s ! b)" using cacheD(4) [OF c b(1)] lb by blast
  have u: "blockno (bufs s ! i) \<noteq> bn" if "i < length (bufs s)" "i \<noteq> b" "bdev (bufs s ! i) = 1" for i
    using cacheD(2) [OF c that(1) b(1) that(3) b(2)] that(2) b(3) by auto
  have un: "unat (blockno (bufs s ! i)) \<noteq> unat bn" if "i < length (bufs s)" "i \<noteq> b" "bdev (bufs s ! i) = 1" for i
    using u [OF that] by (simp add: word_unat_eq_iff)
  have c0: "cache_at (upd_at b f (bufs s)) (head_next s) (head_prev s) (disk s) (\<lambda>i. slocked (slk s (BufSl i)))"
    by (rule cache_at_upd [OF c b(1)]) (use b lb v f u cacheD(3,5) [OF c b(1)] in auto)
  have nt: "upd_at b f (bufs s) ! i = (if i = b then f (bufs s ! b) else bufs s ! i)" if "i < length (bufs s)" for i
    using that by (simp add: nth_upd_at)
  have "cache_at (upd_at b f (bufs s)) (head_next s) (head_prev s) dk (\<lambda>i. slocked (slk s (BufSl i)))"
  proof (rule cache_at_disk [OF c0 dk(1,2)])
    show "dk ! n = disk s ! n" if "n \<noteq> unat bn" for n by (rule dk(3) [OF that])
    show "slocked (slk s (BufSl i))" if "i < length (upd_at b f (bufs s))" "bdev (upd_at b f (bufs s) ! i) = 1"
      "unat (blockno (upd_at b f (bufs s) ! i)) = unat bn" for i
      using un [of i] that lb by (auto simp: nt split: if_splits)
  qed
  then show ok: "cache_ok t" by (simp add: t_def)
  show sl: "slot (bufs t) = slot (bufs s)"
  proof
    fix n
    show "slot (bufs t) n = slot (bufs s) n"
      using slot_upd [OF c c0 b(1), of n] b(2,3) f(3,4) bn nb [of n] by (cases "n = bn") (simp_all add: t_def)
  qed
  have bs: "bufs t = upd_at b f (bufs s)" "disk t = dk" "slk t = slk s" by (simp_all add: t_def)
  show "mine p b t" using m by (simp add: mine_def t_def)
  show "busy t = busy s" by (simp add: busy_def sl bs(3))
  show "bview t = (bview s)(bn := bdata (f (bufs s ! b)))"
  proof
    fix n
    show "bview t n = ((bview s)(bn := bdata (f (bufs s ! b)))) n"
    proof (cases "n = bn")
      case True
      then show ?thesis using f(6) [OF v] b bn unfolding bview_def sl by (simp add: bs)
    next
      case False
      then have "unat n \<noteq> unat bn" by (simp add: word_unat_eq_iff)
      with False dk(3) nb [of n] show ?thesis unfolding bview_def sl unfolding bs
        by (cases "slot (bufs s) n") auto
    qed
  qed
  show "pinned t = (if dirty (f (bufs s ! b)) then insert bn (pinned s) else pinned s - {bn})"
  proof (rule set_eqI)
    fix n
    show "n \<in> pinned t \<longleftrightarrow> n \<in> (if dirty (f (bufs s ! b)) then insert bn (pinned s) else pinned s - {bn})"
      using nb [of n] b bn unfolding pinned_def sl unfolding bs by (cases "slot (bufs s) n") auto
  qed
qed


lemma hold_store:
  assumes q: "quiet p s" and c: "cache_ok s" and m: "mine p b s" and bn: "slot (bufs s) bn = Some b" and d: "length d = BSIZE"
  defines "t \<equiv> s\<lparr>bufs := upd_at b (\<lambda>x. x\<lparr>bdata := d\<rparr>) (bufs s)\<rparr>"
  shows "quiet p t" "cache_ok t" "slot (bufs t) = slot (bufs s)" "mine p b t" "busy t = busy s"
    "bview t = (bview s)(bn := d)" "pinned t = pinned s"
proof -
  have dk: "\<forall>x \<in> set (disk s). length x = BSIZE" using c by (simp add: cache_at_def)
  have e: "t = s\<lparr>bufs := upd_at b (\<lambda>x. x\<lparr>bdata := d\<rparr>) (bufs s), disk := disk s, writes := writes s\<rparr>" by (simp add: t_def)
  note h = hold_upd [OF q c m bn, where f = "\<lambda>x. x\<lparr>bdata := d\<rparr>" and dk = "disk s" and ws = "writes s", folded e]
  show "quiet p t" using q by (simp add: t_def)
  show "cache_ok t" "slot (bufs t) = slot (bufs s)" "mine p b t" "busy t = busy s" "bview t = (bview s)(bn := d)"
    using h(1-5) d dk by simp_all
  have "dirty (bufs s ! b) \<longleftrightarrow> bn \<in> pinned s" using bn by (auto simp: pinned_def)
  then show "pinned t = pinned s" using h(6) d dk by (auto simp: insert_absorb)
qed

lemma bwrite_spec:
  assumes q: "quiet p s" and c: "cache_ok s" and m: "mine p b s" and bn: "slot (bufs s) bn = Some b"
  shows "\<exists>t. bwrite b s = Ret () t \<and> quiet p t \<and> cache_ok t \<and> mine p b t \<and> slot (bufs t) = slot (bufs s) \<and>
    t = s\<lparr>cpus := cpus t, bufs := bufs t, disk := disk t, writes := writes t\<rparr> \<and> length (bufs t) = length (bufs s) \<and>
    disk t = (disk s)[unat bn := bview s bn] \<and> writes t = writes s @ [(unat bn, bview s bn)] \<and>
    bdata (bufs t ! b) = bview s bn \<and> bview t = bview s \<and> busy t = busy s \<and> pinned t = pinned s - {bn}"
proof -
  let ?f = "\<lambda>x. x\<lparr>bflags := ((bflags x OR B_DIRTY) AND NOT B_DIRTY) OR B_VALID\<rparr>"
  let ?dk = "(disk s)[unat bn := bdata (bufs s ! b)]" and ?ws = "writes s @ [(unat bn, bdata (bufs s ! b))]"
  have b: "b < length (bufs s)" "bdev (bufs s ! b) = 1" "blockno (bufs s ! b) = bn"
    using bn by (simp_all add: slot_Some_iff [OF c])
  have v: "valid (bufs s ! b)" using cacheD(4) [OF c b(1)] m by (simp add: mine_def)
  have w: "bview s bn = bdata (bufs s ! b)" using v bn by (simp add: bview_def)
  have r: "unat bn < length (disk s)" using cacheD(5) [OF c b(1,2)] b(3) by simp
  have l: "length (bdata (bufs s ! b)) = BSIZE" by (rule cacheD(6) [OF c b(1,2) v])
  let ?s = "s\<lparr>cpus := crit s\<rparr>"
  let ?t = "?s\<lparr>bufs := upd_at b ?f (bufs ?s), disk := ?dk, writes := ?ws\<rparr>"
  have q': "quiet p ?s" by (rule quiet_crit [OF q])
  have e: "bwrite b s = Ret () ?t" using bwrite_eq [OF q m b(2)] r b(3) by simp
  have dk: "\<forall>x \<in> set ?dk. length x = BSIZE"
    using c l set_update_subset_insert [of "disk s" "unat bn" "bdata (bufs s ! b)"] unfolding cache_at_def by blast
  have "mine p b ?s" "slot (bufs ?s) bn = Some b" using m bn by (simp_all add: mine_def)
  note h = hold_upd [OF q' _ this, where f = ?f and dk = ?dk and ws = ?ws]
  have h1: "cache_ok ?t" by (rule h(1)) (use c dk l in simp_all)
  have h2: "slot (bufs ?t) = slot (bufs ?s)" by (rule h(2)) (use c dk l in simp_all)
  have h3: "mine p b ?t" by (rule h(3)) (use c dk l in simp_all)
  have h4: "busy ?t = busy ?s" by (rule h(4)) (use c dk l in simp_all)
  have h5: "bview ?t = (bview ?s)(bn := bdata (?f (bufs ?s ! b)))" by (rule h(5)) (use c dk l in simp_all)
  have h6: "pinned ?t = (if dirty (?f (bufs ?s ! b)) then insert bn (pinned ?s) else pinned ?s - {bn})"
    by (rule h(6)) (use c dk l in simp_all)
  have x: "bview ?s = bview s" "busy ?s = busy s" "pinned ?s = pinned s"
    by (rule view_same; simp)+
  show ?thesis
    using e q' h1 h2 h3 h4 h5 h6 b w x(1) x(2) x(3)
    by (intro exI [of _ ?t] conjI) (simp_all add: fun_upd_idem)
qed


section \<open>Start\<close>

lemma binit_turn:
  "mbind (gets head_next) (\<lambda>h.
       mbind (updb b (\<lambda>x. x\<lparr>bnext := h\<rparr>)) (\<lambda>_.
       mbind (updb b (\<lambda>x. x\<lparr>bprev := None\<rparr>)) (\<lambda>_.
       mbind (initsleeplock (BufSl b) ''buffer'') (\<lambda>_.
       mbind (gets head_next) (\<lambda>h.
       mbind (set_prev h (Some b)) (\<lambda>_.
       set_next None (Some b)))))))
   = mbind (initsleeplock (BufSl b) ''buffer'') (\<lambda>_. push_front b)"
proof
  fix s :: "'z bio_state_scheme"
  show "mbind (gets head_next) (\<lambda>h.
       mbind (updb b (\<lambda>x. x\<lparr>bnext := h\<rparr>)) (\<lambda>_.
       mbind (updb b (\<lambda>x. x\<lparr>bprev := None\<rparr>)) (\<lambda>_.
       mbind (initsleeplock (BufSl b) ''buffer'') (\<lambda>_.
       mbind (gets head_next) (\<lambda>h.
       mbind (set_prev h (Some b)) (\<lambda>_.
       set_next None (Some b))))))) s = mbind (initsleeplock (BufSl b) ''buffer'') (\<lambda>_. push_front b) s"
    by (cases "head_next s") (simp_all add: push_front_def updb_def initsleeplock_def initlock_def upd_slk_def)
qed

text \<open>After \<open>binit\<close> the list holds all buffers, the last one first; if they are zeroed, the cache is in order.\<close>

lemma binit_dll:
  fixes s :: "'z bio_state_scheme"
  shows "\<exists>t. binit s = Ret () t \<and> dll (bufs t) (head_next t) (head_prev t) (rev [0..<length (bufs s)]) \<and>
    same_bufs (bufs s) (bufs t) \<and> disk t = disk s \<and> (\<forall>i < length (bufs s). \<not> slocked (slk t (BufSl i)))"
proof -
  let ?n = "length (bufs s)"
  define Q where "Q k t \<longleftrightarrow> dll (bufs t) (head_next t) (head_prev t) (rev [0..<k]) \<and>
    same_bufs (bufs s) (bufs t) \<and> disk t = disk s \<and> (\<forall>i < k. \<not> slocked (slk t (BufSl i)))" for k and t :: "'z bio_state_scheme"
  let ?s0 = "s\<lparr>spin := (spin s)(BcacheLk := \<lparr>locked = False, lname = ''bcache'', lcpu = None\<rparr>), head_prev := None, head_next := None\<rparr>"
  have "\<exists>t. mforeach [0..<?n] (\<lambda>b. mbind (initsleeplock (BufSl b) ''buffer'') (\<lambda>_. push_front b)) ?s0 = Ret () t \<and> Q ?n t"
  proof (rule mforeach_upt [where Q = Q])
    show "Q 0 ?s0" by (simp add: Q_def dll_def)
  next
    fix k and t :: "'z bio_state_scheme"
    assume k: "k < ?n" and Qt: "Q k t"
    obtain u where u: "initsleeplock (BufSl k) ''buffer'' t = Ret () u" "bufs u = bufs t" "head_next u = head_next t"
        "head_prev u = head_prev t" "disk u = disk t" "slk u = (slk t)(BufSl k := \<lparr>slocked = False, slname = ''buffer'', spid = 0\<rparr>)"
      by (simp add: initsleeplock_def initlock_def upd_slk_def)
    have len: "length (bufs t) = ?n" using Qt by (simp add: Q_def same_bufs_length)
    have d: "dll (bufs u) (head_next u) (head_prev u) (rev [0..<k])" using Qt u by (simp add: Q_def)
    obtain bs hn hp where p: "push_front k u = Ret () (u\<lparr>bufs := bs, head_next := hn, head_prev := hp\<rparr>)"
      "dll bs hn hp (k # rev [0..<k])" "same_bufs (bufs u) bs"
      using push_front_dll [OF d, of k] k len u(2) by auto
    have "Q (Suc k) (u\<lparr>bufs := bs, head_next := hn, head_prev := hp\<rparr>)"
      using Qt u p same_bufs_trans [of "bufs s" "bufs t" bs] by (simp add: Q_def less_Suc_eq)
    with u(1) p(1) show "\<exists>u. mbind (initsleeplock (BufSl k) ''buffer'') (\<lambda>_. push_front k) t = Ret () u \<and> Q (Suc k) u"
      by simp
  qed
  then show ?thesis unfolding Q_def binit_def binit_turn by (simp add: initlock_def)
qed


lemma binit_cache_ok:
  assumes "\<forall>x \<in> set (bufs s). bdev x = 0 \<and> bflags x = 0 \<and> brefcnt x = 0" and "\<forall>b \<in> set (disk s). length b = BSIZE"
  shows "\<exists>t. binit s = Ret () t \<and> cache_ok t"
proof -
  obtain t where t: "binit s = Ret () t" "dll (bufs t) (head_next t) (head_prev t) (rev [0..<length (bufs s)])"
    "same_bufs (bufs s) (bufs t)" "disk t = disk s" "\<forall>i < length (bufs s). \<not> slocked (slk t (BufSl i))"
    using binit_dll by blast
  have len: "length (bufs t) = length (bufs s)" by (rule same_bufs_length [OF t(3)])
  have z: "bdev (bufs t ! i) = 0 \<and> bflags (bufs t ! i) = 0 \<and> brefcnt (bufs t ! i) = 0" if "i < length (bufs s)" for i
    using assms(1) that same_bufsD [OF t(3) that] by simp
  have "\<exists>ord. dll (bufs t) (head_next t) (head_prev t) ord \<and> set ord = {..<length (bufs t)}"
    using t(2) len by (intro exI [of _ "rev [0..<length (bufs s)]"]) auto
  with t z assms(2) len show ?thesis by (auto simp: cache_at_def)
qed

lemma bget_exhausted:
  assumes q: "quiet p s" and c: "cache_ok s" and n: "slot (bufs s) bn = None"
    and d: "dll (bufs s) (head_next s) (head_prev s) ord" "set ord = {..<length (bufs s)}"
    and b: "find (\<lambda>i. free_buf (bufs s ! i)) (rev ord) = None"
  shows "bget 1 bn s = Stop (Panic ''bget: no buffers'')"
proof -
  have f: "bget_cached (length (bufs s)) (head_next s) 1 bn (inlock BcacheLk s) = Ret None (inlock BcacheLk s)"
    using bget_cached_slot [of "inlock BcacheLk s" _ _ bn] c n by (simp add: inlock_def)
  have len: "length ord = length (bufs s)" using d by (metis card_lessThan distinct_card dll_def)
  have g: "bget_unused (length (bufs s)) (head_prev s) (inlock BcacheLk s) = Ret None (inlock BcacheLk s)"
    using bget_unused_find [of "inlock BcacheLk s" "head_prev s" "rev ord" "length (bufs s)"] d len b
    by (simp add: inlock_def dll_def)
  have h: "gets (\<lambda>s. (length (bufs s), head_next s)) (inlock BcacheLk s) = Ret (length (bufs s), head_next s) (inlock BcacheLk s)"
    "gets head_prev (inlock BcacheLk s) = Ret (head_prev s) (inlock BcacheLk s)"
    by (simp_all add: inlock_def)
  show ?thesis
    unfolding bget_def by (simp add: acquire_quiet [OF q] h f g del: gets_apply)
qed

section \<open>Properties\<close>

text \<open>
  C14: Reading and writing blocks through the cache. For an undisturbed process, while some buffer can be
  recycled, \<open>bread\<close> of a block no one has locked returns a buffer with the block's content; after the holder
  stores \<open>d\<close> in it, \<open>bwrite\<close> puts exactly \<open>d\<close> on the disk at that block, and after \<open>brelse\<close> the cache is in
  order, no lock is left behind, only this block has changed, and a new \<open>bread\<close> finds \<open>d\<close>.
\<close>

theorem bread_bwrite_coherent:
  assumes q: "quiet p s" and c: "cache_ok s" and bn: "unat bn < length (disk s)" "bn \<notin> busy s"
    and room: "card (busy s \<union> pinned s) < length (bufs s)" and d: "length d = BSIZE"
  shows "\<exists>b t u v. bread 1 bn s = Ret b t \<and> bdata (bufs t ! b) = bview s bn \<and>
    bwrite b (t\<lparr>bufs := upd_at b (\<lambda>x. x\<lparr>bdata := d\<rparr>) (bufs t)\<rparr>) = Ret () u \<and>
    disk u = (disk s)[unat bn := d] \<and> writes u = writes s @ [(unat bn, d)] \<and>
    brelse b u = Ret () v \<and> cache_ok v \<and> quiet p v \<and> disk v = disk u \<and> busy v = busy s \<and>
    bview v = (bview s)(bn := d) \<and> (\<exists>b' w. bread 1 bn v = Ret b' w \<and> bdata (bufs w ! b') = d)"
proof -
  obtain b t where t: "bread 1 bn s = Ret b t" "bcalm p s t" "mine p b t" "slot (bufs t) bn = Some b"
      "bdata (bufs t ! b) = bview s bn" "bview t = bview s" "busy t = insert bn (busy s)" "pinned t = pinned s"
    using bread_spec [OF q c bn] room by blast
  note t' = bcalmD [OF t(2)]
  define t2 where "t2 = t\<lparr>bufs := upd_at b (\<lambda>x. x\<lparr>bdata := d\<rparr>) (bufs t)\<rparr>"
  note h = hold_store [OF t'(1,2) t(3,4) d, folded t2_def]
  have t2: "disk t2 = disk s" "writes t2 = writes s" "length (bufs t2) = length (bufs s)" using t' by (simp_all add: t2_def)
  have s2: "slot (bufs t2) bn = Some b" using h(3) t(4) by simp
  obtain u where u: "bwrite b t2 = Ret () u" "quiet p u" "cache_ok u" "mine p b u" "slot (bufs u) = slot (bufs t2)"
      "length (bufs u) = length (bufs t2)" "disk u = (disk t2)[unat bn := bview t2 bn]" "writes u = writes t2 @ [(unat bn, bview t2 bn)]"
      "bdata (bufs u ! b) = bview t2 bn" "bview u = bview t2" "busy u = busy t2" "pinned u = pinned t2 - {bn}"
    using bwrite_spec [OF h(1,2,4) s2] by blast
  have w: "disk u = (disk s)[unat bn := d]" "writes u = writes s @ [(unat bn, d)]" "bview u = (bview s)(bn := d)"
    using u(7,8,10) h(6) t(6) t2 by simp_all
  have su: "slot (bufs u) bn = Some b" using u(5) s2 by simp
  have sv: "dirty (bufs u ! b) \<or> bdata (bufs u ! b) = disk u ! unat bn"
    using u(9) h(6) w(1) bn(1) by simp
  obtain v where v: "brelse b u = Ret () v" "bcalm p u v" "bview v = bview u" "busy v = busy u - {bn}" "pinned v = pinned u"
    using brelse_spec [OF u(2,3,4) su sv] by blast
  note v' = bcalmD [OF v(2)]
  have bv: "busy v = busy s" using v(4) u(11) h(5) t(7) bn(2) by auto
  have "card (busy v \<union> pinned v) \<le> card (busy s \<union> pinned s)"
    using bv v(5) u(12) h(7) t(8) by (intro card_mono) auto
  then have r: "card (busy v \<union> pinned v) < length (bufs v)" using room v'(3) u(6) t2(3) by simp
  obtain b' x where x: "bread 1 bn v = Ret b' x" "bdata (bufs x ! b') = bview v bn"
    using bread_spec [OF v'(1,2), of bn] r bv bn v'(4) w(1) by auto
  have "bdata (bufs x ! b') = d" using x(2) v(3) w(3) by simp
  with x(1) have "\<exists>b' w. bread 1 bn v = Ret b' w \<and> bdata (bufs w ! b') = d" by blast
  with t(1,5) u(1) w(1,2) v(1) v'(1,2,4) bv show ?thesis unfolding t2_def v(3) [unfolded w(3), symmetric] by blast
qed


text \<open>A cache of two empty buffers over a disk of two blocks, for examples.\<close>

definition ex_buf :: "nat option \<Rightarrow> nat option \<Rightarrow> buf" where
  "ex_buf pr nx = \<lparr>bflags = 0, bdev = 0, blockno = 0, brefcnt = 0, bprev = pr, bnext = nx, qnext = None, bdata = []\<rparr>"

definition ex_bio :: bio_state where
  "ex_bio = sl_state.extend ex_sl \<lparr>bufs = [ex_buf (Some 1) None, ex_buf None (Some 0)], head_prev = Some 0, head_next = Some 1,
     disk = [replicate BSIZE 0, replicate BSIZE 7], writes = []\<rparr>"

lemma ex_bio_quiet: "quiet 0 ex_bio"
  using ex_run_inv
  by (simp add: quiet_def ex_bio_def sl_state.defs ex_sl_def pstate.defs ex_run_def ex_pstate_def ex_cpu_def ex_proc_def mwf_at_def
      this_idx_def spinfree_def)

lemma ex_bio_fields:
  "bufs ex_bio = [ex_buf (Some 1) None, ex_buf None (Some 0)]" "head_prev ex_bio = Some 0" "head_next ex_bio = Some 1"
  "disk ex_bio = [replicate BSIZE 0, replicate BSIZE 7]" "writes ex_bio = []" "slk ex_bio = (\<lambda>_. \<lparr>slocked = False, slname = [], spid = 0\<rparr>)"
  by (simp_all add: ex_bio_def sl_state.defs ex_sl_def pstate.defs)

lemma ex_bio_dll: "dll (bufs ex_bio) (head_next ex_bio) (head_prev ex_bio) [1, 0]"
  by (simp add: ex_bio_fields dll_def ex_buf_def)

lemma ex_bio_cache: "cache_ok ex_bio"
proof -
  have "set [1, 0] = {..<length (bufs ex_bio)}" by (auto simp: ex_bio_fields)
  with ex_bio_dll have "\<exists>ord. dll (bufs ex_bio) (head_next ex_bio) (head_prev ex_bio) ord \<and> set ord = {..<length (bufs ex_bio)}"
    by blast
  then show ?thesis by (simp add: cache_at_def) (simp add: ex_bio_fields ex_buf_def less_Suc_eq)
qed

lemma ex_bio_empty: "slot (bufs ex_bio) bn = None" "busy ex_bio = {}" "pinned ex_bio = {}" "bview ex_bio bn = disk ex_bio ! unat bn"
proof -
  show n: "slot (bufs ex_bio) bn = None" for bn by (simp add: slot_def ex_bio_fields ex_buf_def)
  show "busy ex_bio = {}" "pinned ex_bio = {}" "bview ex_bio bn = disk ex_bio ! unat bn"
    by (simp_all add: busy_def pinned_def bview_def n)
qed

theorem bread_bwrite_coherent_witness:
  "\<exists>b t u v. bread 1 1 ex_bio = Ret b t \<and> bdata (bufs t ! b) = replicate BSIZE 7 \<and>
     bwrite b (t\<lparr>bufs := upd_at b (\<lambda>x. x\<lparr>bdata := replicate BSIZE 5\<rparr>) (bufs t)\<rparr>) = Ret () u \<and>
     disk u = [replicate BSIZE 0, replicate BSIZE 5] \<and> brelse b u = Ret () v \<and> busy v = {}"
proof -
  have "unat (1 :: uint) < length (disk ex_bio)" by (simp add: ex_bio_fields)
  moreover have "1 \<notin> busy ex_bio" "card (busy ex_bio \<union> pinned ex_bio) < length (bufs ex_bio)"
    by (simp_all add: ex_bio_empty) (simp add: ex_bio_fields)
  ultimately show ?thesis
    using bread_bwrite_coherent [OF ex_bio_quiet ex_bio_cache, of 1 "replicate BSIZE 5"]
    unfolding ex_bio_empty(2,4) by (auto simp: ex_bio_fields(4))
qed

text \<open>
  C26: Replacement order. Let \<open>ord\<close> be the buffers in list order, most recently used first. When a block
  is not cached, \<open>bread\<close> takes the least recently used buffer that is neither referenced nor dirty, without
  changing the order, and panics if there is none; the \<open>brelse\<close> that follows moves the buffer to the front.
\<close>

theorem bcache_lru:
  assumes q: "quiet p s" and c: "cache_ok s" and bn: "unat bn < length (disk s)" "slot (bufs s) bn = None"
    and ord: "dll (bufs s) (head_next s) (head_prev s) ord" "set ord = {..<length (bufs s)}"
  shows "case find (\<lambda>i. brefcnt (bufs s ! i) = 0 \<and> \<not> dirty (bufs s ! i)) (rev ord) of
      None \<Rightarrow> bread 1 bn s = Stop (Panic ''bget: no buffers'')
    | Some b \<Rightarrow> \<exists>t. bread 1 bn s = Ret b t \<and> slot (bufs t) bn = Some b \<and>
        dll (bufs t) (head_next t) (head_prev t) ord \<and>
        (\<exists>u. brelse b t = Ret () u \<and> dll (bufs u) (head_next u) (head_prev u) (b # remove1 b ord))"
proof -
  have fb: "(\<lambda>i. brefcnt (bufs s ! i) = 0 \<and> \<not> dirty (bufs s ! i)) = (\<lambda>i. free_buf (bufs s ! i))"
    by (simp add: free_buf_def)
  show ?thesis
  proof (cases "find (\<lambda>i. free_buf (bufs s ! i)) (rev ord)")
    case None
    then show ?thesis unfolding fb by (simp add: bread_def bget_exhausted [OF q c bn(2) ord])
  next
    case (Some b)
    obtain f where f: "bread 1 bn s = Ret b (took p b f s)" "read_in s bn b f"
      using bread_miss [OF q c bn(2,1) ord Some] by blast
    let ?t = "took p b f s"
    have b: "b < length (bufs s)" using f(2) by (simp add: read_in_def)
    have d: "dll (bufs ?t) (head_next ?t) (head_prev ?t) ord"
      using ord(1) f(2) by (simp add: read_in_def dll_upd)
    obtain xs ys where o: "ord = xs @ b # ys" using b ord(2) by (metis lessThan_iff split_list)
    have "b \<notin> set xs" using d o by (simp add: dll_def)
    then have rm: "remove1 b ord = xs @ ys" by (simp add: o remove1_append)
    have m: "mine p b ?t" using b by (simp add: mine_def slocked_took) (simp add: took_def)
    obtain t bs hn hp where "brelse b ?t = Ret () (t\<lparr>bufs := bs, head_next := hn, head_prev := hp\<rparr>)" "dll bs hn hp (b # xs @ ys)"
      using brelse_run [OF quiet_took [OF q] m d [unfolded o]] f(2) b by (auto simp: read_in_def)
    then have "\<exists>u. brelse b ?t = Ret () u \<and> dll (bufs u) (head_next u) (head_prev u) (b # remove1 b ord)"
      unfolding rm by fastforce
    moreover have "slot (bufs ?t) bn = Some b" using read_in_slot [OF c f(2) bn(1)] by simp
    ultimately show ?thesis using f(1) d unfolding fb by (auto simp: Some)
  qed
qed

theorem bcache_lru_witness:
  "\<exists>t. bread 1 1 ex_bio = Ret 0 t \<and> (\<exists>u. brelse 0 t = Ret () u \<and> dll (bufs u) (head_next u) (head_prev u) [0, 1])"
proof -
  have "unat (1 :: uint) < length (disk ex_bio)" by (simp add: ex_bio_fields)
  moreover have "set [1, 0] = {..<length (bufs ex_bio)}" by (auto simp: ex_bio_fields)
  moreover have "find (\<lambda>i. brefcnt (bufs ex_bio ! i) = 0 \<and> \<not> dirty (bufs ex_bio ! i)) (rev [1, 0]) = Some 0"
    by (simp add: ex_bio_fields ex_buf_def)
  ultimately show ?thesis
    using bcache_lru [OF ex_bio_quiet ex_bio_cache _ ex_bio_empty(1) ex_bio_dll, of 1] by auto
qed

section \<open>Block operations for the layers above\<close>

text \<open>
  The operations in terms of \<open>bview\<close>, \<open>busy\<close> and \<open>pinned\<close> alone. \<open>hold p b bn s\<close>: process \<open>p\<close> has locked
  buffer \<open>b\<close>, which holds block \<open>bn\<close>. \<open>bstep p s t\<close>: from \<open>s\<close> to \<open>t\<close> process \<open>p\<close> ran undisturbed and only the
  cache, the disk and what critical sections leave behind may have changed.
\<close>

definition hold :: "nat \<Rightarrow> nat \<Rightarrow> uint \<Rightarrow> 'z bio_state_scheme \<Rightarrow> bool" where
  "hold p b bn s \<longleftrightarrow> mine p b s \<and> slot (bufs s) bn = Some b"

definition bstep :: "nat \<Rightarrow> 'z bio_state_scheme \<Rightarrow> 'z bio_state_scheme \<Rightarrow> bool" where
  "bstep p s t \<longleftrightarrow> t = s\<lparr>cpus := cpus t, procs := procs t, queue := queue t, q_tail := q_tail t, slk := slk t,
       bufs := bufs t, head_prev := head_prev t, head_next := head_next t, disk := disk t, writes := writes t\<rparr> \<and>
     quiet p t \<and> procs t ! p = procs s ! p \<and> length (procs t) = length (procs s) \<and>
     cache_ok t \<and> length (bufs t) = length (bufs s) \<and> length (disk t) = length (disk s) \<and>
     (\<forall>i. slk t (InodeSl i) = slk s (InodeSl i))"

lemma bstepD:
  assumes "bstep p s t"
  shows "quiet p t" "cache_ok t" "length (bufs t) = length (bufs s)" "length (disk t) = length (disk s)"
    "procs t ! p = procs s ! p" "slk t (InodeSl i) = slk s (InodeSl i)" "length (procs t) = length (procs s)"
    "t = s\<lparr>cpus := cpus t, procs := procs t, queue := queue t, q_tail := q_tail t, slk := slk t,
       bufs := bufs t, head_prev := head_prev t, head_next := head_next t, disk := disk t, writes := writes t\<rparr>"
  using assms unfolding bstep_def by blast+

lemma bstep_refl: "quiet p s \<Longrightarrow> cache_ok s \<Longrightarrow> bstep p s s"
  by (simp add: bstep_def)

lemma bstep_trans: "bstep p s t \<Longrightarrow> bstep p t u \<Longrightarrow> bstep p s u"
  by (cases s, cases t, cases u) (simp add: bstep_def)

lemma bcalm_bstep: "bcalm p s t \<Longrightarrow> bstep p s t"
  by (cases s, cases t) (simp add: bstep_def bcalm_def)

lemma hold_data:
  assumes "cache_ok s" and "hold p b bn s"
  shows "bdata (bufs s ! b) = bview s bn" "b < length (bufs s)" "blockno (bufs s ! b) = bn" "bdev (bufs s ! b) = 1"
    "bn \<in> busy s" "unat bn < length (disk s)" "dirty (bufs s ! b) \<longleftrightarrow> bn \<in> pinned s"
proof -
  have b: "slot (bufs s) bn = Some b" "slocked (slk s (BufSl b))" using assms(2) by (simp_all add: hold_def mine_def)
  then show x: "b < length (bufs s)" "blockno (bufs s ! b) = bn" "bdev (bufs s ! b) = 1"
    by (simp_all add: slot_Some_iff [OF assms(1)])
  then show "unat bn < length (disk s)" using cacheD(5) [OF assms(1)] by blast
  have "valid (bufs s ! b)" using cacheD(4) [OF assms(1) x(1)] b(2) by blast
  with b show "bdata (bufs s ! b) = bview s bn" "bn \<in> busy s" "dirty (bufs s ! b) \<longleftrightarrow> bn \<in> pinned s"
    by (auto simp: bview_def busy_def pinned_def)
qed

text \<open>A block no one has locked is on the disk as the cache shows it, unless it is pinned.\<close>

lemma view_clean:
  assumes "cache_ok s" and "bn \<notin> busy s" and "bn \<notin> pinned s"
  shows "bview s bn = disk s ! unat bn"
proof (cases "slot (bufs s) bn")
  case (Some b)
  then have "b < length (bufs s)" "bdev (bufs s ! b) = 1" "blockno (bufs s ! b) = bn" by (simp_all add: slot_Some_iff [OF assms(1)])
  moreover have "\<not> slocked (slk s (BufSl b))" "\<not> dirty (bufs s ! b)" using assms(2,3) Some by (auto simp: busy_def pinned_def)
  ultimately show ?thesis using cacheD(7) [OF assms(1), of b] Some by (auto simp: bview_def)
qed (simp add: bview_def)

lemma bread_ok:
  assumes "quiet p s" and "cache_ok s" and "unat bn < length (disk s)" and "bn \<notin> busy s"
    and "bn \<in> pinned s \<or> card (busy s \<union> pinned s) < length (bufs s)"
  obtains b t where "bread 1 bn s = Ret b t" "bstep p s t" "hold p b bn t" "bview t = bview s" "busy t = insert bn (busy s)"
    "pinned t = pinned s" "disk t = disk s" "writes t = writes s" "\<And>b' n. n \<noteq> bn \<Longrightarrow> hold p b' n s \<Longrightarrow> hold p b' n t"
proof -
  obtain b t where t: "bread 1 bn s = Ret b t" "bcalm p s t" "mine p b t" "slot (bufs t) bn = Some b" "bview t = bview s"
    "busy t = insert bn (busy s)" "pinned t = pinned s"
    "\<forall>b' n. n \<noteq> bn \<longrightarrow> slot (bufs s) n = Some b' \<longrightarrow> mine p b' s \<longrightarrow> slot (bufs t) n = Some b' \<and> mine p b' t"
    using bread_spec [OF assms] by blast
  show thesis
    by (rule that [OF t(1) bcalm_bstep [OF t(2)] _ t(5,6,7) bcalmD(4,5) [OF t(2)]]) (use t(3,4,8) in \<open>simp_all add: hold_def\<close>)
qed

lemma brelse_ok:
  assumes "quiet p s" and "cache_ok s" and "hold p b bn s" and "bn \<in> pinned s \<or> bview s bn = disk s ! unat bn"
  obtains t where "brelse b s = Ret () t" "bstep p s t" "bview t = bview s" "busy t = busy s - {bn}" "pinned t = pinned s"
    "disk t = disk s" "writes t = writes s" "\<And>b' n. n \<noteq> bn \<Longrightarrow> hold p b' n s \<Longrightarrow> hold p b' n t"
proof -
  have h: "mine p b s" "slot (bufs s) bn = Some b" using assms(3) by (simp_all add: hold_def)
  have sv: "dirty (bufs s ! b) \<or> bdata (bufs s ! b) = disk s ! unat bn" using hold_data [OF assms(2,3)] assms(4) by simp
  obtain t where t: "brelse b s = Ret () t" "bcalm p s t" "bview t = bview s" "busy t = busy s - {bn}" "pinned t = pinned s"
    "\<forall>b' n. n \<noteq> bn \<longrightarrow> slot (bufs s) n = Some b' \<longrightarrow> mine p b' s \<longrightarrow> slot (bufs t) n = Some b' \<and> mine p b' t"
    using brelse_spec [OF assms(1,2) h sv] by blast
  show thesis
    by (rule that [OF t(1) bcalm_bstep [OF t(2)] t(3,4,5) bcalmD(4,5) [OF t(2)]]) (use t(6) in \<open>simp_all add: hold_def\<close>)
qed

text \<open>A store into a locked buffer.\<close>

lemma bstore_ok:
  assumes "quiet p s" and "cache_ok s" and "hold p b bn s" and "length d = BSIZE"
  obtains t where "updb b (\<lambda>x. x\<lparr>bdata := d\<rparr>) s = Ret () t" "bstep p s t" "bview t = (bview s)(bn := d)" "busy t = busy s"
    "pinned t = pinned s" "disk t = disk s" "writes t = writes s" "\<And>b' n. hold p b' n s \<Longrightarrow> hold p b' n t"
proof -
  have h: "mine p b s" "slot (bufs s) bn = Some b" using assms(3) by (simp_all add: hold_def)
  note t = hold_store [OF assms(1,2) h assms(4)]
  show thesis
  proof (rule that)
    let ?t = "s\<lparr>bufs := upd_at b (\<lambda>x. x\<lparr>bdata := d\<rparr>) (bufs s)\<rparr>"
    show "updb b (\<lambda>x. x\<lparr>bdata := d\<rparr>) s = Ret () ?t" by (simp add: updb_def)
    show "bstep p s ?t" using t(1,2) by (simp add: bstep_def)
    show "hold p b' n ?t" if "hold p b' n s" for b' n
      using that t(3) by (simp add: hold_def mine_def)
  qed (use t in simp_all)
qed

lemma bwrite_ok:
  assumes "quiet p s" and "cache_ok s" and "hold p b bn s"
  obtains t where "bwrite b s = Ret () t" "bstep p s t" "bview t = bview s" "busy t = busy s" "pinned t = pinned s - {bn}"
    "disk t = (disk s)[unat bn := bview s bn]" "writes t = writes s @ [(unat bn, bview s bn)]"
    "\<And>b' n. hold p b' n s \<Longrightarrow> hold p b' n t"
proof -
  have h: "mine p b s" "slot (bufs s) bn = Some b" using assms(3) by (simp_all add: hold_def)
  obtain t where t: "bwrite b s = Ret () t" "quiet p t" "cache_ok t" "slot (bufs t) = slot (bufs s)"
    "t = s\<lparr>cpus := cpus t, bufs := bufs t, disk := disk t, writes := writes t\<rparr>" "length (bufs t) = length (bufs s)"
    "disk t = (disk s)[unat bn := bview s bn]" "writes t = writes s @ [(unat bn, bview s bn)]"
    "bview t = bview s" "busy t = busy s" "pinned t = pinned s - {bn}"
    using bwrite_spec [OF assms(1,2) h] by blast
  have f: "procs t = procs s" "slk t = slk s" "queue t = queue s" "q_tail t = q_tail s" "head_prev t = head_prev s" "head_next t = head_next s"
    by (subst t(5), simp)+
  have "bstep p s t"
    unfolding bstep_def using t(2,3,6,7) f t(5) by (simp del: list_update_id)
  then show thesis
    by (rule that [OF t(1) _ t(9,10,11,7,8)]) (use t(4,6) f in \<open>simp add: hold_def mine_def\<close>)
qed

lemma bdirty_ok:
  assumes "quiet p s" and "cache_ok s" and "hold p b bn s"
  obtains t where "updb b (\<lambda>x. x\<lparr>bflags := bflags x OR B_DIRTY\<rparr>) s = Ret () t" "bstep p s t" "bview t = bview s" "busy t = busy s"
    "pinned t = insert bn (pinned s)" "disk t = disk s" "writes t = writes s" "\<And>b' n. hold p b' n s \<Longrightarrow> hold p b' n t"
    "t = s\<lparr>bufs := bufs t\<rparr>"
proof -
  have h: "mine p b s" "slot (bufs s) bn = Some b" using assms(3) by (simp_all add: hold_def)
  let ?f = "\<lambda>x. x\<lparr>bflags := bflags x OR B_DIRTY\<rparr>"
  let ?t = "s\<lparr>bufs := upd_at b ?f (bufs s), disk := disk s, writes := writes s\<rparr>"
  have e: "?t = s\<lparr>bufs := upd_at b ?f (bufs s)\<rparr>" by simp
  have dk: "\<forall>x \<in> set (disk s). length x = BSIZE" using assms(2) by (simp add: cache_at_def)
  have l: "length (bdata (bufs s ! b)) = BSIZE"
    using bview_length [OF assms(2), of bn] hold_data [OF assms(2,3)] by simp
  note u = hold_upd [OF assms(1,2) h, where f = ?f and dk = "disk s" and ws = "writes s", unfolded e]
  let ?t = "s\<lparr>bufs := upd_at b ?f (bufs s)\<rparr>"
  have u1: "cache_ok ?t" by (rule u(1)) (use dk l in simp_all)
  have u2: "slot (bufs ?t) = slot (bufs s)" by (rule u(2)) (use dk l in simp_all)
  have u4: "busy ?t = busy s" by (rule u(4)) (use dk l in simp_all)
  have u5: "bview ?t = (bview s)(bn := bdata (?f (bufs s ! b)))" by (rule u(5)) (use dk l in simp_all)
  have u6: "pinned ?t = (if dirty (?f (bufs s ! b)) then insert bn (pinned s) else pinned s - {bn})" by (rule u(6)) (use dk l in simp_all)
  show thesis
  proof (rule that)
    show "updb b ?f s = Ret () ?t" by (simp add: updb_def)
    show "bstep p s ?t" using u1 assms(1) by (simp add: bstep_def)
    show "bview ?t = bview s" using u5 hold_data(1) [OF assms(2,3)] by (simp add: fun_upd_idem)
    show "pinned ?t = insert bn (pinned s)" using u6 by simp
    show "hold p b' n ?t" if "hold p b' n s" for b' n
      using that u2 by (simp add: hold_def mine_def)
  qed (use u4 in simp_all)
qed

end
