(* ===== verification/Bytes.thy ===== *)
theory Bytes
  imports Memory
begin

text \<open>
  Byte arrays the kernel reads and writes through structure pointers: blocks of the disk, headers of
  executables. A field is a slice of the array, integers are little-endian as on the x86.
\<close>

section \<open>Slices\<close>

definition slice :: "nat \<Rightarrow> nat \<Rightarrow> 'a list \<Rightarrow> 'a list" where
  "slice a n d = take n (drop a d)"

definition splice_at :: "nat \<Rightarrow> 'a list \<Rightarrow> 'a list \<Rightarrow> 'a list" where
  "splice_at a xs d = take a d @ xs @ drop (a + length xs) d"

lemma length_slice: "a + n \<le> length d \<Longrightarrow> length (slice a n d) = n"
  by (simp add: slice_def)

lemma length_splice_at [simp]: "a + length xs \<le> length d \<Longrightarrow> length (splice_at a xs d) = length d"
  by (simp add: splice_at_def)

lemma nth_splice_at:
  "a + length xs \<le> length d \<Longrightarrow> i < length d \<Longrightarrow>
     splice_at a xs d ! i = (if a \<le> i \<and> i < a + length xs then xs ! (i - a) else d ! i)"
  by (auto simp: splice_at_def nth_append)

lemma slice_splice_same: "a + length xs \<le> length d \<Longrightarrow> slice a (length xs) (splice_at a xs d) = xs"
  by (simp add: slice_def splice_at_def)

lemma slice_nth: "a + n \<le> length d \<Longrightarrow> i < n \<Longrightarrow> slice a n d ! i = d ! (a + i)"
  by (simp add: slice_def)

lemma slice_splice_other:
  assumes "a + length xs \<le> length d" and "b + n \<le> length d" and "b + n \<le> a \<or> a + length xs \<le> b"
  shows "slice b n (splice_at a xs d) = slice b n d"
  by (rule nth_equalityI) (use assms in \<open>auto simp: length_slice slice_nth nth_splice_at\<close>)

lemma slice_eq_nth:
  assumes "a + n \<le> length d" and "length e = length d" and "\<And>i. a \<le> i \<Longrightarrow> i < a + n \<Longrightarrow> e ! i = d ! i"
  shows "slice a n e = slice a n d"
  by (rule nth_equalityI) (use assms in \<open>auto simp: length_slice slice_nth\<close>)

section \<open>Little-endian integers\<close>

definition le32 :: "uint \<Rightarrow> byte list" where
  "le32 v = [ucast v, ucast (drop_bit 8 v), ucast (drop_bit 16 v), ucast (drop_bit 24 v)]"

definition de32 :: "byte list \<Rightarrow> uint" where
  "de32 b = ucast (b ! 0) OR push_bit 8 (ucast (b ! 1)) OR push_bit 16 (ucast (b ! 2)) OR push_bit 24 (ucast (b ! 3))"

definition le16 :: "ushort \<Rightarrow> byte list" where
  "le16 v = [ucast v, ucast (drop_bit 8 v)]"

definition de16 :: "byte list \<Rightarrow> ushort" where
  "de16 b = ucast (b ! 0) OR push_bit 8 (ucast (b ! 1))"

lemma length_le [simp]: "length (le32 v) = 4" "length (le16 w) = 2"
  by (simp_all add: le32_def le16_def)

lemma de32_le32 [simp]: "de32 (le32 v) = v"
proof -
  let ?m = "\<lambda>_ :: uint. 0 :: byte"
  have "de32 (le32 v) = load32 (store32 ?m 0 v) 0"
    by (simp add: de32_def le32_def load32_def store32_def)
  then show ?thesis by simp
qed

lemma de16_le16 [simp]: "de16 (le16 w) = w"
proof (rule bit_word_eqI)
  fix n :: nat
  assume "n < LENGTH(16)"
  moreover have "n < 8 \<or> 8 \<le> n" by linarith
  ultimately show "bit (de16 (le16 w)) n \<longleftrightarrow> bit w n"
    by (auto simp: de16_def le16_def bit_simps)
qed

definition get32 :: "byte list \<Rightarrow> nat \<Rightarrow> uint" where
  "get32 d a = de32 (slice a 4 d)"

definition put32 :: "nat \<Rightarrow> uint \<Rightarrow> byte list \<Rightarrow> byte list" where
  "put32 a v d = splice_at a (le32 v) d"

definition get16 :: "byte list \<Rightarrow> nat \<Rightarrow> ushort" where
  "get16 d a = de16 (slice a 2 d)"

definition put16 :: "nat \<Rightarrow> ushort \<Rightarrow> byte list \<Rightarrow> byte list" where
  "put16 a v d = splice_at a (le16 v) d"

lemma length_put_int [simp]:
  "a + 4 \<le> length d \<Longrightarrow> length (put32 a v d) = length d" "a + 2 \<le> length d \<Longrightarrow> length (put16 a w d) = length d"
  by (simp_all add: put32_def put16_def)

lemma get_put_same [simp]:
  "a + 4 \<le> length d \<Longrightarrow> get32 (put32 a v d) a = v" "a + 2 \<le> length d \<Longrightarrow> get16 (put16 a w d) a = w"
  using slice_splice_same [of a "le32 v" d] slice_splice_same [of a "le16 w" d]
  by (simp_all add: get32_def put32_def get16_def put16_def)

lemma slice_put:
  "a + 4 \<le> length d \<Longrightarrow> b + n \<le> length d \<Longrightarrow> b + n \<le> a \<or> a + 4 \<le> b \<Longrightarrow> slice b n (put32 a v d) = slice b n d"
  "a + 2 \<le> length d \<Longrightarrow> b + n \<le> length d \<Longrightarrow> b + n \<le> a \<or> a + 2 \<le> b \<Longrightarrow> slice b n (put16 a w d) = slice b n d"
  by (simp_all add: put32_def put16_def slice_splice_other)

lemma get_put_other:
  "a + 4 \<le> length d \<Longrightarrow> b + 4 \<le> length d \<Longrightarrow> b + 4 \<le> a \<or> a + 4 \<le> b \<Longrightarrow> get32 (put32 a v d) b = get32 d b"
  "a + 2 \<le> length d \<Longrightarrow> b + 4 \<le> length d \<Longrightarrow> b + 4 \<le> a \<or> a + 2 \<le> b \<Longrightarrow> get32 (put16 a w d) b = get32 d b"
  "a + 4 \<le> length d \<Longrightarrow> b + 2 \<le> length d \<Longrightarrow> b + 2 \<le> a \<or> a + 4 \<le> b \<Longrightarrow> get16 (put32 a v d) b = get16 d b"
  "a + 2 \<le> length d \<Longrightarrow> b + 2 \<le> length d \<Longrightarrow> b + 2 \<le> a \<or> a + 2 \<le> b \<Longrightarrow> get16 (put16 a w d) b = get16 d b"
  by (simp_all add: get32_def get16_def slice_put)

section \<open>Arrays of integers\<close>

text \<open>The integers \<open>vs\<close> stored one after the other from offset \<open>a\<close> on.\<close>

fun put32s :: "nat \<Rightarrow> uint list \<Rightarrow> byte list \<Rightarrow> byte list" where
  "put32s a [] d = d"
| "put32s a (v # vs) d = put32s (a + 4) vs (put32 a v d)"

definition get32s :: "nat \<Rightarrow> nat \<Rightarrow> byte list \<Rightarrow> uint list" where
  "get32s a n d = map (\<lambda>i. get32 d (a + 4 * i)) [0..<n]"

lemma length_put32s [simp]: "a + 4 * length vs \<le> length d \<Longrightarrow> length (put32s a vs d) = length d"
  by (induction vs arbitrary: a d) auto

lemma get32_put32s_before:
  "a + 4 * length vs \<le> length d \<Longrightarrow> b + 4 \<le> a \<Longrightarrow> get32 (put32s a vs d) b = get32 d b"
  by (induction vs arbitrary: a d) (auto simp: get_put_other)

lemma get32_put32s:
  assumes "a + 4 * length vs \<le> length d" and "i < length vs"
  shows "get32 (put32s a vs d) (a + 4 * i) = vs ! i"
  using assms
proof (induction vs arbitrary: a d i)
  case (Cons v vs)
  show ?case
  proof (cases i)
    case 0
    with Cons.prems show ?thesis by (simp add: get32_put32s_before)
  next
    case (Suc j)
    with Cons.IH [of "a + 4" "put32 a v d" j] Cons.prems show ?thesis by (simp add: algebra_simps)
  qed
qed simp

lemma get32s_put32s:
  "a + 4 * length vs \<le> length d \<Longrightarrow> get32s a (length vs) (put32s a vs d) = vs"
  by (rule nth_equalityI) (simp_all add: get32s_def get32_put32s)

lemma put32s_append:
  "put32s a (us @ vs) d = put32s (a + 4 * length us) vs (put32s a us d)"
  by (induction us arbitrary: a d) (simp_all add: algebra_simps)

end
