(* ===== verification/Log.thy ===== *)
theory Log
  imports Bio Bytes
begin

text \<open>
  Model of \<open>log.c\<close>, the write-ahead log that makes a group of block writes atomic, and of \<open>readsb\<close> of
  \<open>fs.c\<close>, from which it learns where the log lies on the disk.

  \<open>struct log\<close> is the group of fields of \<open>log_state\<close>. A process that has to wait sleeps inside
  \<open>begin_op\<close>; \<open>begin_op_loop\<close> is the loop it runs with the lock held, again each time it is resumed.
\<close>

section \<open>State\<close>

record superblock =
  sb_size :: uint
  nblocks :: uint
  ninodes :: uint
  nlog :: uint
  logstart :: uint
  inodestart :: uint
  bmapstart :: uint

record log_state = bio_state +
  lg_start :: int
  lg_size :: int
  outstanding :: int
  committing :: bool
  lg_dev :: int
  lh_n :: int
  lh_block :: "int list"

abbreviation LOGSIZE :: nat where "LOGSIZE \<equiv> 30"
abbreviation MAXOPBLOCKS :: nat where "MAXOPBLOCKS \<equiv> 10"

section \<open>Operations\<close>

definition decode_sb :: "block \<Rightarrow> superblock" where
  "decode_sb d = \<lparr>sb_size = get32 d 0, nblocks = get32 d 4, ninodes = get32 d 8, nlog = get32 d 12,
     logstart = get32 d 16, inodestart = get32 d 20, bmapstart = get32 d 24\<rparr>"

definition readsb :: "int \<Rightarrow> ('z bio_state_scheme, superblock) kfun" where
  "readsb dev =
     mbind (bread (word_of_int dev) 1) (\<lambda>bp.
     mbind (getb bp) (\<lambda>x.
     mbind (brelse bp) (\<lambda>_.
     ret (decode_sb (bdata x)))))"

text \<open>\<open>log.lh.block[i]\<close> read and written.\<close>

definition lh_get :: "nat \<Rightarrow> ('z log_state_scheme, int) kfun" where
  "lh_get i = (\<lambda>s. if i < length (lh_block s) then Ret (lh_block s ! i) s else Stop (Undef ''log.lh.block index''))"

definition lh_set :: "nat \<Rightarrow> int \<Rightarrow> ('z log_state_scheme, unit) kfun" where
  "lh_set i v = (\<lambda>s. if i < length (lh_block s) then Ret () (s\<lparr>lh_block := (lh_block s)[i := v]\<rparr>)
                      else Stop (Undef ''log.lh.block index''))"

text \<open>\<open>bread(log.dev, n)\<close> with a block number computed as an \<open>int\<close>.\<close>

definition log_bread :: "int \<Rightarrow> ('z log_state_scheme, nat) kfun" where
  "log_bread n = mbind (gets lg_dev) (\<lambda>dev. bread (word_of_int dev) (word_of_int n))"

text \<open>\<open>memmove(to->data, from->data, BSIZE)\<close>.\<close>

definition copy_buf :: "nat \<Rightarrow> nat \<Rightarrow> ('z bio_state_scheme, unit) kfun" where
  "copy_buf dst src = mbind (getb src) (\<lambda>x. updb dst (\<lambda>y. y\<lparr>bdata := bdata x\<rparr>))"

text \<open>One turn of the loop of \<open>install_trans\<close>, and the loop.\<close>

definition install_one :: "nat \<Rightarrow> ('z log_state_scheme, unit) kfun" where
  "install_one tail =
     mbind (gets lg_start) (\<lambda>start.
     mbind (log_bread (start + int tail + 1)) (\<lambda>lbuf.
     mbind (lh_get tail) (\<lambda>home.
     mbind (log_bread home) (\<lambda>dbuf.
     mbind (copy_buf dbuf lbuf) (\<lambda>_.
     mbind (bwrite dbuf) (\<lambda>_.
     mbind (brelse lbuf) (\<lambda>_.
     brelse dbuf)))))))"

definition install_trans :: "('z log_state_scheme, unit) kfun" where
  "install_trans = mbind (gets lh_n) (\<lambda>n. mforeach [0..<nat n] install_one)"

definition read_head :: "('z log_state_scheme, unit) kfun" where
  "read_head =
     mbind (gets lg_start) (\<lambda>start.
     mbind (log_bread start) (\<lambda>b.
     mbind (getb b) (\<lambda>x.
     mbind (modify (\<lambda>s. s\<lparr>lh_n := sint (get32 (bdata x) 0)\<rparr>)) (\<lambda>_.
     mbind (gets lh_n) (\<lambda>n.
     mbind (mforeach [0..<nat n] (\<lambda>i. lh_set i (sint (get32 (bdata x) (4 + 4 * i))))) (\<lambda>_.
     brelse b))))))"

definition write_head :: "('z log_state_scheme, unit) kfun" where
  "write_head =
     mbind (gets lg_start) (\<lambda>start.
     mbind (log_bread start) (\<lambda>b.
     mbind (gets lh_n) (\<lambda>n.
     mbind (updb b (\<lambda>x. x\<lparr>bdata := put32 0 (word_of_int n) (bdata x)\<rparr>)) (\<lambda>_.
     mbind (mforeach [0..<nat n] (\<lambda>i.
       mbind (lh_get i) (\<lambda>v.
       updb b (\<lambda>x. x\<lparr>bdata := put32 (4 + 4 * i) (word_of_int v) (bdata x)\<rparr>)))) (\<lambda>_.
     mbind (bwrite b) (\<lambda>_.
     brelse b))))))"

definition recover_from_log :: "('z log_state_scheme, unit) kfun" where
  "recover_from_log =
     mbind read_head (\<lambda>_.
     mbind install_trans (\<lambda>_.
     mbind (modify (\<lambda>s. s\<lparr>lh_n := 0\<rparr>)) (\<lambda>_.
     write_head)))"

text \<open>The header structure has \<open>4 * (LOGSIZE + 1)\<close> bytes, which is less than a block, so the panic is dead.\<close>

definition initlog :: "int \<Rightarrow> ('z log_state_scheme, unit) kfun" where
  "initlog dev =
     (if 4 * (LOGSIZE + 1) \<ge> BSIZE then panic ''initlog: too big logheader'' else
     mbind (initlock LogLk ''log'') (\<lambda>_.
     mbind (readsb dev) (\<lambda>sb.
     mbind (modify (\<lambda>s. s\<lparr>lg_start := sint (logstart sb)\<rparr>)) (\<lambda>_.
     mbind (modify (\<lambda>s. s\<lparr>lg_size := sint (nlog sb)\<rparr>)) (\<lambda>_.
     mbind (modify (\<lambda>s. s\<lparr>lg_dev := dev\<rparr>)) (\<lambda>_.
     recover_from_log))))))"

definition begin_op_loop :: "('z log_state_scheme, unit) kfun" where
  "begin_op_loop =
     mbind (gets committing) (\<lambda>c.
     if c then sleep LogChan LogLk else
     mbind (gets (\<lambda>s. lh_n s + (outstanding s + 1) * int MAXOPBLOCKS > int LOGSIZE)) (\<lambda>full.
     if full then sleep LogChan LogLk else
     mbind (modify (\<lambda>s. s\<lparr>outstanding := outstanding s + 1\<rparr>)) (\<lambda>_.
     release LogLk)))"

definition begin_op :: "('z log_state_scheme, unit) kfun" where
  "begin_op = mbind (acquire LogLk) (\<lambda>_. begin_op_loop)"

definition begin_op_resume :: "nat \<Rightarrow> bool \<Rightarrow> ('z log_state_scheme, unit) kfun" where
  "begin_op_resume p ie = mbind (sleep_resume p LogLk ie) (\<lambda>_. begin_op_loop)"

text \<open>One turn of the loop of \<open>write_log\<close>, and the loop.\<close>

definition write_log_one :: "nat \<Rightarrow> ('z log_state_scheme, unit) kfun" where
  "write_log_one tail =
     mbind (gets lg_start) (\<lambda>start.
     mbind (log_bread (start + int tail + 1)) (\<lambda>dst.
     mbind (lh_get tail) (\<lambda>home.
     mbind (log_bread home) (\<lambda>src.
     mbind (copy_buf dst src) (\<lambda>_.
     mbind (bwrite dst) (\<lambda>_.
     mbind (brelse src) (\<lambda>_.
     brelse dst)))))))"

definition write_log :: "('z log_state_scheme, unit) kfun" where
  "write_log = mbind (gets lh_n) (\<lambda>n. mforeach [0..<nat n] write_log_one)"

definition commit :: "('z log_state_scheme, unit) kfun" where
  "commit =
     mbind (gets lh_n) (\<lambda>n.
     if n > 0 then
       mbind write_log (\<lambda>_.
       mbind write_head (\<lambda>_.
       mbind install_trans (\<lambda>_.
       mbind (modify (\<lambda>s. s\<lparr>lh_n := 0\<rparr>)) (\<lambda>_.
       write_head))))
     else ret ())"

definition end_op :: "('z log_state_scheme, unit) kfun" where
  "end_op =
     mbind (acquire LogLk) (\<lambda>_.
     mbind (modify (\<lambda>s. s\<lparr>outstanding := outstanding s - 1\<rparr>)) (\<lambda>_.
     mbind (gets committing) (\<lambda>c.
     if c then panic ''log.committing'' else
     mbind (gets outstanding) (\<lambda>o'.
     mbind (if o' = 0 then modify (\<lambda>s. s\<lparr>committing := True\<rparr>) else wakeup LogChan) (\<lambda>_.
     mbind (release LogLk) (\<lambda>_.
     if o' = 0 then
       mbind commit (\<lambda>_.
       mbind (acquire LogLk) (\<lambda>_.
       mbind (modify (\<lambda>s. s\<lparr>committing := False\<rparr>)) (\<lambda>_.
       mbind (wakeup LogChan) (\<lambda>_.
       release LogLk))))
     else ret ()))))))"

text \<open>The index at which \<open>log_write\<close>'s search stops: the first entry with the block's number, or \<open>n\<close>.\<close>

definition log_index :: "int list \<Rightarrow> nat \<Rightarrow> uint \<Rightarrow> nat" where
  "log_index bl n bn = (case find_idx (\<lambda>v. word_of_int v = bn) (take n bl) of Some i \<Rightarrow> i | None \<Rightarrow> n)"

definition log_write :: "nat \<Rightarrow> ('z log_state_scheme, unit) kfun" where
  "log_write b =
     mbind (gets (\<lambda>s. lh_n s \<ge> int LOGSIZE \<or> lh_n s \<ge> lg_size s - 1)) (\<lambda>big.
     if big then panic ''too big a transaction'' else
     mbind (gets outstanding) (\<lambda>o'.
     if o' < 1 then panic ''log_write outside of trans'' else
     mbind (acquire LogLk) (\<lambda>_.
     mbind (getb b) (\<lambda>x.
     mbind (gets (\<lambda>s. log_index (lh_block s) (nat (lh_n s)) (blockno x))) (\<lambda>i.
     mbind (lh_set i (sint (blockno x))) (\<lambda>_.
     mbind (gets lh_n) (\<lambda>n.
     mbind (if int i = n then modify (\<lambda>s. s\<lparr>lh_n := lh_n s + 1\<rparr>) else ret ()) (\<lambda>_.
     mbind (updb b (\<lambda>x. x\<lparr>bflags := bflags x OR B_DIRTY\<rparr>)) (\<lambda>_.
     release LogLk)))))))))"

section \<open>Copying one block to another\<close>

lemma copy_release:
  assumes q: "quiet p s" and c: "cache_ok s" and d: "hold p d dst s" and f: "hold p f src s" and ne: "dst \<noteq> src"
    and sv: "src \<in> pinned s \<or> bview s src = disk s ! unat src"
  obtains t where "mbind (copy_buf d f) (\<lambda>_. mbind (bwrite d) (\<lambda>_. mbind (brelse f) (\<lambda>_. brelse d))) s = Ret () t" "bstep p s t"
    "bview t = (bview s)(dst := bview s src)" "busy t = busy s - {src, dst}" "pinned t = pinned s - {dst}"
    "disk t = (disk s)[unat dst := bview s src]" "writes t = writes s @ [(unat dst, bview s src)]"
proof -
  have un: "unat src \<noteq> unat dst" using ne by (simp add: word_unat_eq_iff)
  note hd = hold_data [OF c d] and hf = hold_data [OF c f]
  have l: "length (bview s src) = BSIZE" by (rule bview_length [OF c hf(6)])
  obtain t1 where t1: "updb d (\<lambda>x. x\<lparr>bdata := bview s src\<rparr>) s = Ret () t1" "bstep p s t1" "bview t1 = (bview s)(dst := bview s src)"
    "busy t1 = busy s" "pinned t1 = pinned s" "disk t1 = disk s" "writes t1 = writes s" "\<And>b' n. hold p b' n s \<Longrightarrow> hold p b' n t1"
    using bstore_ok [OF q c d l] by metis
  note b1 = bstepD [OF t1(2)]
  obtain t2 where t2: "bwrite d t1 = Ret () t2" "bstep p t1 t2" "bview t2 = bview t1" "busy t2 = busy t1" "pinned t2 = pinned t1 - {dst}"
    "disk t2 = (disk t1)[unat dst := bview t1 dst]" "writes t2 = writes t1 @ [(unat dst, bview t1 dst)]"
    "\<And>b' n. hold p b' n t1 \<Longrightarrow> hold p b' n t2"
    using bwrite_ok [OF b1(1,2) t1(8) [OF d]] by metis
  note b2 = bstepD [OF t2(2)]
  have s2: "src \<in> pinned t2 \<or> bview t2 src = disk t2 ! unat src" using sv ne un t1 t2 by auto
  obtain t3 where t3: "brelse f t2 = Ret () t3" "bstep p t2 t3" "bview t3 = bview t2" "busy t3 = busy t2 - {src}" "pinned t3 = pinned t2"
    "disk t3 = disk t2" "writes t3 = writes t2" "\<And>b' n. n \<noteq> src \<Longrightarrow> hold p b' n t2 \<Longrightarrow> hold p b' n t3"
    using brelse_ok [OF b2(1,2) t2(8) [OF t1(8) [OF f]] s2] by metis
  note b3 = bstepD [OF t3(2)]
  have s3: "dst \<in> pinned t3 \<or> bview t3 dst = disk t3 ! unat dst" using hd(6) t1 t2 t3 by auto
  obtain t4 where t4: "brelse d t3 = Ret () t4" "bstep p t3 t4" "bview t4 = bview t3" "busy t4 = busy t3 - {dst}" "pinned t4 = pinned t3"
    "disk t4 = disk t3" "writes t4 = writes t3"
    using brelse_ok [OF b3(1,2) t3(8) [OF ne t2(8) [OF t1(8) [OF d]]] s3] by metis
  have cp: "copy_buf d f s = Ret () t1" using t1(1) hf(1,2) by (simp add: copy_buf_def getb_def)
  show thesis
  proof (rule that)
    show "mbind (copy_buf d f) (\<lambda>_. mbind (bwrite d) (\<lambda>_. mbind (brelse f) (\<lambda>_. brelse d))) s = Ret () t4"
      by (simp add: cp t2(1) t3(1) t4(1))
    show "bstep p s t4" by (rule bstep_trans [OF bstep_trans [OF bstep_trans [OF t1(2) t2(2)] t3(2)] t4(2)])
    show "bview t4 = (bview s)(dst := bview s src)" "busy t4 = busy s - {src, dst}" "pinned t4 = pinned s - {dst}"
      "disk t4 = (disk s)[unat dst := bview s src]" "writes t4 = writes s @ [(unat dst, bview s src)]"
      using t1 t2 t3 t4 by auto
  qed
qed

lemma read_two:
  assumes q: "quiet p s" and c: "cache_ok s" and x: "unat x < length (disk s)" "x \<notin> busy s" "x \<in> pinned s \<or> card (busy s \<union> pinned s) < length (bufs s)"
    and y: "unat y < length (disk s)" "y \<notin> busy s" "y \<in> pinned s \<or> Suc (card (busy s \<union> pinned s)) < length (bufs s)" and ne: "x \<noteq> y"
  obtains a b t u where "bread 1 x s = Ret a t" "bread 1 y t = Ret b u" "bstep p s t" "bstep p t u" "hold p a x u" "hold p b y u"
    "bview u = bview s" "busy u = {x, y} \<union> busy s" "pinned u = pinned s" "disk u = disk s" "writes u = writes s"
proof -
  obtain a t where t: "bread 1 x s = Ret a t" "bstep p s t" "hold p a x t" "bview t = bview s" "busy t = insert x (busy s)"
    "pinned t = pinned s" "disk t = disk s" "writes t = writes s"
    using bread_ok [OF q c x] by metis
  note bt = bstepD [OF t(2)]
  have r: "y \<in> pinned t \<or> card (busy t \<union> pinned t) < length (bufs t)"
    using y(3) t(5,6) bt(3) card_insert_le_m1 [of "Suc (card (busy s \<union> pinned s))" "busy s \<union> pinned s" x] by auto
  have y': "unat y < length (disk t)" "y \<notin> busy t" using y ne t(5,7) by auto
  obtain b u where u: "bread 1 y t = Ret b u" "bstep p t u" "hold p b y u" "bview u = bview t" "busy u = insert y (busy t)"
    "pinned u = pinned t" "disk u = disk t" "writes u = writes t" "\<And>b' n. n \<noteq> y \<Longrightarrow> hold p b' n t \<Longrightarrow> hold p b' n u"
    using bread_ok [OF bt(1,2) y' r] by metis
  show thesis by (rule that [OF t(1) u(1) t(2) u(2) u(9) [OF ne t(3)] u(3)]) (use t u in auto)
qed

section \<open>The parts of a commit\<close>

lemma bstep_log:
  assumes "bstep p s t"
  shows "lg_start t = lg_start s" "lg_size t = lg_size s" "outstanding t = outstanding s" "committing t = committing s"
    "lg_dev t = lg_dev s" "lh_n t = lh_n s" "lh_block t = lh_block s"
  by (subst bstepD(8) [OF assms], simp)+

lemma log_bread_eq: "lg_dev s = 1 \<Longrightarrow> log_bread n s = bread 1 (word_of_int n) s"
  by (simp add: log_bread_def)

lemma write_log_one_run:
  assumes q: "quiet p s" "cache_ok s" "busy s = {}" and g: "lg_dev s = 1" "k < length (lh_block s)"
    and x: "x = word_of_int (lg_start s + int k + 1)" "unat x < length (disk s)" "x \<notin> pinned s" "card (pinned s) < length (bufs s)"
    and y: "y = word_of_int (lh_block s ! k)" "unat y < length (disk s)" "y \<in> pinned s"
  shows "\<exists>t. write_log_one k s = Ret () t \<and> bstep p s t \<and> busy t = {} \<and> pinned t = pinned s \<and>
    (\<forall>n \<in> pinned s. bview t n = bview s n) \<and> disk t = (disk s)[unat x := bview s y] \<and> writes t = writes s @ [(unat x, bview s y)]"
proof -
  have ne: "x \<noteq> y" using x(3) y(3) by auto
  have pre: "x \<notin> busy s" "x \<in> pinned s \<or> card (busy s \<union> pinned s) < length (bufs s)"
    "y \<notin> busy s" "y \<in> pinned s \<or> Suc (card (busy s \<union> pinned s)) < length (bufs s)"
    using q(3) x(4) y(3) by simp_all
  obtain a b t u where r: "bread 1 x s = Ret a t" "bread 1 y t = Ret b u" "bstep p s t" "bstep p t u" "hold p a x u" "hold p b y u"
    "bview u = bview s" "busy u = {x, y} \<union> busy s" "pinned u = pinned s" "disk u = disk s" "writes u = writes s"
    using read_two [OF q(1,2) x(2) pre(1,2) y(2) pre(3,4) ne] by metis
  have su: "bstep p s u" by (rule bstep_trans [OF r(3,4)])
  note bu = bstepD [OF su]
  have sv: "y \<in> pinned u \<or> bview u y = disk u ! unat y" using y(3) r(9) by simp
  obtain v where v: "mbind (copy_buf a b) (\<lambda>_. mbind (bwrite a) (\<lambda>_. mbind (brelse b) (\<lambda>_. brelse a))) u = Ret () v" "bstep p u v"
    "bview v = (bview u)(x := bview u y)" "busy v = busy u - {y, x}" "pinned v = pinned u - {x}"
    "disk v = (disk u)[unat x := bview u y]" "writes v = writes u @ [(unat x, bview u y)]"
    using copy_release [OF bu(1,2) r(5,6) ne sv] by metis
  note lt = bstep_log [OF r(3)]
  have "write_log_one k s = Ret () v"
    using v(1) r(1,2) x(1) y(1) g lt by (simp add: write_log_one_def install_one_def log_bread_eq lh_get_def)
  moreover have "\<forall>n \<in> pinned s. bview v n = bview s n" using v(3) r(7) x(3) by auto
  ultimately show ?thesis using v r q(3) x(3) bstep_trans [OF su v(2)] by auto
qed

lemma install_one_run:
  assumes q: "quiet p s" "cache_ok s" "busy s = {}" and g: "lg_dev s = 1" "k < length (lh_block s)"
    and x: "x = word_of_int (lg_start s + int k + 1)" "unat x < length (disk s)" "x \<notin> pinned s" "card (pinned s) < length (bufs s)"
    and y: "y = word_of_int (lh_block s ! k)" "unat y < length (disk s)" "y \<in> pinned s \<or> Suc (card (pinned s)) < length (bufs s)"
    and ne: "x \<noteq> y"
  shows "\<exists>t. install_one k s = Ret () t \<and> bstep p s t \<and> busy t = {} \<and> pinned t = pinned s - {y} \<and>
    (\<forall>n \<in> pinned t. bview t n = bview s n) \<and> disk t = (disk s)[unat y := disk s ! unat x] \<and>
    writes t = writes s @ [(unat y, disk s ! unat x)]"
proof -
  have pre: "x \<notin> busy s" "x \<in> pinned s \<or> card (busy s \<union> pinned s) < length (bufs s)"
    "y \<notin> busy s" "y \<in> pinned s \<or> Suc (card (busy s \<union> pinned s)) < length (bufs s)"
    using q(3) x(4) y(3) by simp_all
  obtain a b t u where r: "bread 1 x s = Ret a t" "bread 1 y t = Ret b u" "bstep p s t" "bstep p t u" "hold p a x u" "hold p b y u"
    "bview u = bview s" "busy u = {x, y} \<union> busy s" "pinned u = pinned s" "disk u = disk s" "writes u = writes s"
    using read_two [OF q(1,2) x(2) pre(1,2) y(2) pre(3,4) ne] by metis
  have su: "bstep p s u" by (rule bstep_trans [OF r(3,4)])
  note bu = bstepD [OF su]
  have vx: "bview s x = disk s ! unat x" by (rule view_clean [OF q(2)]) (use q(3) x(3) in simp_all)
  then have sv: "x \<in> pinned u \<or> bview u x = disk u ! unat x" using r by simp
  obtain v where v: "mbind (copy_buf b a) (\<lambda>_. mbind (bwrite b) (\<lambda>_. mbind (brelse a) (\<lambda>_. brelse b))) u = Ret () v" "bstep p u v"
    "bview v = (bview u)(y := bview u x)" "busy v = busy u - {x, y}" "pinned v = pinned u - {y}"
    "disk v = (disk u)[unat y := bview u x]" "writes v = writes u @ [(unat y, bview u x)]"
    using copy_release [OF bu(1,2) r(6,5) ne [symmetric] sv] by metis
  note lt = bstep_log [OF r(3)]
  have "install_one k s = Ret () v"
    using v(1) r(1,2) x(1) y(1) g lt by (simp add: write_log_one_def install_one_def log_bread_eq lh_get_def)
  moreover have "\<forall>n \<in> pinned v. bview v n = bview s n" using v(3,5) r(7) by auto
  ultimately show ?thesis using v r q(3) vx bstep_trans [OF su v(2)] by auto
qed

text \<open>A sequence of block writes applied to a disk.\<close>

definition apply_writes :: "(nat \<times> block) list \<Rightarrow> block list \<Rightarrow> block list" where
  "apply_writes ws D = fold (\<lambda>(n, b) D. D[n := b]) ws D"

lemma apply_writes_simps [simp]:
  "apply_writes [] D = D" "apply_writes ((n, b) # ws) D = apply_writes ws (D[n := b])"
  "apply_writes (us @ vs) D = apply_writes vs (apply_writes us D)" "length (apply_writes ws D) = length D"
  by (induction ws arbitrary: D) (auto simp: apply_writes_def)

lemma apply_writes_other: "k \<notin> fst ` set ws \<Longrightarrow> apply_writes ws D ! k = D ! k"
  by (induction ws arbitrary: D) auto

lemma apply_writes_distinct:
  assumes "distinct (map fst ws)" and "(k, b) \<in> set ws" and "k < length D"
  shows "apply_writes ws D ! k = b"
  using assms by (induction ws arbitrary: D) (force simp: apply_writes_other)+

text \<open>
  The transaction in memory: \<open>homes s\<close> are the blocks it contains and \<open>lblk s i\<close> is the log block of the
  \<open>i\<close>-th. \<open>log_wf\<close>: the log lies on the disk after block 0, and the blocks of the transaction are different
  blocks of the disk outside the log.
\<close>

definition homes :: "'z log_state_scheme \<Rightarrow> uint list" where
  "homes s = map word_of_int (take (nat (lh_n s)) (lh_block s))"

definition lblk :: "'z log_state_scheme \<Rightarrow> nat \<Rightarrow> nat" where
  "lblk s i = nat (lg_start s + int i + 1)"

definition in_log :: "'z log_state_scheme \<Rightarrow> nat \<Rightarrow> bool" where
  "in_log s n \<longleftrightarrow> lg_start s \<le> int n \<and> int n < lg_start s + lg_size s"

definition log_wf :: "'z log_state_scheme \<Rightarrow> bool" where
  "log_wf s \<longleftrightarrow> lg_dev s = 1 \<and> 0 < lg_start s \<and> lg_start s + lg_size s \<le> int (length (disk s)) \<and>
     length (disk s) < 2 ^ 31 \<and> length (lh_block s) = LOGSIZE \<and>
     0 \<le> lh_n s \<and> lh_n s < lg_size s \<and> lh_n s \<le> int LOGSIZE \<and> distinct (homes s) \<and>
     (\<forall>h \<in> set (homes s). unat h < length (disk s) \<and> \<not> in_log s (unat h))"

lemma log_wfD:
  assumes "log_wf s"
  shows "lg_dev s = 1" "0 < lg_start s" "lg_start s + lg_size s \<le> int (length (disk s))" "length (disk s) < 2 ^ 31"
    "length (lh_block s) = LOGSIZE" "0 \<le> lh_n s" "lh_n s < lg_size s" "lh_n s \<le> int LOGSIZE" "distinct (homes s)"
    "h \<in> set (homes s) \<Longrightarrow> unat h < length (disk s)" "h \<in> set (homes s) \<Longrightarrow> \<not> in_log s (unat h)"
    "length (homes s) = nat (lh_n s)"
  using assms by (auto simp: log_wf_def homes_def)

lemma unat_woi: "0 \<le> k \<Longrightarrow> k < 2 ^ 32 \<Longrightarrow> unat (word_of_int k :: uint) = nat k"
  by (simp add: unat_eq_nat_uint uint_word_of_int)

lemma lblk_facts:
  assumes "log_wf s" and "i < nat (lh_n s)"
  shows "unat (word_of_int (lg_start s + int i + 1) :: uint) = lblk s i" "lblk s i < length (disk s)" "in_log s (lblk s i)"
    "i < LOGSIZE" "homes s ! i = word_of_int (lh_block s ! i)" "homes s ! i \<in> set (homes s)" "lblk s i \<noteq> nat (lg_start s)"
proof -
  note w = log_wfD [OF assms(1)]
  show i: "i < LOGSIZE" using assms(2) w(8) by simp
  have b: "0 \<le> lg_start s + int i + 1" "lg_start s + int i + 1 < 2 ^ 31" using w assms(2) by simp_all
  then show "unat (word_of_int (lg_start s + int i + 1) :: uint) = lblk s i"
    unfolding lblk_def by (intro unat_woi) simp_all
  show "lblk s i < length (disk s)" "in_log s (lblk s i)" "lblk s i \<noteq> nat (lg_start s)"
    using w assms(2) by (auto simp: lblk_def in_log_def)
  show "homes s ! i \<in> set (homes s)" using assms(2) w(12) by simp
  show "homes s ! i = word_of_int (lh_block s ! i)" using assms(2) i w(5) by (simp add: homes_def)
qed

lemma home_facts:
  assumes "log_wf s" and "i < nat (lh_n s)" and "h \<in> set (homes s)"
  shows "unat h \<noteq> lblk s i" "unat h < length (disk s)" "\<not> in_log s (unat h)"
  using lblk_facts(3) [OF assms(1,2)] log_wfD(10,11) [OF assms(1,3)] by auto

lemma bstep_wf:
  assumes "bstep p s t"
  shows "homes t = homes s" "lblk t = lblk s" "in_log t = in_log s" "log_wf t = log_wf s"
  using bstep_log [OF assms] bstepD(4) [OF assms] by (auto simp: homes_def lblk_def in_log_def log_wf_def fun_eq_iff)

lemma write_log_run:
  fixes s :: "'z log_state_scheme"
  assumes q: "quiet p s" "cache_ok s" "busy s = {}" and w: "log_wf s" and pin: "pinned s = set (homes s)"
    and room: "nat (lh_n s) < length (bufs s)"
  defines "W k \<equiv> map (\<lambda>i. (lblk s i, bview s (homes s ! i))) [0..<k]"
  shows "\<exists>t. write_log s = Ret () t \<and> bstep p s t \<and> busy t = {} \<and> pinned t = pinned s \<and>
    (\<forall>n \<in> pinned s. bview t n = bview s n) \<and> disk t = apply_writes (W (nat (lh_n s))) (disk s) \<and>
    writes t = writes s @ W (nat (lh_n s))"
proof -
  let ?n = "nat (lh_n s)"
  define Q where "Q k t \<longleftrightarrow> bstep p s t \<and> busy t = {} \<and> pinned t = pinned s \<and> (\<forall>n \<in> pinned s. bview t n = bview s n) \<and>
    disk t = apply_writes (W k) (disk s) \<and> writes t = writes s @ W k" for k and t :: "'z log_state_scheme"
  have card: "card (pinned s) = ?n" using pin log_wfD(9,12) [OF w] by (simp add: distinct_card)
  have "\<exists>t. mforeach [0..<?n] write_log_one s = Ret () t \<and> Q ?n t"
  proof (rule mforeach_upt [where Q = Q])
    show "Q 0 s" using q by (simp add: Q_def W_def bstep_refl)
  next
    fix k and t :: "'z log_state_scheme"
    assume k: "k < ?n" and Qt: "Q k t"
    then have t: "bstep p s t" "busy t = {}" "pinned t = pinned s" "\<forall>n \<in> pinned s. bview t n = bview s n"
      "disk t = apply_writes (W k) (disk s)" "writes t = writes s @ W k"
      unfolding Q_def by blast+
    note b = bstepD [OF t(1)] and l = bstep_log [OF t(1)] and f = lblk_facts [OF w k]
    define x :: uint where "x = word_of_int (lg_start t + int k + 1)"
    define y where "y = homes s ! k"
    have x: "unat x = lblk s k" using f(1) l(1) by (simp add: x_def)
    have y: "y = word_of_int (lh_block t ! k)" "y \<in> pinned t" using f(5,6) l(7) pin t(3) by (simp_all add: y_def)
    have x': "x \<notin> pinned t"
      using home_facts(1) [OF w k] pin t(3) x by auto
    have yr: "unat y < length (disk t)" using log_wfD(10) [OF w, of y] y(2) pin t(3) b(4) by simp
    have "lg_dev t = 1" "k < length (lh_block t)" "unat x < length (disk t)" "card (pinned t) < length (bufs t)"
      using l log_wfD(1,5) [OF w] f(2,4) x b(3,4) t(3) card room by simp_all
    from write_log_one_run [OF b(1,2) t(2) this(1,2) x_def this(3) x' this(4) y(1) yr y(2)]
    obtain u where u: "write_log_one k t = Ret () u" "bstep p t u" "busy u = {}" "pinned u = pinned t" "\<forall>n \<in> pinned t. bview u n = bview t n"
      "disk u = (disk t)[unat x := bview t y]" "writes u = writes t @ [(unat x, bview t y)]"
      by blast
    have "W (Suc k) = W k @ [(unat x, bview t y)]"
      using t(3,4) y(2) x by (simp add: W_def y_def)
    with u t bstep_trans [OF t(1) u(2)] have "Q (Suc k) u" by (simp add: Q_def)
    with u(1) show "\<exists>u. write_log_one k t = Ret () u \<and> Q (Suc k) u" by blast
  qed
  then show ?thesis unfolding Q_def write_log_def by simp
qed

lemma install_trans_run:
  fixes s :: "'z log_state_scheme"
  assumes q: "quiet p s" "cache_ok s" "busy s = {}" and w: "log_wf s"
    and pin: "pinned s = set (homes s) \<and> nat (lh_n s) < length (bufs s) \<or> pinned s = {} \<and> 1 < length (bufs s)"
  defines "W k \<equiv> map (\<lambda>i. (unat (homes s ! i), disk s ! lblk s i)) [0..<k]"
  shows "\<exists>t. install_trans s = Ret () t \<and> bstep p s t \<and> busy t = {} \<and> pinned t = {} \<and>
    disk t = apply_writes (W (nat (lh_n s))) (disk s) \<and> writes t = writes s @ W (nat (lh_n s))"
proof -
  let ?n = "nat (lh_n s)" and ?h = "homes s"
  define Q where "Q k t \<longleftrightarrow> bstep p s t \<and> busy t = {} \<and> pinned t = pinned s - set (take k ?h) \<and>
    disk t = apply_writes (W k) (disk s) \<and> writes t = writes s @ W k" for k and t :: "'z log_state_scheme"
  note len = log_wfD(12) [OF w]
  have sub: "pinned s \<subseteq> set ?h" using pin by auto
  have card: "card (pinned s) < length (bufs s)" using pin log_wfD(9) [OF w] len by (auto simp: distinct_card)
  have "\<exists>t. mforeach [0..<?n] install_one s = Ret () t \<and> Q ?n t"
  proof (rule mforeach_upt [where Q = Q])
    show "Q 0 s" using q by (simp add: Q_def W_def bstep_refl)
  next
    fix k and t :: "'z log_state_scheme"
    assume k: "k < ?n" and Qt: "Q k t"
    then have t: "bstep p s t" "busy t = {}" "pinned t = pinned s - set (take k ?h)"
      "disk t = apply_writes (W k) (disk s)" "writes t = writes s @ W k"
      unfolding Q_def by blast+
    note b = bstepD [OF t(1)] and l = bstep_log [OF t(1)] and f = lblk_facts [OF w k]
    define x :: uint where "x = word_of_int (lg_start t + int k + 1)"
    define y where "y = ?h ! k"
    have x: "unat x = lblk s k" using f(1) l(1) by (simp add: x_def)
    have hk: "y \<in> set ?h" using f(6) by (simp add: y_def)
    have y: "y = word_of_int (lh_block t ! k)" using f(5) l(7) by (simp add: y_def)
    have x': "x \<notin> pinned t" using home_facts(1) [OF w k] sub t(3) x by auto
    have ne: "x \<noteq> y" using home_facts(1) [OF w k hk] x by auto
    have yr: "unat y < length (disk t)" using log_wfD(10) [OF w hk] b(4) by simp
    have nt: "y \<notin> set (take k ?h)" using log_wfD(9) [OF w] k len
      by (auto simp: y_def in_set_conv_nth nth_eq_iff_index_eq)
    have c2: "card (pinned t) \<le> card (pinned s)" using t(3) by (intro card_mono) auto
    have py: "y \<in> pinned t \<or> Suc (card (pinned t)) < length (bufs t)"
      using pin nt hk t(3) b(3) by auto
    have "lg_dev t = 1" "k < length (lh_block t)" "unat x < length (disk t)" "card (pinned t) < length (bufs t)"
      using l log_wfD(1,5) [OF w] f(2,4) x b(3,4) c2 card by simp_all
    from install_one_run [OF b(1,2) t(2) this(1,2) x_def this(3) x' this(4) y yr py ne]
    obtain u where u: "install_one k t = Ret () u" "bstep p t u" "busy u = {}" "pinned u = pinned t - {y}"
      "disk u = (disk t)[unat y := disk t ! unat x]" "writes u = writes t @ [(unat y, disk t ! unat x)]"
      by blast
    have nw: "lblk s k \<notin> fst ` set (W k)"
      using home_facts(1) [OF w k] k len by (auto simp: W_def) (metis nth_mem order.strict_trans)
    have "disk t ! unat x = disk s ! lblk s k"
      unfolding t(4) x by (rule apply_writes_other [OF nw])
    then have "W (Suc k) = W k @ [(unat y, disk t ! unat x)]" by (simp add: W_def y_def)
    moreover have "pinned u = pinned s - set (take (Suc k) ?h)"
      using u(4) t(3) k len by (auto simp: take_Suc_conv_app_nth y_def)
    ultimately have "Q (Suc k) u" using u t bstep_trans [OF t(1) u(2)] by (simp add: Q_def)
    with u(1) show "\<exists>u. install_one k t = Ret () u \<and> Q (Suc k) u" by blast
  qed
  moreover have "pinned s - set (take ?n ?h) = {}" using sub len by simp
  ultimately show ?thesis unfolding Q_def install_trans_def by simp
qed

lemma bmod_ok:
  assumes "quiet p s" and "cache_ok s" and "hold p b bn s" and "length (f (bview s bn)) = BSIZE"
  obtains t where "updb b (\<lambda>x. x\<lparr>bdata := f (bdata x)\<rparr>) s = Ret () t" "bstep p s t" "bview t = (bview s)(bn := f (bview s bn))"
    "busy t = busy s" "pinned t = pinned s" "disk t = disk s" "writes t = writes s" "\<And>b' n. hold p b' n s \<Longrightarrow> hold p b' n t"
proof -
  have e: "updb b (\<lambda>x. x\<lparr>bdata := f (bdata x)\<rparr>) s = updb b (\<lambda>x. x\<lparr>bdata := f (bview s bn)\<rparr>) s"
    using hold_data(1) [OF assms(2,3)] by (auto simp: updb_def upd_at_def)
  show thesis by (rule bstore_ok [OF assms]) (rule that [unfolded e]; assumption)
qed

text \<open>The header block of a transaction with the home blocks \<open>hs\<close>, written over the block \<open>d\<close>.\<close>

definition enc_head :: "uint list \<Rightarrow> block \<Rightarrow> block" where
  "enc_head hs d = put32s 4 hs (put32 0 (of_nat (length hs)) d)"

lemma length_enc_head: "length d = BSIZE \<Longrightarrow> length hs \<le> LOGSIZE \<Longrightarrow> length (enc_head hs d) = BSIZE"
  by (simp add: enc_head_def)

lemma write_head_loop:
  fixes s :: "'z log_state_scheme"
  assumes q: "quiet p s" "cache_ok s" and h: "hold p b bn s" and n: "n \<le> length (lh_block s)" "length (lh_block s) \<le> LOGSIZE"
  shows "\<exists>t. mforeach [0..<n] (\<lambda>i. mbind (lh_get i) (\<lambda>v.
       updb b (\<lambda>x. x\<lparr>bdata := put32 (4 + 4 * i) (word_of_int v) (bdata x)\<rparr>))) s = Ret () t \<and>
    bstep p s t \<and> hold p b bn t \<and> bview t = (bview s)(bn := put32s 4 (map word_of_int (take n (lh_block s))) (bview s bn)) \<and>
    busy t = busy s \<and> pinned t = pinned s \<and> disk t = disk s \<and> writes t = writes s"
proof -
  define Q where "Q k t \<longleftrightarrow> bstep p s t \<and> hold p b bn t \<and>
    bview t = (bview s)(bn := put32s 4 (map word_of_int (take k (lh_block s))) (bview s bn)) \<and>
    busy t = busy s \<and> pinned t = pinned s \<and> disk t = disk s \<and> writes t = writes s" for k and t :: "'z log_state_scheme"
  have len: "length (bview s bn) = BSIZE" by (rule bview_length [OF q(2) hold_data(6) [OF q(2) h]])
  have "\<exists>t. mforeach [0..<n] (\<lambda>i. mbind (lh_get i) (\<lambda>v.
       updb b (\<lambda>x. x\<lparr>bdata := put32 (4 + 4 * i) (word_of_int v) (bdata x)\<rparr>))) s = Ret () t \<and> Q n t"
  proof (rule mforeach_upt [where Q = Q])
    show "Q 0 s" using q h by (simp add: Q_def bstep_refl)
  next
    fix k and t :: "'z log_state_scheme"
    assume k: "k < n" and Qt: "Q k t"
    note t = Qt [unfolded Q_def]
    note bs = bstepD [OF conjunct1 [OF t]] and l = bstep_log [OF conjunct1 [OF t]]
    let ?v = "word_of_int (lh_block s ! k) :: uint"
    have ht: "hold p b bn t" using t by blast
    have lt: "length (put32 (4 + 4 * k) ?v (bview t bn)) = BSIZE" using t len k n by simp
    obtain u where u: "updb b (\<lambda>x. x\<lparr>bdata := put32 (4 + 4 * k) ?v (bdata x)\<rparr>) t = Ret () u" "bstep p t u"
      "bview u = (bview t)(bn := put32 (4 + 4 * k) ?v (bview t bn))"
      "busy u = busy t" "pinned u = pinned t" "disk u = disk t" "writes u = writes t" "\<And>b' n. hold p b' n t \<Longrightarrow> hold p b' n u"
      by (rule bmod_ok [OF bs(1,2) ht, of "put32 (4 + 4 * k) ?v", OF lt]) blast
    have "put32s 4 (map word_of_int (take (Suc k) (lh_block s))) (bview s bn) = put32 (4 + 4 * k) ?v (bview t bn)"
      using t k n by (simp add: take_Suc_conv_app_nth put32s_append)
    then have "Q (Suc k) u" using t u(2-7) u(8) [OF ht] bstep_trans [OF conjunct1 [OF t] u(2)] by (simp add: Q_def)
    moreover have "lh_get k t = Ret (lh_block s ! k) t" using l(7) k n by (simp add: lh_get_def)
    ultimately show "\<exists>u. mbind (lh_get k) (\<lambda>v. updb b (\<lambda>x. x\<lparr>bdata := put32 (4 + 4 * k) (word_of_int v) (bdata x)\<rparr>)) t
        = Ret () u \<and> Q (Suc k) u" using u(1) by simp
  qed
  then show ?thesis unfolding Q_def .
qed

lemma hdr_facts:
  assumes "log_wf s"
  shows "unat (word_of_int (lg_start s) :: uint) = nat (lg_start s)" "nat (lg_start s) < length (disk s)" "in_log s (nat (lg_start s))"
    "h \<in> set (homes s) \<Longrightarrow> unat h \<noteq> nat (lg_start s)"
proof -
  note w = log_wfD [OF assms]
  show "unat (word_of_int (lg_start s) :: uint) = nat (lg_start s)" using w by (intro unat_woi) simp_all
  show "nat (lg_start s) < length (disk s)" "in_log s (nat (lg_start s))" using w by (auto simp: in_log_def)
  then show "unat h \<noteq> nat (lg_start s)" if "h \<in> set (homes s)" using w(11) [OF that] by auto
qed

lemma write_head_run:
  fixes s :: "'z log_state_scheme"
  assumes q: "quiet p s" "cache_ok s" "busy s = {}" and w: "log_wf s" and pin: "pinned s \<subseteq> set (homes s)" "card (pinned s) < length (bufs s)"
  defines "hb \<equiv> enc_head (homes s) (disk s ! nat (lg_start s))"
  shows "\<exists>t. write_head s = Ret () t \<and> bstep p s t \<and> busy t = {} \<and> pinned t = pinned s \<and>
    (\<forall>n \<in> pinned s. bview t n = bview s n) \<and> disk t = (disk s)[nat (lg_start s) := hb] \<and>
    writes t = writes s @ [(nat (lg_start s), hb)]"
proof -
  define h :: uint where "h = word_of_int (lg_start s)"
  note hf = hdr_facts [OF w] and wf = log_wfD [OF w]
  have hn: "h \<notin> pinned s" using hf(1,4) pin(1) by (auto simp: h_def)
  have r: "unat h < length (disk s)" "h \<notin> busy s" "h \<in> pinned s \<or> card (busy s \<union> pinned s) < length (bufs s)"
    using hf(1,2) q(3) pin(2) by (simp_all add: h_def)
  obtain b t where t: "bread 1 h s = Ret b t" "bstep p s t" "hold p b h t" "bview t = bview s" "busy t = insert h (busy s)"
    "pinned t = pinned s" "disk t = disk s" "writes t = writes s"
    by (rule bread_ok [OF q(1,2) r]) blast
  note bt = bstepD [OF t(2)] and lt = bstep_log [OF t(2)]
  have vh: "bview s h = disk s ! nat (lg_start s)" using view_clean [OF q(2) r(2) hn] hf(1) by (simp add: h_def)
  have len: "length (disk s ! nat (lg_start s)) = BSIZE" by (rule cacheD(8) [OF q(2) hf(2)])
  have lt1: "length (put32 0 (word_of_int (lh_n s)) (bview t h)) = BSIZE" using t(4) vh len by simp
  obtain u where u: "updb b (\<lambda>x. x\<lparr>bdata := put32 0 (word_of_int (lh_n s)) (bdata x)\<rparr>) t = Ret () u" "bstep p t u"
    "bview u = (bview t)(h := put32 0 (word_of_int (lh_n s)) (bview t h))" "busy u = busy t" "pinned u = pinned t"
    "disk u = disk t" "writes u = writes t" "\<And>b' n. hold p b' n t \<Longrightarrow> hold p b' n u"
    by (rule bmod_ok [OF bt(1,2) t(3), of "put32 0 (word_of_int (lh_n s))", OF lt1]) blast
  note bu = bstepD [OF u(2)] and lu = bstep_log [OF u(2)]
  have n: "nat (lh_n s) \<le> length (lh_block u)" "length (lh_block u) \<le> LOGSIZE" using lu(7) lt(7) wf(5,8) by simp_all
  obtain v where v: "mforeach [0..<nat (lh_n s)] (\<lambda>i. mbind (lh_get i) (\<lambda>v.
       updb b (\<lambda>x. x\<lparr>bdata := put32 (4 + 4 * i) (word_of_int v) (bdata x)\<rparr>))) u = Ret () v"
    "bstep p u v" "hold p b h v" "bview v = (bview u)(h := put32s 4 (map word_of_int (take (nat (lh_n s)) (lh_block u))) (bview u h))"
    "busy v = busy u" "pinned v = pinned u" "disk v = disk u" "writes v = writes u"
    using write_head_loop [OF bu(1,2) u(8) [OF t(3)] n] by blast
  note bv = bstepD [OF v(2)]
  have hv: "bview v h = hb"
    using v(4) u(3) t(4) vh lu(7) lt(7) wf(6,12) by (simp add: hb_def enc_head_def homes_def)
  obtain x where x: "bwrite b v = Ret () x" "bstep p v x" "bview x = bview v" "busy x = busy v" "pinned x = pinned v - {h}"
    "disk x = (disk v)[unat h := bview v h]" "writes x = writes v @ [(unat h, bview v h)]"
    "\<And>b' n. hold p b' n v \<Longrightarrow> hold p b' n x"
    by (rule bwrite_ok [OF bv(1,2) v(3)]) blast
  note bx = bstepD [OF x(2)]
  have sx: "h \<in> pinned x \<or> bview x h = disk x ! unat h" using x(3,6) v(7) u(6) t(7) r(1) by simp
  obtain y where y: "brelse b x = Ret () y" "bstep p x y" "bview y = bview x" "busy y = busy x - {h}" "pinned y = pinned x"
    "disk y = disk x" "writes y = writes x"
    by (rule brelse_ok [OF bx(1,2) x(8) [OF v(3)] sx]) blast
  have "write_head s = Ret () y"
    using t(1) u(1) v(1) x(1) y(1) wf(1) lt(6) by (simp add: write_head_def log_bread_eq h_def)
  moreover have "bstep p s y"
    by (rule bstep_trans [OF bstep_trans [OF bstep_trans [OF bstep_trans [OF t(2) u(2)] v(2)] x(2)] y(2)])
  moreover have "busy y = {}" "pinned y = pinned s" using y x v u t q(3) hn by auto
  moreover have "\<forall>n \<in> pinned s. bview y n = bview s n" using y(3) x(3) v(4) u(3) t(4) hn by auto
  moreover have "unat h = nat (lg_start s)" using hf(1) by (simp add: h_def)
  ultimately show ?thesis using y x v u t hv by auto
qed

lemma lh_set_loop:
  "n \<le> length (lh_block s) \<Longrightarrow>
     mforeach [0..<n] (\<lambda>i. lh_set i (f i)) s = Ret () (s\<lparr>lh_block := map f [0..<n] @ drop n (lh_block s)\<rparr>)"
proof (induction n)
  case (Suc n)
  then have "drop n (lh_block s) = lh_block s ! n # drop (Suc n) (lh_block s)" by (simp add: Cons_nth_drop_Suc)
  with Suc show ?case by (simp add: mforeach_append lh_set_def list_update_append)
qed simp

lemma quiet_lh [simp]: "quiet p (s\<lparr>lh_n := a\<rparr>) = quiet p s" "quiet p (s\<lparr>lh_block := b\<rparr>) = quiet p s"
  by (simp_all add: quiet_def)

lemma view_lh [simp]:
  "bview (s\<lparr>lh_n := a\<rparr>) = bview s" "busy (s\<lparr>lh_n := a\<rparr>) = busy s" "pinned (s\<lparr>lh_n := a\<rparr>) = pinned s" "hold p i n (s\<lparr>lh_n := a\<rparr>) = hold p i n s"
  "bview (s\<lparr>lh_block := b\<rparr>) = bview s" "busy (s\<lparr>lh_block := b\<rparr>) = busy s" "pinned (s\<lparr>lh_block := b\<rparr>) = pinned s"
  "hold p i n (s\<lparr>lh_block := b\<rparr>) = hold p i n s"
  by ((rule view_same, simp, simp) | (rule view_same, simp) | simp add: hold_def mine_def)+

lemma bstep_lh: "bstep p s t \<Longrightarrow> bstep p (s\<lparr>lh_n := a, lh_block := b\<rparr>) (t\<lparr>lh_n := a, lh_block := b\<rparr>)"
proof -
  assume st: "bstep p s t"
  let ?s = "s\<lparr>lh_n := a, lh_block := b\<rparr>" and ?t = "t\<lparr>lh_n := a, lh_block := b\<rparr>"
  have f: "?t = ?s\<lparr>cpus := cpus ?t, procs := procs ?t, queue := queue ?t, q_tail := q_tail ?t, slk := slk ?t,
       bufs := bufs ?t, head_prev := head_prev ?t, head_next := head_next ?t, disk := disk ?t, writes := writes ?t\<rparr>"
    using bstepD(8) [OF st] by (cases s, cases t) simp
  show "bstep p ?s ?t" unfolding bstep_def
    by (intro conjI, fact f) (use bstepD(1-7) [OF st] in simp_all)
qed

lemma bstep_lh_n:
  assumes "bstep p s t"
  shows "bstep p (s\<lparr>lh_n := a\<rparr>) (t\<lparr>lh_n := a\<rparr>)"
proof -
  have "s\<lparr>lh_n := a, lh_block := lh_block t\<rparr> = s\<lparr>lh_n := a\<rparr>" using bstep_log(7) [OF assms] by simp
  moreover have "t\<lparr>lh_n := a, lh_block := lh_block t\<rparr> = t\<lparr>lh_n := a\<rparr>" by simp
  ultimately show ?thesis using bstep_lh [OF assms, where a = a and b = "lh_block t"] by metis
qed

lemma read_head_run:
  fixes s :: "'z log_state_scheme"
  assumes q: "quiet p s" "cache_ok s" "busy s = {}" "pinned s = {}" "0 < length (bufs s)"
    and g: "lg_dev s = 1" "0 < lg_start s" "nat (lg_start s) < length (disk s)" "length (disk s) < 2 ^ 31" "length (lh_block s) = LOGSIZE"
  defines "d \<equiv> disk s ! nat (lg_start s)"
  assumes n: "sint (get32 d 0) \<le> int LOGSIZE"
  defines "n \<equiv> sint (get32 d 0)"
  defines "bl \<equiv> map (\<lambda>i. sint (get32 d (4 + 4 * i))) [0..<nat n] @ drop (nat n) (lh_block s)"
  shows "\<exists>t. read_head s = Ret () t \<and> bstep p (s\<lparr>lh_n := n, lh_block := bl\<rparr>) t \<and> busy t = {} \<and> pinned t = {} \<and>
    disk t = disk s \<and> writes t = writes s"
proof -
  define h :: uint where "h = word_of_int (lg_start s)"
  have un: "unat h = nat (lg_start s)" using g by (simp add: h_def unat_woi)
  have r: "unat h < length (disk s)" "h \<notin> busy s" "h \<in> pinned s \<or> card (busy s \<union> pinned s) < length (bufs s)"
    using un g(3) q by simp_all
  obtain b t where t: "bread 1 h s = Ret b t" "bstep p s t" "hold p b h t" "bview t = bview s" "busy t = insert h (busy s)"
    "pinned t = pinned s" "disk t = disk s" "writes t = writes s"
    by (rule bread_ok [OF q(1,2) r]) blast
  note bt = bstepD [OF t(2)] and lt = bstep_log [OF t(2)]
  have vh: "bview s h = d" using view_clean [OF q(2) r(2)] q(4) un by (simp add: d_def)
  have x: "getb b t = Ret (bufs t ! b) t" "bdata (bufs t ! b) = d"
    using hold_data(1,2) [OF bt(2) t(3)] t(4) vh by (simp_all add: getb_def)
  define u where "u = t\<lparr>lh_n := n, lh_block := bl\<rparr>"
  have lp: "mforeach [0..<nat n] (\<lambda>i. lh_set i (sint (get32 d (4 + 4 * i)))) (t\<lparr>lh_n := n\<rparr>) = Ret () u"
    using n g(5) lt(7) by (subst lh_set_loop) (simp_all add: u_def bl_def n_def)
  have hu: "quiet p u" "cache_ok u" "hold p b h u" "bview u = bview s" "busy u = insert h (busy s)" "pinned u = pinned s"
    "disk u = disk s" "writes u = writes s"
    using bt t by (simp_all add: u_def)
  have sv: "h \<in> pinned u \<or> bview u h = disk u ! unat h" using hu vh un by (simp add: d_def)
  obtain y where y: "brelse b u = Ret () y" "bstep p u y" "bview y = bview u" "busy y = busy u - {h}" "pinned y = pinned u"
    "disk y = disk u" "writes y = writes u"
    by (rule brelse_ok [OF hu(1-3) sv]) blast
  have "read_head s = Ret () y"
    using t(1) x lp y(1) g(1) by (simp add: read_head_def log_bread_eq h_def n_def)
  moreover have "bstep p (s\<lparr>lh_n := n, lh_block := bl\<rparr>) y"
    using bstep_trans [OF bstep_lh [OF t(2)] y(2) [unfolded u_def]] .
  ultimately show ?thesis using y hu q by auto
qed

text \<open>
  What recovery makes of a disk: the blocks named in the header are copied from the log to their homes, then
  the count in the header is cleared.
\<close>

definition dec_head :: "block \<Rightarrow> uint list" where
  "dec_head d = get32s 4 (nat (sint (get32 d 0))) d"

definition recovered :: "nat \<Rightarrow> block list \<Rightarrow> block list" where
  "recovered st D = (let hs = dec_head (D ! st);
       E = apply_writes (map (\<lambda>i. (unat (hs ! i), D ! (st + 1 + i))) [0..<length hs]) D
     in E[st := enc_head [] (E ! st)])"

text \<open>A disk on which recovery is safe: the header names at most \<open>LOGSIZE\<close> different blocks outside the log.\<close>

definition recoverable :: "nat \<Rightarrow> nat \<Rightarrow> block list \<Rightarrow> bool" where
  "recoverable st ls D \<longleftrightarrow> 0 < st \<and> st + ls \<le> length D \<and> length D < 2 ^ 31 \<and>
     0 \<le> sint (get32 (D ! st) 0) \<and> length (dec_head (D ! st)) \<le> LOGSIZE \<and> length (dec_head (D ! st)) < ls \<and>
     distinct (dec_head (D ! st)) \<and> (\<forall>h \<in> set (dec_head (D ! st)). unat h < length D \<and> \<not> (st \<le> unat h \<and> unat h < st + ls))"

lemma recover_from_log_run:
  fixes s :: "'z log_state_scheme"
  assumes q: "quiet p s" "cache_ok s" "busy s = {}" "pinned s = {}" "1 < length (bufs s)"
    and g: "lg_dev s = 1" "lg_start s = int st" "lg_size s = int ls" "length (lh_block s) = LOGSIZE"
    and rec: "recoverable st ls (disk s)"
  shows "\<exists>t. recover_from_log s = Ret () t \<and> quiet p t \<and> cache_ok t \<and> busy t = {} \<and> pinned t = {} \<and> lh_n t = 0 \<and>
    disk t = recovered st (disk s)"
proof -
  let ?d = "disk s ! st"
  define n where "n = sint (get32 ?d 0)"
  define bl where "bl = map (\<lambda>i. sint (get32 ?d (4 + 4 * i))) [0..<nat n] @ drop (nat n) (lh_block s)"
  let ?s1 = "s\<lparr>lh_n := n, lh_block := bl\<rparr>"
  have n: "0 \<le> n" "n \<le> int LOGSIZE" "nat n < ls" using rec by (auto simp: recoverable_def dec_head_def get32s_def n_def)
  have ne: "0 < length (bufs s)" using q(5) by linarith
  obtain t where t: "read_head s = Ret () t" "bstep p ?s1 t" "busy t = {}" "pinned t = {}" "disk t = disk s"
    using read_head_run [OF q(1-4) ne] g rec n(2) by (auto simp: recoverable_def n_def bl_def)
  note bt = bstepD [OF t(2)] and lt = bstep_log [OF t(2)]
  have hs: "homes t = dec_head ?d"
    using lt(6,7) n by (simp add: homes_def dec_head_def get32s_def n_def bl_def)
  have il: "in_log t k \<longleftrightarrow> st \<le> k \<and> k < st + ls" for k using lt(1,2) g by (auto simp: in_log_def)
  have wf: "log_wf t"
    using rec lt g n t(5) unfolding log_wf_def hs il by (auto simp: recoverable_def bl_def)
  obtain u where u: "install_trans t = Ret () u" "bstep p t u" "busy u = {}" "pinned u = {}"
    "disk u = apply_writes (map (\<lambda>i. (unat (homes t ! i), disk t ! lblk t i)) [0..<nat (lh_n t)]) (disk t)"
    using install_trans_run [OF bt(1,2) t(3) wf] t(4) bt(3) q(5) by auto
  note bu = bstepD [OF u(2)] and lu = bstep_log [OF u(2)]
  let ?u = "u\<lparr>lh_n := 0\<rparr>"
  have wu: "log_wf ?u" "homes ?u = []"
    using wf lu bu(4) by (auto simp: log_wf_def homes_def)
  obtain v where v: "write_head ?u = Ret () v" "bstep p ?u v" "busy v = {}" "pinned v = pinned ?u"
    "disk v = (disk ?u)[nat (lg_start ?u) := enc_head (homes ?u) (disk ?u ! nat (lg_start ?u))]"
    using write_head_run [of p ?u] bu u(3,4) wu ne bt(3) by auto
  have "recover_from_log s = Ret () v" using t(1) u(1) v(1) by (simp add: recover_from_log_def)
  moreover have "disk v = recovered st (disk s)"
  proof -
    have "lblk t i = st + 1 + i" for i using lt(1) g(2) by (simp add: lblk_def nat_add_distrib)
    moreover have "length (dec_head ?d) = nat (lh_n t)" using lt(6) by (simp add: dec_head_def get32s_def n_def)
    ultimately show ?thesis using v(5) u(5) wu(2) lu(1) lt(1) g(2) t(5) hs by (simp add: recovered_def Let_def)
  qed
  ultimately show ?thesis using bstepD(1,2) [OF v(2)] v(3,4) u(4) bstep_log(6) [OF v(2)] by auto
qed

section \<open>Commit\<close>

text \<open>The block writes of a commit, in order: the log, the header, the home blocks, the cleared header.\<close>

definition log_part :: "'z log_state_scheme \<Rightarrow> (nat \<times> block) list" where
  "log_part s = map (\<lambda>i. (lblk s i, bview s (homes s ! i))) [0..<nat (lh_n s)]"

definition home_part :: "'z log_state_scheme \<Rightarrow> (nat \<times> block) list" where
  "home_part s = map (\<lambda>i. (unat (homes s ! i), bview s (homes s ! i))) [0..<nat (lh_n s)]"

definition full_head :: "'z log_state_scheme \<Rightarrow> block" where
  "full_head s = enc_head (homes s) (disk s ! nat (lg_start s))"

definition commit_writes :: "'z log_state_scheme \<Rightarrow> (nat \<times> block) list" where
  "commit_writes s = log_part s @ [(nat (lg_start s), full_head s)] @ home_part s @
     [(nat (lg_start s), enc_head [] (full_head s))]"

lemma log_part_disk:
  assumes w: "log_wf s"
  shows "\<not> in_log s n \<Longrightarrow> apply_writes (take k (log_part s)) (disk s) ! n = disk s ! n"
    and "apply_writes (take k (log_part s)) (disk s) ! nat (lg_start s) = disk s ! nat (lg_start s)"
    and "i < nat (lh_n s) \<Longrightarrow> apply_writes (log_part s) (disk s) ! lblk s i = bview s (homes s ! i)"
proof -
  have dom: "n \<in> fst ` set (take k (log_part s)) \<Longrightarrow> in_log s n \<and> n \<noteq> nat (lg_start s)" for n k
    using lblk_facts(3,7) [OF w] by (auto simp: log_part_def dest!: in_set_takeD) blast
  show "\<not> in_log s n \<Longrightarrow> apply_writes (take k (log_part s)) (disk s) ! n = disk s ! n"
    "apply_writes (take k (log_part s)) (disk s) ! nat (lg_start s) = disk s ! nat (lg_start s)"
    using dom by (blast intro: apply_writes_other)+
  assume i: "i < nat (lh_n s)"
  have "inj_on (lblk s) {0..<nat (lh_n s)}" using log_wfD(2) [OF w] by (auto simp: inj_on_def lblk_def)
  then have "distinct (map fst (log_part s))" by (simp add: log_part_def comp_def distinct_map)
  then show "apply_writes (log_part s) (disk s) ! lblk s i = bview s (homes s ! i)"
    by (rule apply_writes_distinct) (use i lblk_facts(2) [OF w i] in \<open>auto simp: log_part_def\<close>)
qed

lemma commit_run:
  fixes s :: "'z log_state_scheme"
  assumes q: "quiet p s" "cache_ok s" "busy s = {}" and w: "log_wf s" and pin: "pinned s = set (homes s)"
    and n: "0 < lh_n s" "nat (lh_n s) < length (bufs s)"
  shows "\<exists>t. commit s = Ret () t \<and> bstep p (s\<lparr>lh_n := 0\<rparr>) t \<and> busy t = {} \<and> pinned t = {} \<and>
    disk t = apply_writes (commit_writes s) (disk s) \<and> writes t = writes s @ commit_writes s"
proof -
  let ?n = "nat (lh_n s)" and ?st = "nat (lg_start s)"
  have ne: "0 < length (bufs s)" using n(2) by linarith
  have card: "card (pinned s) < length (bufs s)" using pin log_wfD(9,12) [OF w] n(2) by (simp add: distinct_card)
  obtain a where a: "write_log s = Ret () a" "bstep p s a" "busy a = {}" "pinned a = pinned s" "\<forall>n \<in> pinned s. bview a n = bview s n"
    "disk a = apply_writes (log_part s) (disk s)" "writes a = writes s @ log_part s"
    using write_log_run [OF q w pin n(2)] unfolding log_part_def by blast
  note ba = bstepD [OF a(2)] and la = bstep_log [OF a(2)] and wa = bstep_wf [OF a(2)]
  have st_a: "disk a ! ?st = disk s ! ?st" unfolding a(6) using log_part_disk(2) [OF w, of "length (log_part s)"] by simp
  obtain b where b: "write_head a = Ret () b" "bstep p a b" "busy b = {}" "pinned b = pinned a" "\<forall>n \<in> pinned a. bview b n = bview a n"
    "disk b = (disk a)[?st := full_head s]" "writes b = writes a @ [(?st, full_head s)]"
    using write_head_run [OF ba(1,2) a(3), unfolded wa la(1) st_a, folded full_head_def] w pin a(4) card ba(3) by auto
  have sb: "bstep p s b" by (rule bstep_trans [OF a(2) b(2)])
  note bb = bstepD [OF b(2)] and lb = bstep_log [OF sb] and wb = bstep_wf [OF sb]
  have bl: "disk b ! lblk s i = bview s (homes s ! i)" if "i < ?n" for i
    using log_part_disk(3) [OF w that] lblk_facts(2,7) [OF w that] unfolding b(6) a(6) by simp
  have hp: "map (\<lambda>i. (unat (homes s ! i), disk b ! lblk s i)) [0..<?n] = home_part s" using bl by (simp add: home_part_def)
  obtain c where c: "install_trans b = Ret () c" "bstep p b c" "busy c = {}" "pinned c = {}"
    "disk c = apply_writes (home_part s) (disk b)" "writes c = writes b @ home_part s"
    using install_trans_run [OF bb(1,2) b(3), unfolded wb lb(6) hp] w pin b(4) a(4) bb(3) ba(3) n(2) by auto
  have sc: "bstep p s c" by (rule bstep_trans [OF sb c(2)])
  note bc = bstepD [OF sc] and lc = bstep_log [OF sc] and wc = bstep_wf [OF sc]
  let ?c = "c\<lparr>lh_n := 0\<rparr>"
  have w0: "log_wf ?c" "homes ?c = []"
    using w lc bc(4) by (auto simp: log_wf_def homes_def)
  have st_c: "disk c ! ?st = full_head s"
  proof -
    have "?st \<notin> fst ` set (home_part s)" using hdr_facts(4) [OF w] lblk_facts(6) [OF w] by (auto simp: home_part_def) blast
    then show ?thesis using hdr_facts(2) [OF w] by (simp add: c(5) b(6) a(6) apply_writes_other)
  qed
  obtain d where d: "write_head ?c = Ret () d" "bstep p ?c d" "busy d = {}" "pinned d = {}"
    "disk d = (disk c)[?st := enc_head [] (full_head s)]" "writes d = writes c @ [(?st, enc_head [] (full_head s))]"
    using write_head_run [of p ?c] bc c(3,4) w0 st_c ne lc(1) by auto
  have "commit s = Ret () d" using a(1) b(1) c(1) d(1) n(1) by (simp add: commit_def)
  moreover have "bstep p (s\<lparr>lh_n := 0\<rparr>) d"
    by (rule bstep_trans [OF bstep_lh_n [OF sc] d(2)])
  ultimately show ?thesis using a b c d by (auto simp: commit_writes_def)
qed

section \<open>Crashes\<close>

lemma dec_enc_head:
  assumes "length d = BSIZE" and "length hs \<le> LOGSIZE"
  shows "dec_head (enc_head hs d) = hs" "sint (get32 (enc_head hs d) 0) = int (length hs)"
proof -
  have g: "get32 (enc_head hs d) 0 = of_nat (length hs)"
    using assms by (simp add: enc_head_def get32_put32s_before)
  have "sint (of_nat (length hs) :: uint) = int (length hs)"
    using assms(2) by (subst signed_of_nat) (simp add: signed_take_bit_int_eq_self)
  with g show n: "sint (get32 (enc_head hs d) 0) = int (length hs)" by simp
  show "dec_head (enc_head hs d) = hs"
    unfolding dec_head_def n using get32s_put32s [of 4 hs "put32 0 (of_nat (length hs)) d"] assms by (simp add: enc_head_def)
qed

lemma recovered_empty:
  "dec_head (D ! st) = [] \<Longrightarrow> n \<noteq> st \<Longrightarrow> recovered st D ! n = D ! n"
  by (simp add: recovered_def)

text \<open>A disk with a header for \<open>hs\<close>: recovery copies the log, whatever part of it was copied before.\<close>

lemma recovered_full:
  assumes hs: "dec_head (D ! st) = hs" "distinct hs" "\<And>h. h \<in> set hs \<Longrightarrow> unat h < length D" and n: "n \<noteq> st" "n < length D"
  shows "recovered st D ! n = (if n \<in> unat ` set hs then D ! (st + 1 + the (find_idx (\<lambda>h. unat h = n) hs)) else D ! n)"
proof -
  let ?W = "map (\<lambda>i. (unat (hs ! i), D ! (st + 1 + i))) [0..<length hs]"
  have e: "recovered st D ! n = apply_writes ?W D ! n" using n(1) hs(1) by (simp add: recovered_def Let_def)
  show ?thesis
  proof (cases "n \<in> unat ` set hs")
    case False
    then have "n \<notin> fst ` set ?W" by auto
    with e False show ?thesis by (simp add: apply_writes_other)
  next
    case True
    then obtain i where i: "find_idx (\<lambda>h. unat h = n) hs = Some i"
      by (cases "find_idx (\<lambda>h. unat h = n) hs") (auto simp: find_idx_None)
    then have il: "i < length hs" "unat (hs ! i) = n" by (simp_all add: find_idx_Some)
    have "map fst ?W = map unat hs" by (rule nth_equalityI) auto
    then have "distinct (map fst ?W)" using hs(2) by (simp add: distinct_map inj_on_def word_unat_eq_iff)
    then have "apply_writes ?W D ! n = D ! (st + 1 + i)"
      by (rule apply_writes_distinct) (use il n(2) in auto)
    with e True i show ?thesis by simp
  qed
qed

text \<open>The disks a crash during the commit can leave, and what recovery makes of each of them.\<close>

definition target :: "'z log_state_scheme \<Rightarrow> nat \<Rightarrow> block" where
  "target s n = bview s (of_nat n)"

lemma target_home:
  assumes "log_wf s" and "i < nat (lh_n s)"
  shows "target s (unat (homes s ! i)) = bview s (homes s ! i)"
  by (simp add: target_def)

lemma target_clean:
  assumes w: "log_wf s" and c: "cache_ok s" "busy s = {}" "pinned s = set (homes s)" and n: "n < length (disk s)" "n \<notin> unat ` set (homes s)"
  shows "target s n = disk s ! n"
proof -
  have u: "unat (of_nat n :: uint) = n" using n(1) log_wfD(4) [OF w] by (simp add: unat_of_nat take_bit_nat_eq_self)
  then have "of_nat n \<notin> set (homes s)" using n(2) by (metis image_eqI)
  then have "bview s (of_nat n) = disk s ! unat (of_nat n :: uint)" using view_clean [OF c(1)] c(2,3) by simp
  with u show ?thesis by (simp add: target_def)
qed

lemma in_log_nat: "log_wf s \<Longrightarrow> in_log s n \<longleftrightarrow> nat (lg_start s) \<le> n \<and> n < nat (lg_start s) + nat (lg_size s)"
  using log_wfD(2,6,7) [of s] by (auto simp: in_log_def)

lemma recoverable_cong:
  assumes "log_wf s" and "length D = length (disk s)" and "0 \<le> sint (get32 (D ! nat (lg_start s)) 0)"
    and "dec_head (D ! nat (lg_start s)) = [] \<or> dec_head (D ! nat (lg_start s)) = homes s"
  shows "recoverable (nat (lg_start s)) (nat (lg_size s)) D"
proof -
  note w = log_wfD [OF assms(1)]
  have "unat h < length D \<and> \<not> (nat (lg_start s) \<le> unat h \<and> unat h < nat (lg_start s) + nat (lg_size s))" if "h \<in> set (homes s)" for h
    using w(10,11) [OF that] assms(2) in_log_nat [OF assms(1), of "unat h"] by simp
  with w assms show ?thesis by (auto simp: recoverable_def)
qed

lemma home_part_disk:
  assumes w: "log_wf s" and D: "length D = length (disk s)"
  shows "n \<notin> unat ` set (homes s) \<Longrightarrow> apply_writes (take k (home_part s)) D ! n = D ! n"
    and "i < nat (lh_n s) \<Longrightarrow> apply_writes (home_part s) D ! unat (homes s ! i) = bview s (homes s ! i)"
proof -
  have "fst ` set (take k (home_part s)) \<subseteq> unat ` set (homes s)" for k
    using log_wfD(12) [OF w] by (auto simp: home_part_def dest!: in_set_takeD)
  then show "n \<notin> unat ` set (homes s) \<Longrightarrow> apply_writes (take k (home_part s)) D ! n = D ! n"
    by (blast intro: apply_writes_other)
  assume i: "i < nat (lh_n s)"
  have "map fst (home_part s) = map unat (homes s)"
    by (rule nth_equalityI) (use log_wfD(12) [OF w] in \<open>auto simp: home_part_def\<close>)
  then have "distinct (map fst (home_part s))" using log_wfD(9) [OF w] by (simp add: distinct_map inj_on_def word_unat_eq_iff)
  then show "apply_writes (home_part s) D ! unat (homes s ! i) = bview s (homes s ! i)"
    by (rule apply_writes_distinct)
       (use i D log_wfD(10) [OF w lblk_facts(6) [OF w i]] in \<open>auto simp: home_part_def\<close>)
qed

lemma crash_before:
  assumes w: "log_wf s" and e: "get32 (disk s ! nat (lg_start s)) 0 = 0" and k: "k \<le> nat (lh_n s)"
  defines "D \<equiv> apply_writes (take k (commit_writes s)) (disk s)"
  shows "recoverable (nat (lg_start s)) (nat (lg_size s)) D"
    and "\<not> in_log s n \<Longrightarrow> recovered (nat (lg_start s)) D ! n = disk s ! n"
proof -
  have tk: "take k (commit_writes s) = take k (log_part s)" using k by (simp add: commit_writes_def log_part_def)
  have st: "D ! nat (lg_start s) = disk s ! nat (lg_start s)" unfolding D_def tk by (rule log_part_disk(2) [OF w])
  have dec: "dec_head (D ! nat (lg_start s)) = []" by (simp add: st dec_head_def e get32s_def)
  then show "recoverable (nat (lg_start s)) (nat (lg_size s)) D"
    by (intro recoverable_cong [OF w]) (simp_all add: D_def [symmetric] st e, simp add: D_def)
  assume n: "\<not> in_log s n"
  then have "n \<noteq> nat (lg_start s)" using hdr_facts(3) [OF w] by auto
  then have "recovered (nat (lg_start s)) D ! n = D ! n" by (rule recovered_empty [OF dec])
  also have "D ! n = disk s ! n" unfolding D_def tk by (rule log_part_disk(1) [OF w n])
  finally show "recovered (nat (lg_start s)) D ! n = disk s ! n" .
qed

text \<open>The disk once the log and the header are written: from here on the transaction is durable.\<close>

definition committed :: "'z log_state_scheme \<Rightarrow> block list" where
  "committed s = (apply_writes (log_part s) (disk s))[nat (lg_start s) := full_head s]"

lemma committed_facts:
  assumes w: "log_wf s" and c: "cache_ok s"
  shows "length (committed s) = length (disk s)" "committed s ! nat (lg_start s) = full_head s"
    and "i < nat (lh_n s) \<Longrightarrow> committed s ! lblk s i = bview s (homes s ! i)"
    and "\<not> in_log s m \<Longrightarrow> committed s ! m = disk s ! m"
    and "dec_head (full_head s) = homes s" "0 \<le> sint (get32 (full_head s) 0)" "length (full_head s) = BSIZE"
proof -
  have hd: "length (disk s ! nat (lg_start s)) = BSIZE" by (rule cacheD(8) [OF c hdr_facts(2) [OF w]])
  have nh: "length (homes s) \<le> LOGSIZE" using log_wfD(8,12) [OF w] by simp
  show "dec_head (full_head s) = homes s" "0 \<le> sint (get32 (full_head s) 0)" "length (full_head s) = BSIZE"
    using dec_enc_head [OF hd nh] length_enc_head [OF hd nh] by (simp_all add: full_head_def)
  show "length (committed s) = length (disk s)" "committed s ! nat (lg_start s) = full_head s"
    using hdr_facts(2) [OF w] by (simp_all add: committed_def)
  show "committed s ! lblk s i = bview s (homes s ! i)" if "i < nat (lh_n s)"
    using log_part_disk(3) [OF w that] lblk_facts(7) [OF w that] by (simp add: committed_def)
  show "committed s ! m = disk s ! m" if "\<not> in_log s m"
  proof -
    have "m \<noteq> nat (lg_start s)" using hdr_facts(3) [OF w] that by auto
    then show ?thesis using log_part_disk(1) [OF w that, of "nat (lh_n s)"] by (simp add: committed_def log_part_def)
  qed
qed

lemma home_index:
  assumes w: "log_wf s" and n: "n \<in> unat ` set (homes s)"
  shows "\<exists>i < nat (lh_n s). n = unat (homes s ! i) \<and> find_idx (\<lambda>h. unat h = n) (homes s) = Some i"
proof -
  obtain i where "find_idx (\<lambda>h. unat h = n) (homes s) = Some i"
    using n by (cases "find_idx (\<lambda>h. unat h = n) (homes s)") (auto simp: find_idx_None)
  then show ?thesis using log_wfD(12) [OF w] by (auto simp: find_idx_Some)
qed

lemma crash_copying:
  fixes j :: nat
  assumes w: "log_wf s" and c: "cache_ok s" "busy s = {}" "pinned s = set (homes s)"
  defines "D \<equiv> apply_writes (take j (home_part s)) (committed s)"
  shows "recoverable (nat (lg_start s)) (nat (lg_size s)) D"
    and "n < length (disk s) \<Longrightarrow> \<not> in_log s n \<Longrightarrow> recovered (nat (lg_start s)) D ! n = target s n"
proof -
  let ?st = "nat (lg_start s)"
  note cf = committed_facts [OF w c(1)] and out = home_part_disk(1) [OF w cf(1), of _ j, folded D_def]
  have stn: "?st \<notin> unat ` set (homes s)" using hdr_facts(4) [OF w] by (metis imageE)
  have st: "D ! ?st = full_head s" using out [OF stn] cf(2) by simp
  have len: "length D = length (disk s)" using cf(1) by (simp add: D_def)
  show "recoverable ?st (nat (lg_size s)) D"
    by (rule recoverable_cong [OF w len]) (simp_all add: st cf)
  assume n: "n < length (disk s)" "\<not> in_log s n"
  have ns: "n \<noteq> ?st" using n(2) hdr_facts(3) [OF w] by auto
  have dec: "dec_head (D ! ?st) = homes s" by (simp add: st cf)
  have r: "recovered ?st D ! n = (if n \<in> unat ` set (homes s) then D ! (?st + 1 + the (find_idx (\<lambda>h. unat h = n) (homes s))) else D ! n)"
    by (rule recovered_full [OF dec]) (use log_wfD(9,10) [OF w] len ns n(1) in simp_all)
  show "recovered ?st D ! n = target s n"
  proof (cases "n \<in> unat ` set (homes s)")
    case True
    then obtain i where i: "i < nat (lh_n s)" "n = unat (homes s ! i)" "find_idx (\<lambda>h. unat h = n) (homes s) = Some i"
      using home_index [OF w] by blast
    have "?st + 1 + i = lblk s i" using log_wfD(2) [OF w] by (simp add: lblk_def)
    moreover have "lblk s i \<notin> unat ` set (homes s)" using home_facts(1) [OF w i(1)] by (metis imageE)
    ultimately have "recovered ?st D ! n = bview s (homes s ! i)" using r True i(3) out cf(3) [OF i(1)] by simp
    then show ?thesis using target_home [OF w i(1)] i(2) by simp
  next
    case False
    then show ?thesis using r out [OF False] cf(4) [OF n(2)] target_clean [OF w c n(1) False] by simp
  qed
qed

lemma crash_done:
  assumes w: "log_wf s" and c: "cache_ok s" "busy s = {}" "pinned s = set (homes s)"
  defines "D \<equiv> (apply_writes (home_part s) (committed s))[nat (lg_start s) := enc_head [] (full_head s)]"
  shows "recoverable (nat (lg_start s)) (nat (lg_size s)) D"
    and "n < length (disk s) \<Longrightarrow> \<not> in_log s n \<Longrightarrow> D ! n = target s n"
    and "n < length (disk s) \<Longrightarrow> \<not> in_log s n \<Longrightarrow> recovered (nat (lg_start s)) D ! n = target s n"
proof -
  let ?st = "nat (lg_start s)"
  note cf = committed_facts [OF w c(1)]
  have st: "D ! ?st = enc_head [] (full_head s)" using hdr_facts(2) [OF w] cf(1) by (simp add: D_def)
  have len: "length D = length (disk s)" using cf(1) by (simp add: D_def)
  have dec: "dec_head (D ! ?st) = []" "0 \<le> sint (get32 (D ! ?st) 0)"
    using dec_enc_head [OF cf(7), of "[]"] by (simp_all add: st)
  then show "recoverable ?st (nat (lg_size s)) D" by (intro recoverable_cong [OF w len]) simp_all
  have D: "D ! n = target s n" and "n \<noteq> ?st" if n: "n < length (disk s)" "\<not> in_log s n" for n
  proof -
    show ns: "n \<noteq> ?st" using n(2) hdr_facts(3) [OF w] by auto
    show "D ! n = target s n"
    proof (cases "n \<in> unat ` set (homes s)")
      case True
      then obtain i where i: "i < nat (lh_n s)" "n = unat (homes s ! i)" using home_index [OF w] by blast
      then show ?thesis using home_part_disk(2) [OF w cf(1) i(1)] target_home [OF w i(1)] ns by (simp add: D_def)
    next
      case False
      then show ?thesis using home_part_disk(1) [OF w cf(1) False, of "length (home_part s)"] cf(4) [OF n(2)]
          target_clean [OF w c n(1) False] ns by (simp add: D_def)
    qed
  qed
  then show "n < length (disk s) \<Longrightarrow> \<not> in_log s n \<Longrightarrow> D ! n = target s n"
    "n < length (disk s) \<Longrightarrow> \<not> in_log s n \<Longrightarrow> recovered ?st D ! n = target s n"
    using recovered_empty [OF dec(1)] by simp_all
qed

lemma commit_prefix:
  assumes "nat (lh_n s) < k" and "k \<le> length (commit_writes s)"
  shows "(\<exists>j. apply_writes (take k (commit_writes s)) (disk s) = apply_writes (take j (home_part s)) (committed s)) \<or>
    apply_writes (take k (commit_writes s)) (disk s) = (apply_writes (home_part s) (committed s))[nat (lg_start s) := enc_head [] (full_head s)]"
proof -
  let ?n = "nat (lh_n s)" and ?e = "(nat (lg_start s), enc_head [] (full_head s))"
  have len: "length (log_part s) = ?n" "length (home_part s) = ?n" by (simp_all add: log_part_def home_part_def)
  define j where "j = k - Suc ?n"
  have k: "k = Suc (?n + j)" using assms(1) by (simp add: j_def)
  have "take k (commit_writes s) = log_part s @ (nat (lg_start s), full_head s) # take j (home_part s @ [?e])"
    unfolding k commit_writes_def by (simp add: len)
  then have D: "apply_writes (take k (commit_writes s)) (disk s) = apply_writes (take j (home_part s @ [?e])) (committed s)"
    by (simp add: committed_def)
  show ?thesis
  proof (cases "j \<le> ?n")
    case True
    with D len show ?thesis by auto
  next
    case False
    with D len show ?thesis by simp
  qed
qed

section \<open>Transactions\<close>

text \<open>\<open>lstep p s t\<close>: as \<open>bstep\<close>, but the transaction in memory may have grown.\<close>

definition lstep :: "nat \<Rightarrow> 'z log_state_scheme \<Rightarrow> 'z log_state_scheme \<Rightarrow> bool" where
  "lstep p s t \<longleftrightarrow> bstep p (s\<lparr>lh_n := lh_n t, lh_block := lh_block t\<rparr>) t"

lemma bstep_lstep: "bstep p s t \<Longrightarrow> lstep p s t"
  using bstep_log(6,7) [of p s t] by (simp add: lstep_def)

lemma lstep_trans:
  assumes "lstep p s t" and "lstep p t u"
  shows "lstep p s u"
proof -
  have "bstep p (s\<lparr>lh_n := lh_n u, lh_block := lh_block u\<rparr>) (t\<lparr>lh_n := lh_n u, lh_block := lh_block u\<rparr>)"
    using bstep_lh [OF assms(1) [unfolded lstep_def], where a = "lh_n u" and b = "lh_block u"] by simp
  with assms(2) show ?thesis unfolding lstep_def by (rule bstep_trans [rotated])
qed

lemma lstepD:
  assumes "lstep p s t"
  shows "quiet p t" "cache_ok t" "length (bufs t) = length (bufs s)" "length (disk t) = length (disk s)"
    "procs t ! p = procs s ! p" "slk t (InodeSl i) = slk s (InodeSl i)" "length (procs t) = length (procs s)"
    "lg_start t = lg_start s" "lg_size t = lg_size s" "outstanding t = outstanding s" "committing t = committing s" "lg_dev t = lg_dev s"
  using bstepD(1-7) [OF assms [unfolded lstep_def]] bstep_log(1-5) [OF assms [unfolded lstep_def]] by simp_all

lemma find_idx_map: "find_idx P (map f xs) = find_idx (\<lambda>x. P (f x)) xs"
  by (induction xs) auto

lemma log_index_homes:
  "log_index (lh_block s) (nat (lh_n s)) bn = (case find_idx (\<lambda>h. h = bn) (homes s) of Some i \<Rightarrow> i | None \<Rightarrow> nat (lh_n s))"
  by (simp add: log_index_def homes_def find_idx_map)

lemma log_index_cases:
  assumes w: "log_wf s"
  obtains (new) "bn \<notin> set (homes s)" "log_index (lh_block s) (nat (lh_n s)) bn = nat (lh_n s)"
    | (old) k where "bn \<in> set (homes s)" "log_index (lh_block s) (nat (lh_n s)) bn = k" "k < nat (lh_n s)" "homes s ! k = bn"
proof (cases "find_idx (\<lambda>h. h = bn) (homes s)")
  case None
  then have "bn \<notin> set (homes s)" unfolding find_idx_None by blast
  moreover have "log_index (lh_block s) (nat (lh_n s)) bn = nat (lh_n s)" by (simp add: log_index_homes None)
  ultimately show thesis by (rule new)
next
  case (Some j)
  then have j: "j < length (homes s)" "homes s ! j = bn" by (simp_all add: find_idx_Some)
  show thesis by (rule old [of j]) (use j log_wfD(12) [OF w] in \<open>auto simp: log_index_homes Some\<close>)
qed

text \<open>The header in memory after a block is logged.\<close>

definition logged :: "uint \<Rightarrow> 'z log_state_scheme \<Rightarrow> 'z log_state_scheme" where
  "logged bn s = (let i = log_index (lh_block s) (nat (lh_n s)) bn in
     s\<lparr>lh_block := (lh_block s)[i := sint bn], lh_n := (if i = nat (lh_n s) then lh_n s + 1 else lh_n s)\<rparr>)"

lemma logged_homes:
  assumes w: "log_wf s" and n: "nat (lh_n s) < LOGSIZE"
  shows "homes (logged bn s) = (if bn \<in> set (homes s) then homes s else homes s @ [bn])"
    and "lh_n (logged bn s) = int (length (homes (logged bn s)))"
proof -
  note wf = log_wfD [OF w]
  have "homes (logged bn s) = (if bn \<in> set (homes s) then homes s else homes s @ [bn]) \<and>
    lh_n (logged bn s) = int (length (homes (logged bn s)))"
  proof (rule log_index_cases [OF w, of bn])
    assume new: "bn \<notin> set (homes s)" "log_index (lh_block s) (nat (lh_n s)) bn = nat (lh_n s)"
    have "nat (lh_n s + 1) = Suc (nat (lh_n s))" using wf(6) by simp
    with new n wf(5) have "homes (logged bn s) = homes s @ [bn]"
      by (simp add: logged_def Let_def homes_def take_Suc_conv_app_nth take_update_swap list_update_append)
    with new wf(6,12) show ?thesis by (simp add: logged_def Let_def)
  next
    fix k
    assume old: "bn \<in> set (homes s)" "log_index (lh_block s) (nat (lh_n s)) bn = k" "k < nat (lh_n s)" "homes s ! k = bn"
    then have "homes (logged bn s) = (homes s)[k := bn]"
      by (simp add: logged_def Let_def homes_def take_update_swap map_update)
    also have "\<dots> = homes s" using old(4) by (metis list_update_id)
    finally show ?thesis using old wf(6,12) by (simp add: logged_def Let_def)
  qed
  then show "homes (logged bn s) = (if bn \<in> set (homes s) then homes s else homes s @ [bn])"
    "lh_n (logged bn s) = int (length (homes (logged bn s)))" by blast+
qed

lemma logged_wf:
  assumes w: "log_wf s" and n: "lh_n s < int LOGSIZE" "lh_n s < lg_size s - 1" and bn: "unat bn < length (disk s)" "\<not> in_log s (unat bn)"
  shows "log_wf (logged bn s)"
proof -
  note wf = log_wfD [OF w]
  have "nat (lh_n s) < LOGSIZE" using n(1) wf(6) by simp
  note h = logged_homes [OF w this, of bn]
  have f: "lg_dev (logged bn s) = lg_dev s" "lg_start (logged bn s) = lg_start s" "lg_size (logged bn s) = lg_size s"
    "disk (logged bn s) = disk s" "length (lh_block (logged bn s)) = length (lh_block s)" "in_log (logged bn s) = in_log s"
    by (simp_all add: logged_def Let_def in_log_def fun_eq_iff)
  show ?thesis unfolding log_wf_def f h using wf n bn by auto
qed

lemma log_write_ok:
  assumes q: "quiet p s" "cache_ok s" "hold p b bn s" and w: "log_wf s"
    and n: "lh_n s < int LOGSIZE" "lh_n s < lg_size s - 1" "1 \<le> outstanding s"
  obtains t where "log_write b s = Ret () t" "lstep p s t" "homes t = (if bn \<in> set (homes s) then homes s else homes s @ [bn])"
    "lh_n t = int (length (homes t))" "\<not> in_log s (unat bn) \<Longrightarrow> log_wf t"
    "bview t = bview s" "busy t = busy s" "pinned t = insert bn (pinned s)" "disk t = disk s" "writes t = writes s"
    "\<And>b' n. hold p b' n s \<Longrightarrow> hold p b' n t"
proof -
  note hd = hold_data [OF q(2,3)] and wf = log_wfD [OF w]
  have nn: "nat (lh_n s) < LOGSIZE" using n(1) wf(6) by simp
  let ?i = "log_index (lh_block s) (nat (lh_n s)) bn"
  have il: "?i < LOGSIZE" by (rule log_index_cases [OF w, of bn]) (use nn in simp_all)
  have eqn: "int ?i = lh_n s \<longleftrightarrow> ?i = nat (lh_n s)" using wf(6) by auto
  let ?s = "logged bn s"
  have ls: "quiet p ?s" "cache_ok ?s" "hold p b bn ?s" "bview ?s = bview s" "busy ?s = busy s" "pinned ?s = pinned s" "disk ?s = disk s"
    "writes ?s = writes s" "\<And>b' n. hold p b' n s \<Longrightarrow> hold p b' n ?s"
    using q by (simp_all add: logged_def Let_def)
  obtain u where u: "updb b (\<lambda>x. x\<lparr>bflags := bflags x OR B_DIRTY\<rparr>) ?s = Ret () u" "bstep p ?s u" "bview u = bview ?s" "busy u = busy ?s"
    "pinned u = insert bn (pinned ?s)" "disk u = disk ?s" "writes u = writes ?s" "\<And>b' n. hold p b' n ?s \<Longrightarrow> hold p b' n u" "u = ?s\<lparr>bufs := bufs u\<rparr>"
    by (rule bdirty_ok [OF ls(1-3)]) blast
  let ?t = "u\<lparr>cpus := crit u\<rparr>"
  have qu: "quiet p u" by (rule bstepD(1) [OF u(2)])
  have tu: "bview ?t = bview u" "busy ?t = busy u" "pinned ?t = pinned u" "hold p b' n' ?t = hold p b' n' u" "homes ?t = homes u" for b' n'
    by (rule view_same; simp)+ (simp_all add: hold_def mine_def homes_def)
  let ?A = "inlock LogLk"
  let ?s1 = "s\<lparr>lh_block := (lh_block s)[?i := sint bn]\<rparr>"
  have r0: "gets (\<lambda>s. 30 \<le> lh_n s \<or> lg_size s - 1 \<le> lh_n s) s = Ret False s" "gets outstanding s = Ret (outstanding s) s"
    using n by simp_all
  have r1: "getb b (?A s) = Ret (bufs s ! b) (?A s)" "gets (\<lambda>s. log_index (lh_block s) (nat (lh_n s)) bn) (?A s) = Ret ?i (?A s)"
    using hd(2) by (simp_all add: getb_def inlock_def)
  have r2: "lh_set ?i (sint bn) (?A s) = Ret () (?A ?s1)" "gets lh_n (?A ?s1) = Ret (lh_n s) (?A ?s1)"
    using il wf(5) by (simp_all add: lh_set_def inlock_def)
  have r3: "(if int ?i = lh_n s then modify (\<lambda>s. s\<lparr>lh_n := lh_n s + 1\<rparr>) else ret ()) (?A ?s1) = Ret () (?A ?s)"
    unfolding eqn by (simp add: logged_def Let_def inlock_def)
  have r4: "updb b (\<lambda>x. x\<lparr>bflags := bflags x OR B_DIRTY\<rparr>) (?A ?s) = Ret () (?A u)"
    using u(1) by (auto simp: updb_def inlock_def)
  have r5: "release LogLk (?A u) = Ret () ?t" by (rule release_quiet [OF qu])
  have lw: "log_write b s = Ret () ?t"
    unfolding log_write_def using n(3) hd(3)
    by (simp add: r0 acquire_quiet [OF q(1)] r1 r2 r3 [simplified] r4 r5 del: gets_apply)
  show thesis
  proof (rule that [OF lw])
    have "bstep p u ?t" using calm_crit [OF qu] bstepD(2) [OF u(2)] by (simp add: bstep_def calm_def)
    then have st: "bstep p ?s ?t" by (rule bstep_trans [OF u(2)])
    have "s\<lparr>lh_n := lh_n ?s, lh_block := lh_block ?s\<rparr> = ?s" by (simp add: logged_def Let_def)
    with st show "lstep p s ?t" unfolding lstep_def bstep_log(6,7) [OF st] by simp
    have hu: "homes ?t = homes ?s" "lh_n ?t = lh_n ?s" "log_wf ?t = log_wf ?s" using bstep_wf [OF st] bstep_log(6) [OF st] by simp_all
    show "homes ?t = (if bn \<in> set (homes s) then homes s else homes s @ [bn])" "lh_n ?t = int (length (homes ?t))"
      using logged_homes [OF w nn, of bn] hu by simp_all
    show "\<not> in_log s (unat bn) \<Longrightarrow> log_wf ?t" using logged_wf [OF w n(1,2) hd(6)] hu(3) by simp
  qed (use ls u tu in simp_all)
qed

lemma calm_bstep: "calm p s t \<Longrightarrow> cache_ok s \<Longrightarrow> bstep p s t"
  by (cases s, cases t) (simp add: calm_def bstep_def)

text \<open>A process waits in \<open>begin_op\<close> while a commit runs or the log might overflow.\<close>

lemma begin_op_wait:
  assumes q: "quiet p s" and w: "committing s \<or> lh_n s + (outstanding s + 1) * int MAXOPBLOCKS > int LOGSIZE"
  shows "\<exists>t. begin_op s = Swtch t \<and> sleeping_on LogChan (procs t ! p) \<and> outstanding t = outstanding s"
proof -
  obtain t where t: "sleep LogChan LogLk (inlock LogLk s) = Swtch t" "sleeping_on LogChan (procs t ! p)"
    "t = s\<lparr>cpus := cpus t, hw_if := hw_if t, spin := spin t, procs := upd_at p (\<lambda>x. x\<lparr>chan := Some LogChan, state := SLEEPING\<rparr>) (procs s)\<rparr>"
    by (rule sleep_quiet [OF q])
  have "outstanding t = outstanding s" by (subst t(3)) simp
  with t(1,2) w show ?thesis
    by (auto simp: begin_op_def begin_op_loop_def acquire_quiet [OF q]) (simp_all add: inlock_def)
qed

lemma begin_op_go:
  assumes q: "quiet p s" and w: "\<not> committing s" "lh_n s + (outstanding s + 1) * int MAXOPBLOCKS \<le> int LOGSIZE"
  shows "begin_op s = Ret () (s\<lparr>cpus := crit s, outstanding := outstanding s + 1\<rparr>)"
proof -
  let ?t = "s\<lparr>outstanding := outstanding s + 1\<rparr>"
  have qt: "quiet p ?t" using q by (simp add: quiet_def)
  have "release LogLk (inlock LogLk ?t) = Ret () (?t\<lparr>cpus := crit ?t\<rparr>)" by (rule release_quiet [OF qt])
  moreover have "(inlock LogLk s)\<lparr>outstanding := outstanding s + 1\<rparr> = inlock LogLk ?t" by (simp add: inlock_def)
  moreover have "crit ?t = crit s" by (simp add: crit_def)
  moreover have "\<not> committing (inlock LogLk s)" "lh_n (inlock LogLk s) = lh_n s" "outstanding (inlock LogLk s) = outstanding s"
    using w by (simp_all add: inlock_def)
  ultimately show ?thesis using w(2)
    by (simp add: begin_op_def begin_op_loop_def acquire_quiet [OF q] del: of_nat_numeral) 
qed

lemma commit_all:
  fixes s :: "'z log_state_scheme"
  assumes q: "quiet p s" "cache_ok s" "busy s = {}" and w: "log_wf s" and pin: "pinned s = set (homes s)"
    and n: "nat (lh_n s) < length (bufs s)"
  shows "\<exists>t. commit s = Ret () t \<and> bstep p (s\<lparr>lh_n := 0\<rparr>) t \<and> busy t = {} \<and> pinned t = {} \<and>
    (\<forall>b < length (disk s). \<not> in_log s b \<longrightarrow> disk t ! b = bview s (of_nat b))"
proof (cases "0 < lh_n s")
  case True
  obtain t where t: "commit s = Ret () t" "bstep p (s\<lparr>lh_n := 0\<rparr>) t" "busy t = {}" "pinned t = {}" "disk t = apply_writes (commit_writes s) (disk s)"
    using commit_run [OF q w pin True n] by blast
  have "disk t = (apply_writes (home_part s) (committed s))[nat (lg_start s) := enc_head [] (full_head s)]"
    unfolding t(5) by (simp add: commit_writes_def committed_def)
  then have "disk t ! b = bview s (of_nat b)" if "b < length (disk s)" "\<not> in_log s b" for b
    using crash_done(2) [OF w q(2,3) pin that] by (simp add: target_def)
  with t show ?thesis by blast
next
  case False
  then have z: "lh_n s = 0" "homes s = []" using log_wfD(6) [OF w] by (simp_all add: homes_def)
  then have "commit s = Ret () s" "s\<lparr>lh_n := 0\<rparr> = s" by (simp_all add: commit_def)
  moreover have "disk s ! b = bview s (of_nat b)" if "b < length (disk s)" for b
    using target_clean [OF w q(2,3) pin that] z(2) by (simp add: target_def)
  ultimately show ?thesis using bstep_refl [OF q(1,2)] q(3) pin z(2) by auto
qed

lemma view_flags [simp]:
  "bview (s\<lparr>outstanding := a\<rparr>) = bview s" "busy (s\<lparr>outstanding := a\<rparr>) = busy s" "pinned (s\<lparr>outstanding := a\<rparr>) = pinned s"
  "bview (s\<lparr>committing := c\<rparr>) = bview s" "busy (s\<lparr>committing := c\<rparr>) = busy s" "pinned (s\<lparr>committing := c\<rparr>) = pinned s"
  "bview (s\<lparr>cpus := x\<rparr>) = bview s" "busy (s\<lparr>cpus := x\<rparr>) = busy s" "pinned (s\<lparr>cpus := x\<rparr>) = pinned s"
  by ((rule view_same, simp, simp) | (rule view_same, simp))+

lemma quiet_flags [simp]: "quiet p (s\<lparr>outstanding := a\<rparr>) = quiet p s" "quiet p (s\<lparr>committing := c\<rparr>) = quiet p s"
  by (simp_all add: quiet_def)

lemma log_flags [simp]:
  "log_wf (s\<lparr>outstanding := a\<rparr>) = log_wf s" "log_wf (s\<lparr>committing := c\<rparr>) = log_wf s" "log_wf (s\<lparr>cpus := x\<rparr>) = log_wf s"
  "homes (s\<lparr>outstanding := a\<rparr>) = homes s" "homes (s\<lparr>committing := c\<rparr>) = homes s" "homes (s\<lparr>cpus := x\<rparr>) = homes s"
  "in_log (s\<lparr>outstanding := a\<rparr>) = in_log s" "in_log (s\<lparr>committing := c\<rparr>) = in_log s" "in_log (s\<lparr>cpus := x\<rparr>) = in_log s"
  by (simp_all add: log_wf_def homes_def in_log_def fun_eq_iff)

lemma end_op_last:
  fixes s :: "'z log_state_scheme"
  assumes q: "quiet p s" "cache_ok s" "busy s = {}" and w: "log_wf s" and pin: "pinned s = set (homes s)"
    and n: "nat (lh_n s) < length (bufs s)" and o1: "outstanding s = 1" "\<not> committing s"
  shows "\<exists>t. end_op s = Ret () t \<and> quiet p t \<and> outstanding t = 0 \<and> \<not> committing t \<and> lh_n t = 0 \<and> pinned t = {} \<and> busy t = {} \<and>
    cache_ok t \<and> (\<forall>b < length (disk s). \<not> in_log s b \<longrightarrow> disk t ! b = bview s (of_nat b)) \<and>
    (\<forall>x < length (procs t). \<not> sleeping_on LogChan (procs t ! x))"
proof -
  let ?a = "s\<lparr>outstanding := 0, committing := True\<rparr>"
  let ?b = "?a\<lparr>cpus := crit ?a\<rparr>"
  have qb: "quiet p ?b" by (rule quiet_crit) (use q in simp)
  have a: "(inlock LogLk s)\<lparr>outstanding := 0, committing := True\<rparr> = inlock LogLk ?a" "outstanding (inlock LogLk s) = 1"
    "\<not> committing (inlock LogLk s)"
    using o1 by (simp_all add: inlock_def)
  have ra: "release LogLk (inlock LogLk ?a) = Ret () ?b" by (rule release_quiet [of p]) (use q in simp)
  obtain c where c: "commit ?b = Ret () c" "bstep p (?b\<lparr>lh_n := 0\<rparr>) c" "busy c = {}" "pinned c = {}"
    "\<forall>b < length (disk s). \<not> in_log s b \<longrightarrow> disk c ! b = bview s (of_nat b)"
    using commit_all [OF qb] q w pin n by auto
  note bc = bstepD [OF c(2)] and lc = bstep_log [OF c(2)]
  let ?d = "c\<lparr>committing := False\<rparr>"
  have d: "(inlock LogLk c)\<lparr>committing := False\<rparr> = inlock LogLk ?d" by (simp add: inlock_def)
  have qd: "quiet p ?d" using bc(1) by simp
  obtain e where e: "wakeup LogChan (inlock LogLk ?d) = Ret () (inlock LogLk e)" "calm p ?d e" "procs e = map (woken_proc (ticks ?d) LogChan) (procs ?d)"
    by (rule wakeup_quiet [OF qd, of LogLk LogChan]) auto
  have qe: "quiet p e" by (rule calmD(1) [OF e(2)])
  have de: "bstep p ?d e" by (rule calm_bstep [OF e(2)]) (use bc(2) in simp)
  note be = bstepD [OF de] and le = bstep_log [OF de] and f = calm_bio [OF e(2)]
  let ?e = "e\<lparr>cpus := crit e\<rparr>"
  have re: "release LogLk (inlock LogLk e) = Ret () ?e" by (rule release_quiet [OF qe])
  have "end_op s = Ret () ?e"
    using a d by (simp add: end_op_def acquire_quiet [OF q(1)] ra c(1) acquire_quiet [OF bc(1)] e(1) re)
  moreover have "quiet p ?e" by (rule quiet_crit [OF qe])
  moreover have "\<forall>x < length (procs ?e). \<not> sleeping_on LogChan (procs ?e ! x)"
    by (simp add: e(3) woken_proc_def sleeping_on_def)
  moreover have "pinned e = {}" "busy e = {}" using view_same(2,3) [of e ?d] f c(3,4) by simp_all
  ultimately show ?thesis using c(5) be(2) le(3,4,6) lc(3,6) f(4) by (intro exI [of _ ?e]) simp
qed

section \<open>Properties\<close>

text \<open>A machine after a reboot: an idle cache over the given disk, and the geometry of the log known.\<close>

definition rebooted :: "nat \<Rightarrow> 'y log_state_scheme \<Rightarrow> block list \<Rightarrow> 'z log_state_scheme \<Rightarrow> bool" where
  "rebooted p s D r \<longleftrightarrow> quiet p r \<and> cache_ok r \<and> busy r = {} \<and> pinned r = {} \<and> 1 < length (bufs r) \<and>
     lg_dev r = 1 \<and> lg_start r = lg_start s \<and> lg_size r = lg_size s \<and> length (lh_block r) = LOGSIZE \<and> disk r = D"

lemma recovery_of:
  fixes r :: "'z log_state_scheme"
  assumes w: "log_wf s" and r: "rebooted p s D r" and D: "recoverable (nat (lg_start s)) (nat (lg_size s)) D"
  shows "\<exists>u. recover_from_log r = Ret () u \<and> disk u = recovered (nat (lg_start s)) D"
proof -
  have "lg_start r = int (nat (lg_start s))" "lg_size r = int (nat (lg_size s))" using r log_wfD(2,6,7) [OF w] by (simp_all add: rebooted_def)
  then show ?thesis using recover_from_log_run [of p r "nat (lg_start s)" "nat (lg_size s)"] r D by (auto simp: rebooted_def)
qed

text \<open>
  C5: Transactions are atomic. A process that commits a transaction of \<open>lh_n\<close> blocks with nothing else
  going on writes the blocks \<open>W\<close> in order, and afterwards every block outside the log is on the disk as the
  cache showed it. If the machine stops after any number \<open>k\<close> of these writes and is started again,
  \<open>recover_from_log\<close> succeeds and every block outside the log is as before the transaction when the header had
  not yet been written (\<open>k \<le> lh_n\<close>), and as the transaction left it otherwise: never a mixture.
\<close>

theorem commit_crash_safe:
  fixes s :: "'z log_state_scheme"
  assumes q: "quiet p s" "cache_ok s" "busy s = {}" and w: "log_wf s" and pin: "pinned s = set (homes s)"
    and n: "0 < lh_n s" "nat (lh_n s) < length (bufs s)" and e: "get32 (disk s ! nat (lg_start s)) 0 = 0"
  shows "\<exists>t W. commit s = Ret () t \<and> writes t = writes s @ W \<and> lh_n t = 0 \<and> pinned t = {} \<and>
    (\<forall>b < length (disk s). \<not> in_log s b \<longrightarrow> disk t ! b = bview s (of_nat b)) \<and>
    (\<forall>k \<le> length W. \<forall>r :: 'z log_state_scheme. rebooted p s (apply_writes (take k W) (disk s)) r \<longrightarrow>
       (\<exists>u. recover_from_log r = Ret () u \<and> (\<forall>b < length (disk s). \<not> in_log s b \<longrightarrow>
          disk u ! b = (if k \<le> nat (lh_n s) then disk s ! b else bview s (of_nat b)))))"
proof -
  let ?st = "nat (lg_start s)" and ?W = "commit_writes s"
  obtain t where t: "commit s = Ret () t" "bstep p (s\<lparr>lh_n := 0\<rparr>) t" "pinned t = {}" "disk t = apply_writes ?W (disk s)"
    "writes t = writes s @ ?W"
    using commit_run [OF q w pin n] by blast
  have dt: "disk t = (apply_writes (home_part s) (committed s))[?st := enc_head [] (full_head s)]"
    unfolding t(4) by (simp add: commit_writes_def committed_def)
  have final: "disk t ! b = bview s (of_nat b)" if "b < length (disk s)" "\<not> in_log s b" for b
    unfolding dt using crash_done(2) [OF w q(2,3) pin that] by (simp add: target_def)
  have crash: "\<exists>u. recover_from_log r = Ret () u \<and> (\<forall>b < length (disk s). \<not> in_log s b \<longrightarrow>
      disk u ! b = (if k \<le> nat (lh_n s) then disk s ! b else bview s (of_nat b)))"
    if k: "k \<le> length ?W" and r: "rebooted p s (apply_writes (take k ?W) (disk s)) r" for k and r :: "'z log_state_scheme"
  proof -
    let ?D = "apply_writes (take k ?W) (disk s)"
    have "recoverable ?st (nat (lg_size s)) ?D \<and> (\<forall>b < length (disk s). \<not> in_log s b \<longrightarrow>
        recovered ?st ?D ! b = (if k \<le> nat (lh_n s) then disk s ! b else target s b))"
    proof (cases "k \<le> nat (lh_n s)")
      case True
      then show ?thesis using crash_before [OF w e True] by simp
    next
      case False
      then show ?thesis using commit_prefix [of s k] k crash_copying [OF w q(2,3) pin] crash_done(1,3) [OF w q(2,3) pin] by auto
    qed
    with recovery_of [OF w r] show ?thesis by (auto simp: target_def)
  qed
  show ?thesis
    by (rule exI [of _ t], rule exI [of _ ?W]) (use t(1,3,5) bstep_log(6) [OF t(2)] final crash in simp)
qed

text \<open>A log of two blocks and a transaction that has changed block 4, for examples.\<close>

definition ex_log :: log_state where
  "ex_log = bio_state.extend (ex_bio\<lparr>bufs := [(ex_buf (Some 1) None)\<lparr>bdev := 1, blockno := 4, bflags := 6, bdata := replicate BSIZE 9\<rparr>,
       ex_buf None (Some 0)], disk := replicate 5 (replicate BSIZE 0)\<rparr>)
     \<lparr>lg_start = 2, lg_size = 2, outstanding = 0, committing = True, lg_dev = 1, lh_n = 1, lh_block = 4 # replicate 29 0\<rparr>"

lemma ex_log_fields:
  "bufs ex_log = [(ex_buf (Some 1) None)\<lparr>bdev := 1, blockno := 4, bflags := 6, bdata := replicate BSIZE 9\<rparr>, ex_buf None (Some 0)]"
  "head_prev ex_log = Some 0" "head_next ex_log = Some 1" "disk ex_log = replicate 5 (replicate BSIZE 0)" "lg_start ex_log = 2"
  "lg_size ex_log = 2" "lg_dev ex_log = 1" "lh_n ex_log = 1" "lh_block ex_log = 4 # replicate 29 0" "writes ex_log = []"
  "slk ex_log = (\<lambda>_. \<lparr>slocked = False, slname = [], spid = 0\<rparr>)"
  using ex_bio_fields by (simp_all add: ex_log_def bio_state.defs)

lemma ex_log_quiet: "quiet 0 ex_log"
  using ex_bio_quiet by (simp add: quiet_def ex_log_def bio_state.defs)

lemma ex_log_cache: "cache_ok ex_log"
proof -
  have "dll (bufs ex_log) (head_next ex_log) (head_prev ex_log) [1, 0]" "set [1, 0] = {..<length (bufs ex_log)}"
    by (auto simp: ex_log_fields dll_def ex_buf_def)
  then have "\<exists>ord. dll (bufs ex_log) (head_next ex_log) (head_prev ex_log) ord \<and> set ord = {..<length (bufs ex_log)}"
    by blast
  then show ?thesis by (simp add: cache_at_def) (simp add: ex_log_fields ex_buf_def less_Suc_eq)
qed

lemma ex_log_slot: "slot (bufs ex_log) bn = (if bn = 4 then Some 0 else None)"
  by (auto simp: slot_def ex_log_fields ex_buf_def)

lemma ex_log_views: "busy ex_log = {}" "pinned ex_log = {4}" "homes ex_log = [4]" "bview ex_log 4 = replicate BSIZE 9"
  unfolding busy_def pinned_def bview_def ex_log_slot by (auto simp: homes_def ex_log_fields ex_buf_def split: if_splits)

lemma ex_log_wf: "log_wf ex_log"
  by (simp add: log_wf_def ex_log_views in_log_def ex_log_fields)

text \<open>The same machine after a reboot from the disk \<open>D\<close>.\<close>

definition ex_reboot :: "block list \<Rightarrow> log_state" where
  "ex_reboot D = ex_log\<lparr>bufs := [ex_buf (Some 1) None, ex_buf None (Some 0)], disk := D, lh_n := 0\<rparr>"

lemma ex_rebooted:
  assumes "\<forall>b \<in> set D. length b = BSIZE"
  shows "rebooted 0 ex_log D (ex_reboot D)"
proof -
  have f: "bufs (ex_reboot D) = [ex_buf (Some 1) None, ex_buf None (Some 0)]" "head_next (ex_reboot D) = Some 1" "head_prev (ex_reboot D) = Some 0"
    "disk (ex_reboot D) = D" "slk (ex_reboot D) = slk ex_log" by (simp_all add: ex_reboot_def ex_log_fields)
  have "dll (bufs (ex_reboot D)) (head_next (ex_reboot D)) (head_prev (ex_reboot D)) [1, 0]" "set [1, 0] = {..<length (bufs (ex_reboot D))}"
    by (auto simp: f dll_def ex_buf_def)
  then have "\<exists>ord. dll (bufs (ex_reboot D)) (head_next (ex_reboot D)) (head_prev (ex_reboot D)) ord \<and> set ord = {..<length (bufs (ex_reboot D))}"
    by blast
  then have c: "cache_ok (ex_reboot D)" using assms by (simp add: cache_at_def) (simp add: f ex_log_fields ex_buf_def less_Suc_eq)
  have n: "slot (bufs (ex_reboot D)) bn = None" for bn by (simp add: slot_def f ex_buf_def)
  have "quiet 0 (ex_reboot D)" using ex_log_quiet by (simp add: ex_reboot_def)
  with c show ?thesis
    by (simp add: rebooted_def busy_def pinned_def n) (simp add: f ex_reboot_def ex_log_fields)
qed

lemma apply_writes_sizes:
  assumes "\<forall>b \<in> set D. length b = n" "\<forall>w \<in> set ws. length (snd w) = n"
  shows "\<forall>b \<in> set (apply_writes ws D). length b = n"
  using assms
proof (induction ws arbitrary: D)
  case (Cons w ws)
  have "set (D[fst w := snd w]) \<subseteq> insert (snd w) (set D)" by (rule set_update_subset_insert)
  then have "\<forall>b \<in> set (D[fst w := snd w]). length b = n" using Cons.prems by auto
  then show ?case using Cons.IH Cons.prems(2) by (cases w) simp
qed simp

lemma ex_log_writes: "\<forall>w \<in> set (commit_writes ex_log). length (snd w) = BSIZE" "length (commit_writes ex_log) = 4"
proof -
  have z: "length (disk ex_log ! nat (lg_start ex_log)) = BSIZE" by (simp add: ex_log_fields)
  have "length (full_head ex_log) = BSIZE" unfolding full_head_def by (rule length_enc_head [OF z]) (simp add: ex_log_views)
  moreover from this have "length (enc_head [] (full_head ex_log)) = BSIZE" by (rule length_enc_head) simp
  moreover have one: "[0..<nat (lh_n ex_log)] = [0]" by (simp add: ex_log_fields)
  ultimately show "\<forall>w \<in> set (commit_writes ex_log). length (snd w) = BSIZE"
    unfolding commit_writes_def log_part_def home_part_def one by (simp add: ex_log_views)
  show "length (commit_writes ex_log) = 4" unfolding commit_writes_def log_part_def home_part_def one by simp
qed

theorem commit_crash_safe_witness:
  "\<exists>t W u v. commit ex_log = Ret () t \<and> writes t = W \<and> disk t ! 4 = replicate BSIZE 9 \<and>
     recover_from_log (ex_reboot (apply_writes (take 1 W) (disk ex_log))) = Ret () u \<and> disk u ! 4 = replicate BSIZE 0 \<and>
     recover_from_log (ex_reboot (apply_writes (take 2 W) (disk ex_log))) = Ret () v \<and> disk v ! 4 = replicate BSIZE 9"
proof -
  have h: "get32 (disk ex_log ! nat (lg_start ex_log)) 0 = 0" "0 < lh_n ex_log" "nat (lh_n ex_log) < length (bufs ex_log)"
    "pinned ex_log = set (homes ex_log)"
    by (simp_all add: ex_log_fields get32_def slice_def de32_def ex_log_views)
  have b: "\<not> in_log ex_log 4" "4 < length (disk ex_log)" by (simp_all add: ex_log_fields in_log_def)
  obtain t W where t: "commit ex_log = Ret () t" "writes t = writes ex_log @ W" 
    "\<forall>b < length (disk ex_log). \<not> in_log ex_log b \<longrightarrow> disk t ! b = bview ex_log (of_nat b)"
    "\<forall>k \<le> length W. \<forall>r :: log_state. rebooted 0 ex_log (apply_writes (take k W) (disk ex_log)) r \<longrightarrow>
       (\<exists>u. recover_from_log r = Ret () u \<and> (\<forall>b < length (disk ex_log). \<not> in_log ex_log b \<longrightarrow>
          disk u ! b = (if k \<le> nat (lh_n ex_log) then disk ex_log ! b else bview ex_log (of_nat b))))"
    using commit_crash_safe [OF ex_log_quiet ex_log_cache ex_log_views(1) ex_log_wf h(4,2,3,1)] by (elim exE conjE) (rule that)
  have w: "writes t = W" using t(2) by (simp add: ex_log_fields)
  have W: "W = commit_writes ex_log"
    using commit_run [OF ex_log_quiet ex_log_cache ex_log_views(1) ex_log_wf h(4,2,3)] t(1,2) by auto
  have r: "rebooted 0 ex_log (apply_writes (take k W) (disk ex_log)) (ex_reboot (apply_writes (take k W) (disk ex_log)))" for k
    by (rule ex_rebooted, rule apply_writes_sizes) (use ex_log_writes(1) in \<open>auto simp: ex_log_fields W dest!: in_set_takeD\<close>)
  have u: "\<exists>u. recover_from_log (ex_reboot (apply_writes (take k W) (disk ex_log))) = Ret () u \<and>
      disk u ! 4 = (if k \<le> nat (lh_n ex_log) then disk ex_log ! 4 else bview ex_log (of_nat 4))" if "k \<le> 4" for k
  proof -
    have "k \<le> length W" using that ex_log_writes(2) by (simp add: W)
    from t(4) [rule_format, OF this r] show ?thesis using b by (elim exE conjE) (rule exI, rule conjI, assumption, simp)
  qed
  have "disk t ! 4 = replicate BSIZE 9" using t(3) b by (simp add: ex_log_views)
  then show ?thesis using t(1) w u [of 1] u [of 2] by (simp add: ex_log_views ex_log_fields)
qed

text \<open>
  C24: The header survives a reboot: what \<open>write_head\<close> puts on the disk, \<open>read_head\<close> on a machine started
  from that disk reads back as the same list of blocks.
\<close>

theorem log_header_roundtrip:
  fixes s :: "'z log_state_scheme"
  assumes q: "quiet p s" "cache_ok s" "busy s = {}" and w: "log_wf s" and pin: "pinned s \<subseteq> set (homes s)" "card (pinned s) < length (bufs s)"
  shows "\<exists>t. write_head s = Ret () t \<and> (\<forall>r :: 'z log_state_scheme. rebooted p s (disk t) r \<longrightarrow>
     (\<exists>u. read_head r = Ret () u \<and> lh_n u = lh_n s \<and> homes u = homes s))"
proof -
  let ?st = "nat (lg_start s)"
  note wf = log_wfD [OF w]
  obtain t where t: "write_head s = Ret () t" "disk t = (disk s)[?st := enc_head (homes s) (disk s ! ?st)]"
    using write_head_run [OF q w pin] by blast
  have hd: "length (disk s ! ?st) = BSIZE" by (rule cacheD(8) [OF q(2) hdr_facts(2) [OF w]])
  have nh: "length (homes s) \<le> LOGSIZE" using wf(8,12) by simp
  have dt: "disk t ! ?st = enc_head (homes s) (disk s ! ?st)" using t(2) hdr_facts(2) [OF w] by simp
  note dec = dec_enc_head [OF hd nh, folded dt]
  have "\<exists>u. read_head r = Ret () u \<and> lh_n u = lh_n s \<and> homes u = homes s" if r: "rebooted p s (disk t) r" for r :: "'z log_state_scheme"
  proof -
    have g: "quiet p r" "cache_ok r" "busy r = {}" "pinned r = {}" "0 < length (bufs r)" "lg_dev r = 1" "0 < lg_start r"
      "nat (lg_start r) < length (disk r)" "length (disk r) < 2 ^ 31" "length (lh_block r) = LOGSIZE" "disk r ! nat (lg_start r) = disk t ! ?st"
      using r wf(2,4) hdr_facts(2) [OF w] t(2) by (auto simp: rebooted_def)
    have le: "sint (get32 (disk r ! nat (lg_start r)) 0) \<le> int LOGSIZE" using g(11) dec(2) nh by simp
    obtain u where u: "read_head r = Ret () u" "bstep p (r\<lparr>lh_n := sint (get32 (disk t ! ?st) 0),
        lh_block := map (\<lambda>i. sint (get32 (disk t ! ?st) (4 + 4 * i))) [0..<nat (sint (get32 (disk t ! ?st) 0))] @
          drop (nat (sint (get32 (disk t ! ?st) 0))) (lh_block r)\<rparr>) u"
      using read_head_run [OF g(1-10) le] unfolding g(11) by blast
    have "homes u = dec_head (disk t ! ?st)"
      using bstep_log(6,7) [OF u(2)] by (simp add: homes_def dec_head_def get32s_def)
    with u(1) bstep_log(6) [OF u(2)] dec wf(6,12) show ?thesis by simp
  qed
  with t(1) show ?thesis by blast
qed

theorem log_header_roundtrip_witness:
  "\<exists>t u. write_head ex_log = Ret () t \<and> read_head (ex_reboot (disk t)) = Ret () u \<and> homes u = [4]"
proof -
  have h: "pinned ex_log \<subseteq> set (homes ex_log)" "card (pinned ex_log) < length (bufs ex_log)"
    by (simp_all add: ex_log_views) (simp add: ex_log_fields)
  note q = ex_log_quiet ex_log_cache ex_log_views(1) ex_log_wf h
  obtain t where t: "write_head ex_log = Ret () t" "\<forall>r :: log_state. rebooted 0 ex_log (disk t) r \<longrightarrow>
     (\<exists>u. read_head r = Ret () u \<and> lh_n u = lh_n ex_log \<and> homes u = homes ex_log)"
    using log_header_roundtrip [OF q] by (elim exE conjE) (rule that)
  have d: "disk t = (disk ex_log)[nat (lg_start ex_log) := full_head ex_log]"
  proof -
    obtain t' where "write_head ex_log = Ret () t'" "disk t' = (disk ex_log)[nat (lg_start ex_log) := full_head ex_log]"
      using write_head_run [OF q, folded full_head_def] by (elim exE conjE) (rule that)
    then show ?thesis using t(1) by (simp only: res.inject)
  qed
  have "(nat (lg_start ex_log), full_head ex_log) \<in> set (commit_writes ex_log)" by (simp add: commit_writes_def)
  then have f: "\<forall>w \<in> set [(nat (lg_start ex_log), full_head ex_log)]. length (snd w) = BSIZE" using ex_log_writes(1) by auto
  have "\<forall>b \<in> set (disk ex_log). length b = BSIZE" using cacheD(8) [OF ex_log_cache] by (auto simp: in_set_conv_nth)
  then have "\<forall>b \<in> set (disk t). length b = BSIZE" using apply_writes_sizes [OF _ f] unfolding apply_writes_simps d by blast
  from t(2) [rule_format, OF ex_rebooted [OF this]] show ?thesis
    unfolding ex_log_views(3) by (elim exE conjE) (intro exI conjI, rule t(1))
qed

text \<open>
  C25: Admission to the log. \<open>begin_op\<close> lets a system call start exactly when no commit is running and the log
  has room for the blocks already logged plus \<open>MAXOPBLOCKS\<close> for every running call including this one; then the
  call is counted. Otherwise the caller is left asleep on the log and nothing is counted.
\<close>

theorem begin_op_admission:
  assumes "quiet p s"
  shows "if \<not> committing s \<and> lh_n s + (outstanding s + 1) * int MAXOPBLOCKS \<le> int LOGSIZE
    then \<exists>t. begin_op s = Ret () t \<and> outstanding t = outstanding s + 1 \<and> lh_n t + outstanding t * int MAXOPBLOCKS \<le> int LOGSIZE \<and> quiet p t
    else \<exists>t. begin_op s = Swtch t \<and> sleeping_on LogChan (procs t ! p) \<and> outstanding t = outstanding s"
proof (cases "\<not> committing s \<and> lh_n s + (outstanding s + 1) * int MAXOPBLOCKS \<le> int LOGSIZE")
  case True
  then show ?thesis using begin_op_go [OF assms] quiet_crit [OF assms] by simp
next
  case False
  then show ?thesis using begin_op_wait [OF assms] by auto
qed

theorem begin_op_admission_witness:
  "\<exists>t. begin_op ex_log = Swtch t \<and> sleeping_on LogChan (procs t ! 0)"
  using begin_op_admission [OF ex_log_quiet] by (simp add: ex_log_def bio_state.defs split: if_splits) blast

text \<open>
  C23: \<open>log_write\<close>. For the holder of a block outside the log, within a transaction with room left, it adds
  the block to the transaction unless it is already there (absorption), pins its buffer, and changes no
  block; a full log or a call outside a transaction panics.
\<close>

theorem log_write_absorbs:
  assumes q: "quiet p s" "cache_ok s" "hold p b bn s" and w: "log_wf s" "\<not> in_log s (unat bn)" and pin: "pinned s = set (homes s)"
  shows "if lh_n s \<ge> int LOGSIZE \<or> lh_n s \<ge> lg_size s - 1 then log_write b s = Stop (Panic ''too big a transaction'')
    else if outstanding s < 1 then log_write b s = Stop (Panic ''log_write outside of trans'')
    else \<exists>t. log_write b s = Ret () t \<and> homes t = (if bn \<in> set (homes s) then homes s else homes s @ [bn]) \<and>
      log_wf t \<and> pinned t = set (homes t) \<and> bview t = bview s \<and> busy t = busy s \<and> disk t = disk s"
proof -
  consider "lh_n s \<ge> int LOGSIZE \<or> lh_n s \<ge> lg_size s - 1"
    | "lh_n s < int LOGSIZE" "lh_n s < lg_size s - 1" "outstanding s < 1"
    | "lh_n s < int LOGSIZE" "lh_n s < lg_size s - 1" "1 \<le> outstanding s" by linarith
  then show ?thesis
  proof cases
    case 1
    then show ?thesis by (simp add: log_write_def)
  next
    case 2
    then show ?thesis by (simp add: log_write_def)
  next
    case 3
    obtain t where "log_write b s = Ret () t" "homes t = (if bn \<in> set (homes s) then homes s else homes s @ [bn])"
      "\<not> in_log s (unat bn) \<Longrightarrow> log_wf t" "bview t = bview s" "busy t = busy s" "pinned t = insert bn (pinned s)" "disk t = disk s"
      by (rule log_write_ok [OF q w(1) 3]) blast
    with 3 w(2) pin show ?thesis by auto
  qed
qed

text \<open>The same log with an empty transaction, block 4 locked by the running process.\<close>

definition ex_logw :: log_state where
  "ex_logw = ex_log\<lparr>bufs := [(ex_buf (Some 1) None)\<lparr>bdev := 1, blockno := 4, bflags := 2, brefcnt := 1, bdata := replicate BSIZE 9\<rparr>,
       ex_buf None (Some 0)], slk := (slk ex_log)(BufSl 0 := \<lparr>slocked = True, slname = [], spid = pid (procs ex_log ! 0)\<rparr>),
     lh_n := 0, outstanding := 1, committing := False\<rparr>"

lemma ex_logw_fields:
  "bufs ex_logw = [(ex_buf (Some 1) None)\<lparr>bdev := 1, blockno := 4, bflags := 2, brefcnt := 1, bdata := replicate BSIZE 9\<rparr>, ex_buf None (Some 0)]"
  "head_prev ex_logw = Some 0" "head_next ex_logw = Some 1" "disk ex_logw = replicate 5 (replicate BSIZE 0)" "lg_start ex_logw = 2"
  "lg_size ex_logw = 2" "lg_dev ex_logw = 1" "lh_n ex_logw = 0" "lh_block ex_logw = 4 # replicate 29 0" "outstanding ex_logw = 1"
  "slk ex_logw l = (if l = BufSl 0 then \<lparr>slocked = True, slname = [], spid = pid (procs ex_log ! 0)\<rparr> else \<lparr>slocked = False, slname = [], spid = 0\<rparr>)"
  "procs ex_logw = procs ex_log"
  using ex_log_fields by (simp_all add: ex_logw_def)

lemma ex_logw_quiet: "quiet 0 ex_logw"
  using ex_log_quiet by (simp add: quiet_def ex_logw_def)

lemma ex_logw_cache: "cache_ok ex_logw"
proof -
  have "dll (bufs ex_logw) (head_next ex_logw) (head_prev ex_logw) [1, 0]" "set [1, 0] = {..<length (bufs ex_logw)}"
    by (auto simp: ex_logw_fields dll_def ex_buf_def)
  then have "\<exists>ord. dll (bufs ex_logw) (head_next ex_logw) (head_prev ex_logw) ord \<and> set ord = {..<length (bufs ex_logw)}"
    by blast
  then show ?thesis by (simp add: cache_at_def) (simp add: ex_logw_fields ex_buf_def less_Suc_eq)
qed

lemma ex_logw_slot: "slot (bufs ex_logw) bn = (if bn = 4 then Some 0 else None)"
  by (auto simp: slot_def ex_logw_fields ex_buf_def)

lemma ex_logw_views: "pinned ex_logw = {}" "homes ex_logw = []" "hold 0 0 4 ex_logw"
  unfolding pinned_def hold_def mine_def ex_logw_slot by (auto simp: homes_def ex_logw_fields ex_buf_def split: if_splits)

lemma ex_logw_wf: "log_wf ex_logw" "\<not> in_log ex_logw (unat (4 :: uint))"
  by (simp_all add: log_wf_def ex_logw_views in_log_def ex_logw_fields)

theorem log_write_absorbs_witness:
  "\<exists>t. log_write 0 ex_logw = Ret () t \<and> homes t = [4] \<and> pinned t = {4}"
proof -
  have "pinned ex_logw = set (homes ex_logw)" by (simp add: ex_logw_views)
  from log_write_absorbs [OF ex_logw_quiet ex_logw_cache ex_logw_views(3) ex_logw_wf this] show ?thesis
    by (auto simp: ex_logw_fields ex_logw_views)
qed

text \<open>
  C13: The last \<open>end_op\<close> of a transaction commits it. When the only running system call ends it, all its blocks
  are on the disk when \<open>end_op\<close> returns, the log is free for new calls (\<open>lh_n\<close>, \<open>outstanding\<close> and \<open>committing\<close> are
  reset), and no process is left asleep in \<open>begin_op\<close>.
\<close>

theorem end_op_durable:
  assumes "quiet p s" and "cache_ok s" and "busy s = {}" and "log_wf s" and "pinned s = set (homes s)"
    and "nat (lh_n s) < length (bufs s)" and "outstanding s = 1" and "\<not> committing s"
  shows "\<exists>t. end_op s = Ret () t \<and> outstanding t = 0 \<and> \<not> committing t \<and> lh_n t = 0 \<and> pinned t = {} \<and> quiet p t \<and> cache_ok t \<and>
    (\<forall>b < length (disk s). \<not> in_log s b \<longrightarrow> disk t ! b = bview s (of_nat b)) \<and>
    (\<forall>x < length (procs t). \<not> sleeping_on LogChan (procs t ! x))"
  using end_op_last [OF assms] by blast

theorem end_op_durable_witness:
  "\<exists>t. end_op (ex_log\<lparr>outstanding := 1, committing := False\<rparr>) = Ret () t \<and> lh_n t = 0 \<and> disk t ! 4 = replicate BSIZE 9"
proof -
  let ?s = "ex_log\<lparr>outstanding := 1, committing := False\<rparr>"
  have "quiet 0 ?s" "cache_ok ?s" "busy ?s = {}" "log_wf ?s" "pinned ?s = set (homes ?s)" "nat (lh_n ?s) < length (bufs ?s)"
      "outstanding ?s = 1" "\<not> committing ?s"
    using ex_log_quiet ex_log_cache ex_log_wf by (simp_all add: ex_log_views ex_log_fields)
  from end_op_durable [OF this] obtain t where "end_op ?s = Ret () t" "lh_n t = 0"
    "\<forall>b < length (disk ?s). \<not> in_log ?s b \<longrightarrow> disk t ! b = bview ?s (of_nat b)" by blast
  moreover have "4 < length (disk ?s)" "\<not> in_log ?s 4" "bview ?s (of_nat 4) = replicate BSIZE 9"
    by (simp_all add: ex_log_fields in_log_def ex_log_views)
  ultimately show ?thesis by metis
qed

end
