(* ===== verification/Ports.thy ===== *)
theory Ports
  imports Bytes
begin

text \<open>
  What the device drivers share: the port instructions of \<open>x86.h\<close>, memory-mapped device registers, and
  the variables the drivers keep.

  A device is seen through what it delivers and what it is sent. \<open>in_port\<close>, \<open>in_word\<close> and \<open>in_mmio\<close> give for
  each port (or register address) the values its successive reads will return; nothing is assumed about
  them, so a driver is proved correct for every behaviour of its device or under hypotheses on these
  values. \<open>outs\<close> records everything sent to a device, oldest first.
\<close>

section \<open>State\<close>

datatype out_event = Outb ushort byte | Outl ushort uint | Mmio uint uint

record io_state =
  in_port :: "ushort \<Rightarrow> nat \<Rightarrow> byte"
  in_word :: "ushort \<Rightarrow> nat \<Rightarrow> uint"
  in_mmio :: "uint \<Rightarrow> nat \<Rightarrow> uint"
  outs :: "out_event list"
  lapic :: uint
  uart :: bool
  shift :: uint
  crt :: "nat \<Rightarrow> ushort"

section \<open>The instructions\<close>

definition inb :: "ushort \<Rightarrow> ('z io_state_scheme, byte) kfun" where
  "inb port = (\<lambda>s. Ret (in_port s port 0) (s\<lparr>in_port := (in_port s)(port := \<lambda>n. in_port s port (Suc n))\<rparr>))"

definition outb :: "ushort \<Rightarrow> byte \<Rightarrow> ('z io_state_scheme, unit) kfun" where
  "outb port data = modify (\<lambda>s. s\<lparr>outs := outs s @ [Outb port data]\<rparr>)"

text \<open>\<open>insl\<close> returns the \<open>cnt\<close> words it stores at \<open>addr\<close>, \<open>outsl\<close> is given the words at \<open>addr\<close>.\<close>

fun insl :: "ushort \<Rightarrow> nat \<Rightarrow> ('z io_state_scheme, uint list) kfun" where
  "insl port 0 = ret []"
| "insl port (Suc cnt) = (\<lambda>s.
     mbind (insl port cnt) (\<lambda>ws. ret (in_word s port 0 # ws))
       (s\<lparr>in_word := (in_word s)(port := \<lambda>n. in_word s port (Suc n))\<rparr>))"

definition outsl :: "ushort \<Rightarrow> uint list \<Rightarrow> ('z io_state_scheme, unit) kfun" where
  "outsl port ws = modify (\<lambda>s. s\<lparr>outs := outs s @ map (Outl port) ws\<rparr>)"

text \<open>A read and a write of a memory-mapped register.\<close>

definition mmio_read :: "uint \<Rightarrow> ('z io_state_scheme, uint) kfun" where
  "mmio_read a = (\<lambda>s. Ret (in_mmio s a 0) (s\<lparr>in_mmio := (in_mmio s)(a := \<lambda>n. in_mmio s a (Suc n))\<rparr>))"

definition mmio_write :: "uint \<Rightarrow> uint \<Rightarrow> ('z io_state_scheme, unit) kfun" where
  "mmio_write a v = modify (\<lambda>s. s\<lparr>outs := outs s @ [Mmio a v]\<rparr>)"

section \<open>Busy waiting\<close>

text \<open>
  A loop that reads a device until it is ready. It may never end, so it has a bound on the number of
  turns, and running out of it is the outcome \<open>OutOfFuel\<close>.
\<close>

fun poll :: "nat \<Rightarrow> ('s, bool) kfun \<Rightarrow> ('s, unit) kfun" where
  "poll 0 ready = stuck"
| "poll (Suc k) ready = mbind ready (\<lambda>b. if b then ret () else poll k ready)"

lemma insl_words:
  "insl port n s = Ret (map (in_word s port) [0..<n]) (s\<lparr>in_word := (in_word s)(port := \<lambda>k. in_word s port (n + k))\<rparr>)"
proof (induction n arbitrary: s)
  case (Suc n)
  have "[0..<Suc n] = 0 # map Suc [0..<n]" by (metis map_Suc_upt upt_conv_Cons zero_less_Suc)
  moreover have "(in_word s)(port := \<lambda>n. in_word s port (Suc n), port := \<lambda>k. in_word s port (Suc (n + k))) =
      (in_word s)(port := \<lambda>k. in_word s port (Suc (n + k)))"
    by (rule fun_upd_upd)
  ultimately show ?case by (simp add: Suc o_def fun_upd_same del: upt_Suc fun_upd_apply)
qed simp

section \<open>An example\<close>

text \<open>Devices that always answer 0.\<close>

definition ex_io :: io_state where
  "ex_io = \<lparr>in_port = (\<lambda>_ _. 0), in_word = (\<lambda>_ _. 0), in_mmio = (\<lambda>_ _. 0), outs = [], lapic = 0, uart = False,
     shift = 0, crt = (\<lambda>_. 0)\<rparr>"

end
