(* ===== verification/Inode.thy ===== *)
theory Inode
  imports Log Ports
begin

text \<open>
  Model of the lower half of \<open>fs.c\<close>: block allocation on the disk's free map, the inode cache, and the
  block map of a file. A \<open>struct inode *\<close> is an index into \<open>inodes\<close>; the sleep lock in inode \<open>i\<close> is \<open>InodeSl i\<close>.
  The 16-bit fields are words, read as signed numbers where the code compares them.

  \<open>devsw\<close> holds for each major device number the driver whose two functions the table has (\<open>None\<close>: null
  pointers); the console's are the only ones that are ever stored in it. \<open>io\<close> is the state of the devices.
\<close>

section \<open>State\<close>

record inode =
  idev :: uint
  inum :: uint
  iref :: int
  ivalid :: bool
  itype :: ushort
  imajor :: ushort
  iminor :: ushort
  inlink :: ushort
  isize :: uint
  iaddrs :: "uint list"

datatype devfn = Consoledev

record fs_state = log_state +
  sb :: superblock
  inodes :: "inode list"
  devsw :: "devfn option list"
  io :: io_state

abbreviation NDIRECT :: nat where "NDIRECT \<equiv> 12"
abbreviation NINDIRECT :: nat where "NINDIRECT \<equiv> 128"
abbreviation MAXFILE :: nat where "MAXFILE \<equiv> NDIRECT + NINDIRECT"
abbreviation T_DIR :: ushort where "T_DIR \<equiv> 1"
abbreviation T_FILE :: ushort where "T_FILE \<equiv> 2"
abbreviation T_DEV :: ushort where "T_DEV \<equiv> 3"
abbreviation ROOTDEV :: uint where "ROOTDEV \<equiv> 1"
abbreviation ROOTINO :: uint where "ROOTINO \<equiv> 1"
abbreviation NDEV :: nat where "NDEV \<equiv> 10"

definition geti :: "nat \<Rightarrow> ('z fs_state_scheme, inode) kfun" where
  "geti i = (\<lambda>s. if i < length (inodes s) then Ret (inodes s ! i) s else Stop (Undef ''inode pointer''))"

definition updi :: "nat \<Rightarrow> (inode \<Rightarrow> inode) \<Rightarrow> ('z fs_state_scheme, unit) kfun" where
  "updi i f = modify (\<lambda>s. s\<lparr>inodes := upd_at i f (inodes s)\<rparr>)"

text \<open>A driver routine run on the device part of the state.\<close>

definition lift_io :: "(io_state, 'a) kfun \<Rightarrow> ('z fs_state_scheme, 'a) kfun" where
  "lift_io m = (\<lambda>s. case m (io s) of
       Ret x t \<Rightarrow> Ret x (s\<lparr>io := t\<rparr>)
     | Swtch t \<Rightarrow> Swtch (s\<lparr>io := t\<rparr>)
     | Spin lk t \<Rightarrow> Spin lk (s\<lparr>io := t\<rparr>)
     | Stop e \<Rightarrow> Stop e)"

section \<open>Block allocation\<close>

definition IPB :: nat where "IPB = 8"

definition IBLOCK :: "uint \<Rightarrow> superblock \<Rightarrow> uint" where
  "IBLOCK i s = i div 8 + inodestart s"

definition BPB :: nat where "BPB = 4096"

definition BBLOCK :: "uint \<Rightarrow> superblock \<Rightarrow> uint" where
  "BBLOCK b s = b div 4096 + bmapstart s"

definition bzero :: "uint \<Rightarrow> uint \<Rightarrow> ('z fs_state_scheme, unit) kfun" where
  "bzero dev bno =
     mbind (bread dev bno) (\<lambda>bp.
     mbind (updb bp (\<lambda>x. x\<lparr>bdata := replicate BSIZE 0\<rparr>)) (\<lambda>_.
     mbind (log_write bp) (\<lambda>_.
     brelse bp)))"

text \<open>Bit \<open>bi\<close> of a block of the free map.\<close>

definition bit_of :: "block \<Rightarrow> nat \<Rightarrow> bool" where
  "bit_of d bi \<longleftrightarrow> d ! (bi div 8) AND push_bit (bi mod 8) 1 \<noteq> 0"

definition set_bit_of :: "nat \<Rightarrow> block \<Rightarrow> block" where
  "set_bit_of bi d = d[bi div 8 := d ! (bi div 8) OR push_bit (bi mod 8) 1]"

definition clear_bit_of :: "nat \<Rightarrow> block \<Rightarrow> block" where
  "clear_bit_of bi d = d[bi div 8 := d ! (bi div 8) AND NOT (push_bit (bi mod 8) 1)]"

text \<open>
  The inner loop of \<open>balloc\<close>: the first clear bit among the first \<open>n\<close> of the block. \<open>balloc_loop\<close> is the outer
  loop over the blocks of the map, from the block for disk block \<open>b\<close>; it advances by \<open>BPB\<close>.
\<close>

definition balloc_scan :: "block \<Rightarrow> nat \<Rightarrow> nat option" where
  "balloc_scan d n = find_idx (\<lambda>bi. \<not> bit_of d bi) [0..<n]"

function balloc_loop :: "uint \<Rightarrow> nat \<Rightarrow> ('z fs_state_scheme, uint) kfun" where
  "balloc_loop dev b = (\<lambda>s.
     if b < unat (sb_size (sb s)) then
       mbind (bread dev (BBLOCK (of_nat b) (sb s))) (\<lambda>bp.
       mbind (getb bp) (\<lambda>x.
       case balloc_scan (bdata x) (min BPB (unat (sb_size (sb s)) - b)) of
         Some bi \<Rightarrow>
           mbind (updb bp (\<lambda>x. x\<lparr>bdata := set_bit_of bi (bdata x)\<rparr>)) (\<lambda>_.
           mbind (log_write bp) (\<lambda>_.
           mbind (brelse bp) (\<lambda>_.
           mbind (bzero dev (of_nat (b + bi))) (\<lambda>_.
           ret (of_nat (b + bi))))))
       | None \<Rightarrow>
           mbind (brelse bp) (\<lambda>_.
           if b + BPB < 2 ^ 31 then balloc_loop dev (b + BPB) else undef ''int overflow''))) s
     else Stop (Panic ''balloc: out of blocks''))"
  by pat_completeness auto
termination
  by (relation "measure (\<lambda>(_, b). 2 ^ 31 + BPB - b)") (auto simp: BPB_def)

declare balloc_loop.simps [simp del]

definition balloc :: "uint \<Rightarrow> ('z fs_state_scheme, uint) kfun" where
  "balloc dev = balloc_loop dev 0"

definition bfree :: "uint \<Rightarrow> uint \<Rightarrow> ('z fs_state_scheme, unit) kfun" where
  "bfree dev b =
     mbind (gets sb) (\<lambda>s.
     mbind (bread dev (BBLOCK b s)) (\<lambda>bp.
     let bi = unat b mod BPB in
     mbind (getb bp) (\<lambda>x.
     if \<not> bit_of (bdata x) bi then panic ''freeing free block'' else
     mbind (updb bp (\<lambda>x. x\<lparr>bdata := clear_bit_of bi (bdata x)\<rparr>)) (\<lambda>_.
     mbind (log_write bp) (\<lambda>_.
     brelse bp)))))"

section \<open>Inodes on the disk\<close>

definition iinit :: "int \<Rightarrow> ('z fs_state_scheme, unit) kfun" where
  "iinit dev =
     mbind (initlock IcacheLk ''icache'') (\<lambda>_.
     mbind (gets (\<lambda>s. length (inodes s))) (\<lambda>n.
     mbind (mforeach [0..<n] (\<lambda>i. initsleeplock (InodeSl i) ''inode'')) (\<lambda>_.
     mbind (readsb dev) (\<lambda>b.
     mbind (modify (\<lambda>s. s\<lparr>sb := b\<rparr>)) (\<lambda>_.
     cprintf ''sb: size %d nblocks %d ninodes %d nlog %d logstart %d inodestart %d bmap start %d''
       (map (\<lambda>w. Num (sint w)) [sb_size b, nblocks b, ninodes b, nlog b, logstart b, inodestart b, bmapstart b]))))))"

text \<open>
  \<open>struct dinode\<close> has 64 bytes: four 16-bit fields, the size and 13 block addresses. \<open>din_put\<close> stores the
  fields of an inode in slot \<open>k\<close> of a block of inodes, \<open>din_get\<close> loads them.
\<close>

definition din_put :: "nat \<Rightarrow> inode \<Rightarrow> block \<Rightarrow> block" where
  "din_put k i d =
     put32s (64 * k + 12) (iaddrs i)
      (put32 (64 * k + 8) (isize i)
      (put16 (64 * k + 6) (inlink i)
      (put16 (64 * k + 4) (iminor i)
      (put16 (64 * k + 2) (imajor i)
      (put16 (64 * k) (itype i) d)))))"

definition din_get :: "nat \<Rightarrow> block \<Rightarrow> inode \<Rightarrow> inode" where
  "din_get k d i = i\<lparr>itype := get16 d (64 * k), imajor := get16 d (64 * k + 2), iminor := get16 d (64 * k + 4),
     inlink := get16 d (64 * k + 6), isize := get32 d (64 * k + 8), iaddrs := get32s (64 * k + 12) (NDIRECT + 1) d\<rparr>"

text \<open>\<open>iget\<close>: the table is searched once; the first free slot seen on the way is remembered.\<close>

definition iget :: "uint \<Rightarrow> uint \<Rightarrow> ('z fs_state_scheme, nat) kfun" where
  "iget dev n =
     mbind (acquire IcacheLk) (\<lambda>_.
     mbind (gets (\<lambda>s. find_idx (\<lambda>i. iref i > 0 \<and> idev i = dev \<and> inum i = n) (inodes s))) (\<lambda>r. case r of
       Some i \<Rightarrow>
         mbind (updi i (\<lambda>x. x\<lparr>iref := iref x + 1\<rparr>)) (\<lambda>_.
         mbind (release IcacheLk) (\<lambda>_.
         ret i))
     | None \<Rightarrow>
         mbind (gets (\<lambda>s. find_idx (\<lambda>i. iref i = 0) (inodes s))) (\<lambda>r. case r of
           None \<Rightarrow> panic ''iget: no inodes''
         | Some i \<Rightarrow>
             mbind (updi i (\<lambda>x. x\<lparr>idev := dev, inum := n, iref := 1, ivalid := False\<rparr>)) (\<lambda>_.
             mbind (release IcacheLk) (\<lambda>_.
             ret i)))))"

fun ialloc_loop :: "uint \<Rightarrow> ushort \<Rightarrow> nat list \<Rightarrow> ('z fs_state_scheme, nat) kfun" where
  "ialloc_loop dev type [] = panic ''ialloc: no inodes''"
| "ialloc_loop dev type (n # ns) =
     mbind (gets sb) (\<lambda>s.
     mbind (bread dev (IBLOCK (of_nat n) s)) (\<lambda>bp.
     mbind (getb bp) (\<lambda>x.
     if get16 (bdata x) (64 * (n mod IPB)) = 0 then
       mbind (updb bp (\<lambda>x. x\<lparr>bdata := put16 (64 * (n mod IPB)) type
                (splice_at (64 * (n mod IPB)) (replicate 64 0) (bdata x))\<rparr>)) (\<lambda>_.
       mbind (log_write bp) (\<lambda>_.
       mbind (brelse bp) (\<lambda>_.
       iget dev (of_nat n))))
     else
       mbind (brelse bp) (\<lambda>_. ialloc_loop dev type ns))))"

definition ialloc :: "uint \<Rightarrow> ushort \<Rightarrow> ('z fs_state_scheme, nat) kfun" where
  "ialloc dev type = mbind (gets (\<lambda>s. unat (ninodes (sb s)))) (\<lambda>n. ialloc_loop dev type [1..<n])"

definition iupdate :: "nat \<Rightarrow> ('z fs_state_scheme, unit) kfun" where
  "iupdate ip =
     mbind (geti ip) (\<lambda>i.
     mbind (gets sb) (\<lambda>s.
     mbind (bread (idev i) (IBLOCK (inum i) s)) (\<lambda>bp.
     mbind (updb bp (\<lambda>x. x\<lparr>bdata := din_put (unat (inum i) mod IPB) i (bdata x)\<rparr>)) (\<lambda>_.
     mbind (log_write bp) (\<lambda>_.
     brelse bp)))))"

section \<open>Inodes in memory\<close>

definition idup :: "nat \<Rightarrow> ('z fs_state_scheme, nat) kfun" where
  "idup ip =
     mbind (acquire IcacheLk) (\<lambda>_.
     mbind (geti ip) (\<lambda>_.
     mbind (updi ip (\<lambda>x. x\<lparr>iref := iref x + 1\<rparr>)) (\<lambda>_.
     mbind (release IcacheLk) (\<lambda>_.
     ret ip))))"

definition ilock :: "nat \<Rightarrow> ('z fs_state_scheme, unit) kfun" where
  "ilock ip =
     mbind (geti ip) (\<lambda>i.
     if iref i < 1 then panic ''ilock'' else
     mbind (acquiresleep (InodeSl ip)) (\<lambda>_.
     mbind (geti ip) (\<lambda>i.
     if ivalid i then ret () else
     mbind (gets sb) (\<lambda>s.
     mbind (bread (idev i) (IBLOCK (inum i) s)) (\<lambda>bp.
     mbind (getb bp) (\<lambda>x.
     mbind (updi ip (din_get (unat (inum i) mod IPB) (bdata x))) (\<lambda>_.
     mbind (brelse bp) (\<lambda>_.
     mbind (updi ip (\<lambda>x. x\<lparr>ivalid := True\<rparr>)) (\<lambda>_.
     mbind (geti ip) (\<lambda>i.
     if itype i = 0 then panic ''ilock: no type'' else ret ()))))))))))"

definition iunlock :: "nat \<Rightarrow> ('z fs_state_scheme, unit) kfun" where
  "iunlock ip =
     mbind (holdingsleep (InodeSl ip)) (\<lambda>h.
     mbind (geti ip) (\<lambda>i.
     if \<not> h \<or> iref i < 1 then panic ''iunlock'' else
     releasesleep (InodeSl ip)))"

section \<open>The blocks of a file\<close>

definition addr_get :: "nat \<Rightarrow> nat \<Rightarrow> ('z fs_state_scheme, uint) kfun" where
  "addr_get ip k = mbind (geti ip) (\<lambda>i. if k < length (iaddrs i) then ret (iaddrs i ! k) else undef ''addrs index'')"

definition addr_set :: "nat \<Rightarrow> nat \<Rightarrow> uint \<Rightarrow> ('z fs_state_scheme, unit) kfun" where
  "addr_set ip k v = updi ip (\<lambda>x. x\<lparr>iaddrs := (iaddrs x)[k := v]\<rparr>)"

text \<open>\<open>if((addr = ip->addrs[k]) == 0) ip->addrs[k] = addr = balloc(ip->dev)\<close>.\<close>

definition addr_alloc :: "nat \<Rightarrow> nat \<Rightarrow> ('z fs_state_scheme, uint) kfun" where
  "addr_alloc ip k =
     mbind (addr_get ip k) (\<lambda>addr.
     if addr \<noteq> 0 then ret addr else
     mbind (geti ip) (\<lambda>i.
     mbind (balloc (idev i)) (\<lambda>addr.
     mbind (addr_set ip k addr) (\<lambda>_.
     ret addr))))"

definition bmap :: "nat \<Rightarrow> uint \<Rightarrow> ('z fs_state_scheme, uint) kfun" where
  "bmap ip bn =
     (if unat bn < NDIRECT then addr_alloc ip (unat bn) else
      let bn = unat bn - NDIRECT in
      if bn < NINDIRECT then
        mbind (addr_alloc ip NDIRECT) (\<lambda>addr.
        mbind (geti ip) (\<lambda>i.
        mbind (bread (idev i) addr) (\<lambda>bp.
        mbind (getb bp) (\<lambda>x.
        let addr = get32 (bdata x) (4 * bn) in
        mbind (if addr \<noteq> 0 then ret addr else
               mbind (balloc (idev i)) (\<lambda>addr.
               mbind (updb bp (\<lambda>x. x\<lparr>bdata := put32 (4 * bn) addr (bdata x)\<rparr>)) (\<lambda>_.
               mbind (log_write bp) (\<lambda>_.
               ret addr)))) (\<lambda>addr.
        mbind (brelse bp) (\<lambda>_.
        ret addr))))))
      else panic ''bmap: out of range'')"

definition itrunc :: "nat \<Rightarrow> ('z fs_state_scheme, unit) kfun" where
  "itrunc ip =
     mbind (mforeach [0..<NDIRECT] (\<lambda>k.
       mbind (geti ip) (\<lambda>i.
       mbind (addr_get ip k) (\<lambda>a.
       if a \<noteq> 0 then mbind (bfree (idev i) a) (\<lambda>_. addr_set ip k 0) else ret ())))) (\<lambda>_.
     mbind (geti ip) (\<lambda>i.
     mbind (addr_get ip NDIRECT) (\<lambda>ind.
     mbind (if ind \<noteq> 0 then
         mbind (bread (idev i) ind) (\<lambda>bp.
         mbind (mforeach [0..<NINDIRECT] (\<lambda>j.
           mbind (getb bp) (\<lambda>x.
           let a = get32 (bdata x) (4 * j) in
           if a \<noteq> 0 then bfree (idev i) a else ret ()))) (\<lambda>_.
         mbind (brelse bp) (\<lambda>_.
         mbind (bfree (idev i) ind) (\<lambda>_.
         addr_set ip NDIRECT 0))))
       else ret ()) (\<lambda>_.
     mbind (updi ip (\<lambda>x. x\<lparr>isize := 0\<rparr>)) (\<lambda>_.
     iupdate ip)))))"

definition iput :: "nat \<Rightarrow> ('z fs_state_scheme, unit) kfun" where
  "iput ip =
     mbind (acquiresleep (InodeSl ip)) (\<lambda>_.
     mbind (geti ip) (\<lambda>i.
     mbind (if ivalid i \<and> inlink i = 0 then
         mbind (acquire IcacheLk) (\<lambda>_.
         mbind (geti ip) (\<lambda>i.
         let r = iref i in
         mbind (release IcacheLk) (\<lambda>_.
         if r = 1 then
           mbind (itrunc ip) (\<lambda>_.
           mbind (updi ip (\<lambda>x. x\<lparr>itype := 0\<rparr>)) (\<lambda>_.
           mbind (iupdate ip) (\<lambda>_.
           updi ip (\<lambda>x. x\<lparr>ivalid := False\<rparr>))))
         else ret ())))
       else ret ()) (\<lambda>_.
     mbind (releasesleep (InodeSl ip)) (\<lambda>_.
     mbind (acquire IcacheLk) (\<lambda>_.
     mbind (updi ip (\<lambda>x. x\<lparr>iref := iref x - 1\<rparr>)) (\<lambda>_.
     release IcacheLk))))))"

definition iunlockput :: "nat \<Rightarrow> ('z fs_state_scheme, unit) kfun" where
  "iunlockput ip = mbind (iunlock ip) (\<lambda>_. iput ip)"

text \<open>\<open>stati\<close> stores the structure at the user address \<open>st\<close>; its fields are at offsets 0, 4, 8, 12 and 16.\<close>

definition ustore16 :: "uint \<Rightarrow> ushort \<Rightarrow> ('z kmem_state_scheme, unit) kfun" where
  "ustore16 va v = mbind (ustore8 va (ucast v)) (\<lambda>_. ustore8 (va + 1) (ucast (drop_bit 8 v)))"

definition stati :: "nat \<Rightarrow> uint \<Rightarrow> ('z fs_state_scheme, unit) kfun" where
  "stati ip st =
     mbind (geti ip) (\<lambda>i.
     mbind (ustore32 (st + 4) (idev i)) (\<lambda>_.
     mbind (ustore32 (st + 8) (inum i)) (\<lambda>_.
     mbind (ustore16 st (itype i)) (\<lambda>_.
     mbind (ustore16 (st + 12) (inlink i)) (\<lambda>_.
     ustore32 (st + 16) (isize i))))))"

section \<open>Facts for an undisturbed process\<close>

lemma quiet_fs [simp]: "quiet p (s\<lparr>sb := x\<rparr>) = quiet p s" "quiet p (s\<lparr>inodes := y\<rparr>) = quiet p s"
  "quiet p (s\<lparr>devsw := d\<rparr>) = quiet p s" "quiet p (s\<lparr>io := o'\<rparr>) = quiet p s"
  by (simp_all add: quiet_def)

definition ex_fs :: fs_state where
  "ex_fs = log_state.extend (ex_log\<lparr>committing := False\<rparr>)
     \<lparr>sb = \<lparr>sb_size = 5, nblocks = 1, ninodes = 8, nlog = 2, logstart = 2, inodestart = 3, bmapstart = 4\<rparr>,
      inodes = [], devsw = [], io = ex_io\<rparr>"

lemma ex_fs_quiet: "quiet 0 ex_fs"
  using ex_log_quiet by (simp add: quiet_def ex_fs_def log_state.defs)

section \<open>The format of inodes on the disk\<close>

lemma slice_put32s:
  "a + 4 * length vs \<le> length d \<Longrightarrow> b + n \<le> length d \<Longrightarrow> b + n \<le> a \<or> a + 4 * length vs \<le> b \<Longrightarrow>
     slice b n (put32s a vs d) = slice b n d"
  by (induction vs arbitrary: a d) (auto simp: slice_put)

lemma slice_din_put:
  assumes "64 * k + 64 \<le> length d" "length (iaddrs i) = NDIRECT + 1" "b + n \<le> length d" "b + n \<le> 64 * k \<or> 64 * k + 64 \<le> b"
  shows "slice b n (din_put k i d) = slice b n d"
  using assms(4)
proof
  assume "b + n \<le> 64 * k"
  then show ?thesis using assms(1-3) by (simp add: din_put_def slice_put slice_put32s)
next
  assume "64 * k + 64 \<le> b"
  then show ?thesis using assms(1-3) by (simp add: din_put_def slice_put slice_put32s)
qed

text \<open>
  C31: inodes survive the way to the disk and back. What \<open>iupdate\<close> stores for an inode in its slot of a block
  of inodes is what \<open>ilock\<close> loads, all five fields and the thirteen block addresses; and the seven other inodes
  of the block stay as they are.
\<close>

theorem dinode_roundtrip:
  assumes "length d = BSIZE" "k < IPB" "length (iaddrs i) = NDIRECT + 1"
  shows "din_get k (din_put k i d) j = j\<lparr>itype := itype i, imajor := imajor i, iminor := iminor i, inlink := inlink i,
      isize := isize i, iaddrs := iaddrs i\<rparr> \<and>
    (\<forall>k' < IPB. k' \<noteq> k \<longrightarrow> din_get k' (din_put k i d) j = din_get k' d j)"
proof (intro conjI allI impI)
  have k: "64 * k + 64 \<le> BSIZE" using assms(2) by (simp add: IPB_def)
  have a: "get32s (64 * k + 12) (NDIRECT + 1) (put32s (64 * k + 12) (iaddrs i) e) = iaddrs i" if "length e = BSIZE" for e
    using get32s_put32s [of "64 * k + 12" "iaddrs i" e] that k assms(3) by simp
  show "din_get k (din_put k i d) j = j\<lparr>itype := itype i, imajor := imajor i, iminor := iminor i, inlink := inlink i,
      isize := isize i, iaddrs := iaddrs i\<rparr>"
    using assms(1,3) k a
    by (simp add: din_get_def din_put_def get16_def get32_def slice_put32s) (simp add: slice_put get32_def [symmetric] get16_def [symmetric])
next
  fix k' assume k': "k' < IPB" "k' \<noteq> k"
  have s: "slice b n (din_put k i d) = slice b n d" if "64 * k' \<le> b" "b + n \<le> 64 * k' + 64" for b n
    by (rule slice_din_put) (use that k' assms in \<open>auto simp: IPB_def\<close>)
  have "get32s (64 * k' + 12) (NDIRECT + 1) (din_put k i d) = get32s (64 * k' + 12) (NDIRECT + 1) d"
    by (rule nth_equalityI) (use s in \<open>auto simp: get32s_def get32_def\<close>)
  then show "din_get k' (din_put k i d) j = din_get k' d j"
    using s by (simp add: din_get_def get16_def get32_def)
qed

theorem dinode_roundtrip_witness:
  "let i = \<lparr>idev = 1, inum = 3, iref = 1, ivalid = True, itype = T_FILE, imajor = 0, iminor = 0, inlink = 1, isize = 700,
       iaddrs = [59, 60] @ replicate 11 0\<rparr> in
   din_get 3 (din_put 3 i (replicate BSIZE 0)) i = i"
proof -
  let ?i = "\<lparr>idev = 1, inum = 3, iref = 1, ivalid = True, itype = T_FILE, imajor = 0, iminor = 0, inlink = 1, isize = 700,
       iaddrs = [59, 60] @ replicate 11 0\<rparr>"
  have "length (replicate BSIZE (0 :: byte)) = BSIZE" "3 < IPB" "length (iaddrs ?i) = NDIRECT + 1" by (simp_all add: IPB_def)
  from dinode_roundtrip [OF this, of ?i] show ?thesis by (simp add: Let_def)
qed

section \<open>The inode cache\<close>

text \<open>No two slots in use hold the same inode, and reference counts are not negative.\<close>

definition icache_inv :: "inode list \<Rightarrow> bool" where
  "icache_inv is \<longleftrightarrow> (\<forall>i < length is. 0 \<le> iref (is ! i)) \<and>
     (\<forall>i < length is. \<forall>j < length is. iref (is ! i) > 0 \<longrightarrow> iref (is ! j) > 0 \<longrightarrow>
        idev (is ! i) = idev (is ! j) \<longrightarrow> inum (is ! i) = inum (is ! j) \<longrightarrow> i = j)"

definition holds_inode :: "uint \<Rightarrow> uint \<Rightarrow> inode \<Rightarrow> bool" where
  "holds_inode dev n x \<longleftrightarrow> iref x > 0 \<and> idev x = dev \<and> inum x = n"

lemma icache_inv_once:
  "icache_inv is \<Longrightarrow> i < length is \<Longrightarrow> j < length is \<Longrightarrow> iref (is ! i) > 0 \<Longrightarrow> iref (is ! j) > 0 \<Longrightarrow>
     idev (is ! i) = idev (is ! j) \<Longrightarrow> inum (is ! i) = inum (is ! j) \<Longrightarrow> i = j"
  unfolding icache_inv_def by blast

lemma icache_inv_ref:
  assumes "icache_inv is" "0 < iref (is ! i) + d" "0 < iref (is ! i)"
  shows "icache_inv (upd_at i (\<lambda>x. x\<lparr>iref := iref x + d\<rparr>) is)"
  using assms by (auto simp: icache_inv_def nth_upd_at)

lemma icache_inv_new:
  assumes "icache_inv is" "find_idx (holds_inode dev n) is = None" "iref (is ! i) = 0"
  shows "icache_inv (upd_at i (\<lambda>x. x\<lparr>idev := dev, inum := n, iref := 1, ivalid := False\<rparr>) is)"
proof -
  have "\<not> holds_inode dev n (is ! j)" if "j < length is" for j
    using assms(2) that nth_mem by (auto simp: find_idx_None)
  then show ?thesis using assms(1,3) by (auto simp: icache_inv_def nth_upd_at holds_inode_def)
qed

lemma updi_inlock: "updi i f (inlock lk s) = Ret () (inlock lk (s\<lparr>inodes := upd_at i f (inodes s)\<rparr>))"
  by (simp add: updi_def inlock_def)

lemma inodes_inlock [simp]: "inodes (inlock lk s) = inodes s"
  by (simp add: inlock_def)

lemma iget_eq:
  assumes q: "quiet p s"
  shows "iget dev n s =
    (let put = (\<lambda>i f. let u = s\<lparr>inodes := upd_at i f (inodes s)\<rparr> in Ret i (u\<lparr>cpus := crit u\<rparr>)) in
     case find_idx (holds_inode dev n) (inodes s) of
       Some i \<Rightarrow> put i (\<lambda>x. x\<lparr>iref := iref x + 1\<rparr>)
     | None \<Rightarrow> (case find_idx (\<lambda>i. iref i = 0) (inodes s) of
         None \<Rightarrow> Stop (Panic ''iget: no inodes'')
       | Some i \<Rightarrow> put i (\<lambda>x. x\<lparr>idev := dev, inum := n, iref := 1, ivalid := False\<rparr>)))"
proof -
  have "(\<lambda>i. iref i > 0 \<and> idev i = dev \<and> inum i = n) = holds_inode dev n" by (auto simp: holds_inode_def)
  then show ?thesis
    using q by (simp add: iget_def acquire_quiet [OF q] updi_inlock release_quiet [where p = p] Let_def split: option.split)
qed

lemma iget_result:
  assumes "quiet p s" "i < length (inodes s)"
    "iget dev n s = (let u = s\<lparr>inodes := upd_at i f (inodes s)\<rparr> in Ret i (u\<lparr>cpus := crit u\<rparr>))"
    "icache_inv (upd_at i f (inodes s))" "holds_inode dev n (f (inodes s ! i))" "iref (f (inodes s ! i)) = iref (inodes s ! i) + 1"
    "\<And>j. j < length (inodes s) \<Longrightarrow> j \<noteq> i \<Longrightarrow> \<not> holds_inode dev n (inodes s ! j)"
  shows "\<exists>i t. iget dev n s = Ret i t \<and> quiet p t \<and> icache_inv (inodes t) \<and> length (inodes t) = length (inodes s) \<and>
    i < length (inodes s) \<and> holds_inode dev n (inodes t ! i) \<and> iref (inodes t ! i) = iref (inodes s ! i) + 1 \<and>
    (\<forall>j < length (inodes s). j \<noteq> i \<longrightarrow> inodes t ! j = inodes s ! j \<and> \<not> holds_inode dev n (inodes s ! j))"
  using assms quiet_crit [of p "s\<lparr>inodes := upd_at i f (inodes s)\<rparr>"]
  by (intro exI [of _ i] exI [of _ "s\<lparr>inodes := upd_at i f (inodes s), cpus := crit (s\<lparr>inodes := upd_at i f (inodes s)\<rparr>)\<rparr>"])
    (simp add: Let_def)

text \<open>
  C16: the inode cache holds each inode once. \<open>iget\<close> returns the slot that already holds the inode, with one more
  reference, or recycles a slot without references; other slots do not change. The invariant that no two slots
  in use hold the same inode is kept, so two callers that ask for one inode share the slot and its lock. Only
  when every slot is referenced and none holds the inode does it panic.
\<close>

theorem iget_unique:
  assumes "quiet p s" "icache_inv (inodes s)"
  shows "if (\<exists>x \<in> set (inodes s). holds_inode dev n x \<or> iref x = 0) then
      \<exists>i t. iget dev n s = Ret i t \<and> quiet p t \<and> icache_inv (inodes t) \<and> length (inodes t) = length (inodes s) \<and>
        i < length (inodes s) \<and> holds_inode dev n (inodes t ! i) \<and> iref (inodes t ! i) = iref (inodes s ! i) + 1 \<and>
        (\<forall>j < length (inodes s). j \<noteq> i \<longrightarrow> inodes t ! j = inodes s ! j \<and> \<not> holds_inode dev n (inodes s ! j))
    else iget dev n s = Stop (Panic ''iget: no inodes'')"
proof (cases "find_idx (holds_inode dev n) (inodes s)")
  case None
  then have no: "\<not> holds_inode dev n (inodes s ! j)" if "j < length (inodes s)" for j
    using that by (simp add: find_idx_None)
  show ?thesis
  proof (cases "find_idx (\<lambda>i. iref i = 0) (inodes s)")
    case None
    note f = \<open>find_idx (holds_inode dev n) (inodes s) = None\<close> None
    then have "iget dev n s = Stop (Panic ''iget: no inodes'')" by (simp add: iget_eq [OF assms(1)])
    moreover have "\<not> (\<exists>x \<in> set (inodes s). holds_inode dev n x \<or> iref x = 0)" using f by (simp add: find_idx_None)
    ultimately show ?thesis by simp
  next
    case (Some i)
    note i = find_idx_in_range [OF Some] find_idx_holds [OF Some]
    have ex: "\<exists>x \<in> set (inodes s). holds_inode dev n x \<or> iref x = 0" using i nth_mem by blast
    let ?f = "\<lambda>x :: inode. x\<lparr>idev := dev, inum := n, iref := 1, ivalid := False\<rparr>"
    have inv: "icache_inv (upd_at i ?f (inodes s))" by (rule icache_inv_new) (use assms(2) None i in auto)
    have e: "iget dev n s = (let u = s\<lparr>inodes := upd_at i ?f (inodes s)\<rparr> in Ret i (u\<lparr>cpus := crit u\<rparr>))"
      by (simp add: iget_eq [OF assms(1)] None Some)
    show ?thesis unfolding if_P [OF ex]
      by (rule iget_result [OF assms(1) i(1) e inv]) (use i(2) no in \<open>auto simp: holds_inode_def\<close>)
  qed
next
  case (Some i)
  note i = find_idx_in_range [OF Some] find_idx_holds [OF Some]
  have ex: "\<exists>x \<in> set (inodes s). holds_inode dev n x \<or> iref x = 0" using i nth_mem by blast
  let ?f = "\<lambda>x :: inode. x\<lparr>iref := iref x + 1\<rparr>"
  have inv: "icache_inv (upd_at i ?f (inodes s))" by (rule icache_inv_ref) (use assms(2) i in \<open>auto simp: holds_inode_def\<close>)
  have other: "\<not> holds_inode dev n (inodes s ! j)" if "j < length (inodes s)" "j \<noteq> i" for j
  proof
    assume "holds_inode dev n (inodes s ! j)"
    then have "i = j" using icache_inv_once [OF assms(2) i(1) that(1)] i(2) by (simp add: holds_inode_def)
    with that(2) show False by simp
  qed
  have e: "iget dev n s = (let u = s\<lparr>inodes := upd_at i ?f (inodes s)\<rparr> in Ret i (u\<lparr>cpus := crit u\<rparr>))"
    by (simp add: iget_eq [OF assms(1)] Some)
  show ?thesis unfolding if_P [OF ex]
    by (rule iget_result [OF assms(1) i(1) e inv]) (use i(2) other in \<open>auto simp: holds_inode_def\<close>)
qed

text \<open>A cache with a free slot and one that holds inode 1.\<close>

theorem iget_unique_witness:
  "let x = \<lparr>idev = 1, inum = 0, iref = 0, ivalid = False, itype = 0, imajor = 0, iminor = 0, inlink = 0, isize = 0, iaddrs = []\<rparr>;
       s = ex_fs\<lparr>inodes := [x, x\<lparr>inum := 1, iref := 1\<rparr>]\<rparr> in
   (\<exists>i t. iget 1 1 s = Ret i t \<and> holds_inode 1 1 (inodes t ! i) \<and> iref (inodes t ! i) = iref (inodes s ! i) + 1)"
proof -
  let ?x = "\<lparr>idev = 1, inum = 0, iref = 0, ivalid = False, itype = 0, imajor = 0, iminor = 0, inlink = 0, isize = 0, iaddrs = []\<rparr> :: inode"
  let ?s = "ex_fs\<lparr>inodes := [?x, ?x\<lparr>inum := 1, iref := 1\<rparr>]\<rparr>"
  have "quiet 0 ?s" using ex_fs_quiet by simp
  moreover have "icache_inv (inodes ?s)" by (auto simp: icache_inv_def less_Suc_eq)
  ultimately show ?thesis
    using iget_unique [of 0 ?s 1 1] by (auto simp: Let_def holds_inode_def)
qed

end
