(* ===== verification/Balloc.thy ===== *)
theory Balloc
  imports Inode
begin

text \<open>
  The file system inside a transaction: reading a block, changing one through the log, and what \<open>balloc\<close> does with the
  free map.
\<close>

section \<open>Transactions\<close>

text \<open>
  \<open>txn p s\<close>: process \<open>p\<close> is inside a transaction and holds no buffer; the blocks that are pinned in the cache are those
  the log will write. \<open>room s n\<close>: log and cache have room for \<open>n\<close> more blocks.
\<close>

definition txn :: "nat \<Rightarrow> 'z log_state_scheme \<Rightarrow> bool" where
  "txn p s \<longleftrightarrow> quiet p s \<and> cache_ok s \<and> log_wf s \<and> busy s = {} \<and> pinned s = set (homes s) \<and> 1 \<le> outstanding s"

definition room :: "'z log_state_scheme \<Rightarrow> nat \<Rightarrow> bool" where
  "room s n \<longleftrightarrow> length (homes s) + n \<le> LOGSIZE \<and> int (length (homes s) + n) < lg_size s \<and> length (homes s) + n < length (bufs s)"

definition on_disk :: "uint \<Rightarrow> 'z log_state_scheme \<Rightarrow> bool" where
  "on_disk bn s \<longleftrightarrow> unat bn < length (disk s) \<and> \<not> in_log s (unat bn)"

lemma txnD:
  assumes "txn p s"
  shows "quiet p s" "cache_ok s" "log_wf s" "busy s = {}" "pinned s = set (homes s)" "1 \<le> outstanding s"
  using assms by (simp_all add: txn_def)

lemma lstep_frame:
  assumes "lstep p s t"
  shows "sb t = sb s" "inodes t = inodes s" "mem t = mem s" "on_disk bn t = on_disk bn s"
proof -
  note e = bstepD(8) [OF assms [unfolded lstep_def]]
  show "sb t = sb s" "inodes t = inodes s" "mem t = mem s" by (subst e, simp)+
  show "on_disk bn t = on_disk bn s" using lstepD [OF assms] by (simp add: on_disk_def in_log_def)
qed

lemma lstep_refl: "txn p s \<Longrightarrow> lstep p s s"
  by (rule bstep_lstep [OF bstep_refl]) (simp_all add: txn_def)

lemma txn_room_card:
  assumes "txn p s" "room s 0"
  shows "bn \<in> pinned s \<or> card (busy s \<union> pinned s) < length (bufs s)"
  using assms card_length [of "homes s"] by (simp add: txn_def room_def)

lemma txn_bread:
  assumes s: "txn p s" "room s 0" and bn: "unat bn < length (disk s)"
  obtains b t where "bread 1 bn s = Ret b t" "getb b t = Ret (bufs t ! b) t" "bdata (bufs t ! b) = bview s bn"
    "bstep p s t" "hold p b bn t" "bview t = bview s" "busy t = {bn}" "pinned t = set (homes t)" "log_wf t" "disk t = disk s"
proof -
  note d = txnD [OF s(1)]
  obtain b t where t: "bread 1 bn s = Ret b t" "bstep p s t" "hold p b bn t" "bview t = bview s" "busy t = insert bn (busy s)"
    "pinned t = pinned s" "disk t = disk s"
    by (rule bread_ok [OF d(1,2) bn, of thesis]) (use d(4) txn_room_card [OF s] in auto)
  note h = hold_data [OF bstepD(2) [OF t(2)] t(3)]
  show thesis
    by (rule that [OF t(1) _ _ t(2,3,4)]) (use h t d bstep_wf [OF t(2)] in \<open>simp_all add: getb_def\<close>)
qed

lemma txn_read:
  assumes s: "txn p s" "room s 0" and bn: "unat bn < length (disk s)"
  obtains b t u where "bread 1 bn s = Ret b t" "getb b t = Ret (bufs t ! b) t" "bdata (bufs t ! b) = bview s bn"
    "brelse b t = Ret () u" "txn p u" "lstep p s u" "bview u = bview s" "homes u = homes s"
proof -
  obtain b t where t: "bread 1 bn s = Ret b t" "getb b t = Ret (bufs t ! b) t" "bdata (bufs t ! b) = bview s bn"
    "bstep p s t" "hold p b bn t" "bview t = bview s" "busy t = {bn}" "pinned t = set (homes t)" "log_wf t" "disk t = disk s"
    by (rule txn_bread [OF assms])
  note d = txnD [OF s(1)]
  have "bn \<in> pinned t \<or> bview t bn = disk t ! unat bn"
    using view_clean [OF d(2), of bn] d(4,5) t(6,8,10) bstep_wf(1) [OF t(4)] by auto
  then obtain u where u: "brelse b t = Ret () u" "bstep p t u" "bview u = bview t" "busy u = busy t - {bn}" "pinned u = pinned t"
    using brelse_ok [OF bstepD(1,2) [OF t(4)] t(5)] by metis
  have su: "bstep p s u" by (rule bstep_trans [OF t(4) u(2)])
  have "txn p u" using bstepD(1,2) [OF su] bstep_wf [OF su] bstep_wf [OF u(2)] bstep_log(3) [OF su] d t(7,8) u(4,5) by (simp add: txn_def)
  then show thesis using that t(1,2,3,6) u(1,3) bstep_lstep [OF su] bstep_wf(1) [OF su] by simp
qed

lemma txn_write:
  fixes f :: "block \<Rightarrow> block"
  assumes s: "txn p s" "room s (Suc n)" and bn: "on_disk bn s" and f: "length (f (bview s bn)) = BSIZE"
  obtains b t u v w where "bread 1 bn s = Ret b t" "getb b t = Ret (bufs t ! b) t" "bdata (bufs t ! b) = bview s bn"
    "updb b (\<lambda>x. x\<lparr>bdata := f (bdata x)\<rparr>) t = Ret () u" "log_write b u = Ret () v" "brelse b v = Ret () w"
    "txn p w" "lstep p s w" "room w n" "bview w = (bview s)(bn := f (bview s bn))"
proof -
  note d = txnD [OF s(1)]
  have r0: "room s 0" using s(2) by (simp add: room_def)
  obtain b t where t: "bread 1 bn s = Ret b t" "getb b t = Ret (bufs t ! b) t" "bdata (bufs t ! b) = bview s bn"
    "bstep p s t" "hold p b bn t" "bview t = bview s" "busy t = {bn}" "pinned t = set (homes t)" "log_wf t" "disk t = disk s"
    by (rule txn_bread [OF s(1) r0, of bn]) (use bn in \<open>simp add: on_disk_def\<close>)
  obtain u where u: "updb b (\<lambda>x. x\<lparr>bdata := f (bdata x)\<rparr>) t = Ret () u" "bstep p t u" "bview u = (bview t)(bn := f (bview t bn))"
    "busy u = busy t" "pinned u = pinned t" "hold p b bn u"
    by (rule bmod_ok [OF bstepD(1,2) [OF t(4)] t(5), where f = f]) (use f t(6) in simp, use t(5) in blast)
  have su: "bstep p s u" by (rule bstep_trans [OF t(4) u(2)])
  note wu = bstep_wf [OF su]
  have lh: "lh_n u = int (length (homes s))" using log_wfD(6,12) [OF d(3)] bstep_log(6) [OF su] by simp
  have c: "lh_n u < int LOGSIZE" "lh_n u < lg_size u - 1" "1 \<le> outstanding u"
    using s(2) lh bstep_log(2,3) [OF su] d(6) by (simp_all add: room_def)
  have lw: "log_wf u" "\<not> in_log u (unat bn)" using wu d(3) bn by (simp_all add: on_disk_def)
  obtain v where v: "log_write b u = Ret () v" "lstep p u v" "homes v = (if bn \<in> set (homes u) then homes u else homes u @ [bn])"
    "log_wf v" "bview v = bview u" "busy v = busy u" "pinned v = insert bn (pinned u)" "hold p b bn v"
    by (rule log_write_ok [OF bstepD(1,2) [OF su] u(6) lw(1) c]) (use lw(2) u(6) in blast)
  obtain w where w: "brelse b v = Ret () w" "bstep p v w" "bview w = bview v" "busy w = busy v - {bn}" "pinned w = pinned v"
    by (rule brelse_ok [OF lstepD(1,2) [OF v(2)] v(8)]) (use v(7) in simp, blast)
  have sw: "lstep p s w" by (rule lstep_trans [OF bstep_lstep [OF su] lstep_trans [OF v(2) bstep_lstep [OF w(2)]]])
  have hw: "homes w = (if bn \<in> set (homes s) then homes s else homes s @ [bn])" using bstep_wf(1) [OF w(2)] v(3) wu(1) by simp
  have tw: "txn p w"
    using lstepD(1,2,10) [OF sw] bstep_wf(4) [OF w(2)] v(4,6,7) u(4,5) t(7,8) w(4,5) hw bstep_wf(1) [OF t(4)] d(6)
    by (auto simp: txn_def)
  have "room w n" using s(2) hw lstepD(3,9) [OF sw] by (auto simp: room_def split: if_splits)
  moreover have "bview w = (bview s)(bn := f (bview s bn))" using w(3) v(5) u(3) t(6) by simp
  ultimately show thesis using that t(1,2,3) u(1) v(1) w(1) tw sw by blast
qed

section \<open>The bits of the free map\<close>

lemma and_one_bit: "w AND 2 ^ k \<noteq> 0 \<longleftrightarrow> bit w k" for w :: byte
proof
  assume "w AND 2 ^ k \<noteq> 0"
  then obtain n where "bit (w AND 2 ^ k) n" by (metis bit_eqI bit_0_eq bot_apply bot_bool_def)
  then show "bit w k" by (auto simp: bit_and_iff bit_exp_iff)
next
  assume b: "bit w k"
  then have "k < 8" using bit_imp_le_length [OF b] by simp
  then have "bit (w AND 2 ^ k) k" using b by (simp add: bit_and_iff bit_exp_iff)
  then show "w AND 2 ^ k \<noteq> 0" by auto
qed

lemma bit_of_bit: "bit_of d i \<longleftrightarrow> bit (d ! (i div 8)) (i mod 8)"
  by (simp add: bit_of_def and_one_bit)

lemma same_bit: "i div 8 = j div 8 \<Longrightarrow> i mod 8 = j mod 8 \<longleftrightarrow> i = (j :: nat)"
  by (metis div_mult_mod_eq)

lemma bit_of_set_bit:
  assumes "i < 8 * length d" "j < 8 * length d"
  shows "bit_of (set_bit_of i d) j \<longleftrightarrow> i = j \<or> bit_of d j" "bit_of (clear_bit_of i d) j \<longleftrightarrow> i \<noteq> j \<and> bit_of d j"
    "length (set_bit_of i d) = length d" "length (clear_bit_of i d) = length d"
proof -
  have l: "i div 8 < length d" using assms by auto
  have m: "j mod 8 < 8" by simp
  note s = same_bit [of i j]
  show "bit_of (set_bit_of i d) j \<longleftrightarrow> i = j \<or> bit_of d j"
    using l m s by (cases "i div 8 = j div 8") (auto simp: bit_of_bit set_bit_of_def bit_or_iff bit_exp_iff)
  show "bit_of (clear_bit_of i d) j \<longleftrightarrow> i \<noteq> j \<and> bit_of d j"
    using l m s by (cases "i div 8 = j div 8")
      (auto simp: bit_of_bit clear_bit_of_def bit_and_iff bit_not_iff bit_exp_iff)
qed (simp_all add: set_bit_of_def clear_bit_of_def)

lemma BBLOCK_nat: "b < 2 ^ 32 \<Longrightarrow> BBLOCK (of_nat b) s = of_nat (b div 4096) + bmapstart s"
proof -
  assume b: "b < 2 ^ 32"
  have "(of_nat b :: uint) div 4096 = of_nat (b div 4096)"
    using b by (simp add: word_unat_eq_iff unat_div unat_of_nat)
  then show ?thesis by (simp add: BBLOCK_def)
qed

section \<open>Allocation\<close>

definition fsize :: "'z fs_state_scheme \<Rightarrow> nat" where
  "fsize s = unat (sb_size (sb s))"

definition map_block :: "'z fs_state_scheme \<Rightarrow> nat \<Rightarrow> uint" where
  "map_block s b = BBLOCK (of_nat b) (sb s)"

definition used :: "'z fs_state_scheme \<Rightarrow> nat \<Rightarrow> bool" where
  "used s b \<longleftrightarrow> bit_of (bview s (map_block s b)) (b mod BPB)"

text \<open>
  The free map lies on the disk outside the log; so do the blocks it shows as free, none of which holds the map itself.
\<close>

definition map_ok :: "'z fs_state_scheme \<Rightarrow> bool" where
  "map_ok s \<longleftrightarrow> fsize s + BPB \<le> 2 ^ 31 \<and> (\<forall>b < fsize s. on_disk (map_block s b) s) \<and>
     (\<forall>b < fsize s. \<not> used s b \<longrightarrow> on_disk (of_nat b) s \<and> (\<forall>c < fsize s. map_block s c \<noteq> of_nat b))"

definition first_free :: "'z fs_state_scheme \<Rightarrow> nat option" where
  "first_free s = find_idx (\<lambda>b. \<not> used s b) [0..<fsize s]"

lemma find_idx_upt: "find_idx P [0..<n] = Some i \<longleftrightarrow> i < n \<and> P i \<and> (\<forall>j < i. \<not> P j)"
  by (auto simp: find_idx_Some)

lemma map_same:
  assumes "lstep p s t" "bview t = bview s"
  shows "fsize t = fsize s" "map_block t = map_block s" "used t = used s" "map_ok t = map_ok s" "first_free t = first_free s"
proof -
  show 1: "fsize t = fsize s" and 2: "map_block t = map_block s"
    using lstep_frame(1) [OF assms(1)] by (simp_all add: fsize_def map_block_def fun_eq_iff)
  show 3: "used t = used s" using assms(2) 2 by (simp add: used_def fun_eq_iff)
  show "map_ok t = map_ok s" using 1 2 3 lstep_frame(4) [OF assms(1)] by (simp add: map_ok_def)
  show "first_free t = first_free s" using 1 3 by (simp add: first_free_def)
qed

lemma map_block_eq: "map_ok s \<Longrightarrow> b < fsize s \<Longrightarrow> map_block s b = of_nat (b div 4096) + bmapstart (sb s)"
  by (simp add: map_block_def BBLOCK_nat map_ok_def BPB_def)

lemma scan_used:
  assumes m: "map_ok s" and b: "BPB dvd b" "b < fsize s"
  shows "balloc_scan (bview s (map_block s b)) (min BPB (fsize s - b)) = find_idx (\<lambda>i. \<not> used s (b + i)) [0..<min BPB (fsize s - b)]"
proof -
  have "bit_of (bview s (map_block s b)) i = used s (b + i)" if i: "i < BPB" "b + i < fsize s" for i
  proof -
    obtain c where c: "b = 4096 * c" using b(1) by (auto simp: BPB_def)
    then have "(b + i) mod BPB = i" "(b + i) div 4096 = b div 4096" using i(1) by (simp_all add: BPB_def)
    then show ?thesis using map_block_eq [OF m i(2)] map_block_eq [OF m b(2)] by (simp add: used_def)
  qed
  then show ?thesis unfolding balloc_scan_def by (intro find_idx_cong) auto
qed

lemma balloc_hit:
  assumes s: "txn p s" "room s 2" "map_ok s" and b: "BPB dvd b" "b < fsize s"
    and i: "balloc_scan (bview s (map_block s b)) (min BPB (fsize s - b)) = Some i"
  shows "\<exists>t. balloc_loop 1 b s = Ret (of_nat (b + i)) t \<and> txn p t \<and> lstep p s t \<and> room t 0 \<and>
    bview t = (bview s)(map_block s b := set_bit_of i (bview s (map_block s b)), of_nat (b + i) := replicate BSIZE 0)"
proof -
  have i': "i < BPB" "b + i < fsize s" "\<not> used s (b + i)"
    using i by (auto simp: scan_used [OF s(3) b] find_idx_upt)
  let ?m = "map_block s b"
  have od: "on_disk ?m s" "on_disk (of_nat (b + i)) s" using s(3) b(2) i' by (simp_all add: map_ok_def del: of_nat_add)
  have l: "length (bview s ?m) = BSIZE" using bview_length [OF txnD(2) [OF s(1)], of ?m] od(1) by (simp add: on_disk_def)
  have r: "room s (Suc 1)" using s(2) by (simp add: numeral_2_eq_2)
  obtain x t u v w where w: "bread 1 ?m s = Ret x t" "getb x t = Ret (bufs t ! x) t" "bdata (bufs t ! x) = bview s ?m"
    "updb x (\<lambda>y. y\<lparr>bdata := set_bit_of i (bdata y)\<rparr>) t = Ret () u" "log_write x u = Ret () v" "brelse x v = Ret () w"
    "txn p w" "lstep p s w" "room w 1" "bview w = (bview s)(?m := set_bit_of i (bview s ?m))"
    by (rule txn_write [OF s(1) r od(1), of "set_bit_of i"]) (use l in \<open>simp add: set_bit_of_def\<close>)
  have od2: "on_disk (of_nat (b + i)) w" using od(2) lstep_frame(4) [OF w(8)] by simp
  have r2: "room w (Suc 0)" using w(9) by simp
  obtain x' t' u' v' w' where w': "bread 1 (of_nat (b + i)) w = Ret x' t'" 
    "updb x' (\<lambda>y. y\<lparr>bdata := replicate BSIZE 0\<rparr>) t' = Ret () u'" "log_write x' u' = Ret () v'" "brelse x' v' = Ret () w'"
    "txn p w'" "lstep p w w'" "room w' 0" "bview w' = (bview w)(of_nat (b + i) := replicate BSIZE 0)"
    by (rule txn_write [OF w(7) r2 od2, of "\<lambda>_. replicate BSIZE 0"]) (simp, blast)
  have z: "bzero 1 (of_nat (b + i)) w = Ret () w'" using w'(1-4) by (simp add: bzero_def del: of_nat_add)
  have "balloc_loop 1 b s = Ret (of_nat (b + i)) w'"
    using w(1-6) z b(2) i by (subst balloc_loop.simps) (simp add: fsize_def map_block_def del: of_nat_add)
  moreover have "lstep p s w'" by (rule lstep_trans [OF w(8) w'(6)])
  ultimately show ?thesis using w'(5,7,8) w(10) by (intro exI [of _ w']) simp
qed

lemma scan_hit:
  assumes s: "map_ok s" "BPB dvd b" "b < fsize s" "\<forall>i < b. i < fsize s \<longrightarrow> used s i"
    and i: "balloc_scan (bview s (map_block s b)) (min BPB (fsize s - b)) = Some i"
  shows "first_free s = Some (b + i)" "map_block s (b + i) = map_block s b" "(b + i) mod BPB = i"
proof -
  have i: "i < BPB" "b + i < fsize s" "\<not> used s (b + i)" "\<forall>j < i. used s (b + j)"
    using i by (auto simp: scan_used [OF s(1-3)] find_idx_upt)
  have u: "used s j" if j: "j < b + i" for j
  proof (cases "j < b")
    case True
    then show ?thesis using s(4) j i(2) by simp
  next
    case False
    then have "j = b + (j - b)" "j - b < i" using j by auto
    then show ?thesis using i(4) by metis
  qed
  then show "first_free s = Some (b + i)" using i by (auto simp: first_free_def find_idx_upt)
  obtain c where c: "b = 4096 * c" using s(2) by (auto simp: BPB_def)
  then show "(b + i) mod BPB = i" using i(1) by (simp add: BPB_def)
  have "(b + i) div 4096 = b div 4096" using i(1) c by (simp add: BPB_def)
  then show "map_block s (b + i) = map_block s b"
    using map_block_eq [OF s(1) i(2)] map_block_eq [OF s(1,3)] by simp
qed

lemma scan_miss:
  assumes s: "map_ok s" "BPB dvd b" "b < fsize s" "\<forall>i < b. i < fsize s \<longrightarrow> used s i"
    and i: "balloc_scan (bview s (map_block s b)) (min BPB (fsize s - b)) = None"
  shows "\<forall>j < b + BPB. j < fsize s \<longrightarrow> used s j"
proof (intro allI impI)
  fix j assume j: "j < b + BPB" "j < fsize s"
  show "used s j"
  proof (cases "j < b")
    case True
    then show ?thesis using s(4) j by simp
  next
    case False
    then have "j - b \<in> set [0..<min BPB (fsize s - b)]" "b + (j - b) = j" using j s(3) by auto
    then show ?thesis using i [unfolded scan_used [OF s(1-3)] find_idx_None] by metis
  qed
qed

lemma balloc_miss:
  assumes s: "txn p s" "room s 2" "map_ok s" "b < fsize s"
    and i: "balloc_scan (bview s (map_block s b)) (min BPB (fsize s - b)) = None"
  obtains u where "balloc_loop 1 b s = balloc_loop 1 (b + BPB) u" "txn p u" "room u 2" "lstep p s u" "bview u = bview s"
proof -
  have m: "unat (map_block s b) < length (disk s)" using s(3,4) by (simp add: map_ok_def on_disk_def)
  have r0: "room s 0" using s(2) by (simp add: room_def)
  obtain x t u where u: "bread 1 (map_block s b) s = Ret x t" "getb x t = Ret (bufs t ! x) t" "bdata (bufs t ! x) = bview s (map_block s b)"
    "brelse x t = Ret () u" "txn p u" "lstep p s u" "bview u = bview s" "homes u = homes s"
    by (rule txn_read [OF s(1) r0 m])
  have ov: "b + BPB < 2 ^ 31" using s(3,4) by (simp add: map_ok_def)
  have e: "balloc_loop 1 b s = balloc_loop 1 (b + BPB) u"
    using u(1-4) i s(4) ov by (subst balloc_loop.simps) (simp add: fsize_def map_block_def)
  have "room u 2" using s(2) u(8) lstepD(3,9) [OF u(6)] by (simp add: room_def)
  then show thesis using that e u(5-7) by blast
qed

definition allocated :: "nat \<Rightarrow> 'z fs_state_scheme \<Rightarrow> nat \<Rightarrow> 'z fs_state_scheme \<Rightarrow> bool" where
  "allocated p s i t \<longleftrightarrow> txn p t \<and> lstep p s t \<and> room t 0 \<and>
     bview t = (bview s)(map_block s i := set_bit_of (i mod BPB) (bview s (map_block s i)), of_nat i := replicate BSIZE 0)"

lemma balloc_loop_eq:
  assumes "txn p s" "room s 2" "map_ok s" "BPB dvd b" "\<forall>i < b. i < fsize s \<longrightarrow> used s i"
  shows "case first_free s of
      None \<Rightarrow> balloc_loop 1 b s = Stop (Panic ''balloc: out of blocks'')
    | Some i \<Rightarrow> \<exists>t. balloc_loop 1 b s = Ret (of_nat i) t \<and> allocated p s i t"
  using assms
proof (induction "fsize s - b" arbitrary: b s rule: less_induct)
  case less
  note s = less.prems
  show ?case
  proof (cases "b < fsize s")
    case False
    then have "first_free s = None" using s(5) by (auto simp: first_free_def find_idx_None)
    then show ?thesis using False by (subst balloc_loop.simps) (simp add: fsize_def)
  next
    case True
    show ?thesis
    proof (cases "balloc_scan (bview s (map_block s b)) (min BPB (fsize s - b))")
      case (Some i)
      then show ?thesis using scan_hit [OF s(3,4) True s(5) Some] balloc_hit [OF s(1-4) True Some]
        by (simp add: allocated_def del: of_nat_add)
    next
      case None
      obtain u where u: "balloc_loop 1 b s = balloc_loop 1 (b + BPB) u" "txn p u" "room u 2" "lstep p s u" "bview u = bview s"
        by (rule balloc_miss [OF s(1-3) True None])
      note same = map_same [OF u(4,5)]
      have lt: "fsize u - (b + BPB) < fsize s - b" using True same(1) by (simp add: BPB_def)
      have al: "BPB dvd b + BPB" "\<forall>i < b + BPB. i < fsize u \<longrightarrow> used u i"
        using s(4) scan_miss [OF s(3,4) True s(5) None] same by simp_all
      have mu: "map_ok u" using s(3) same(4) by simp
      have "allocated p s i t" if "allocated p u i t" for i t
        using that lstep_trans [OF u(4)] u(5) same(2) by (simp add: allocated_def)
      then show ?thesis using less.hyps [OF lt u(2,3) mu al] u(1) same(5) by (auto split: option.splits)
    qed
  qed
qed

section \<open>The set of free blocks\<close>

definition free_blocks :: "'z fs_state_scheme \<Rightarrow> nat set" where
  "free_blocks s = {b. b < fsize s \<and> \<not> used s b}"

definition map_blocks :: "'z fs_state_scheme \<Rightarrow> uint set" where
  "map_blocks s = map_block s ` {..<fsize s}"

lemma map_block_inj:
  assumes "map_ok s" "i < fsize s" "j < fsize s" "map_block s i = map_block s j" "i mod BPB = j mod BPB"
  shows "i = j"
proof -
  have l: "i < 2 ^ 32" "j < 2 ^ 32" using assms(1-3) by (simp_all add: map_ok_def)
  have "(of_nat (i div 4096) :: uint) = of_nat (j div 4096)" using map_block_eq [OF assms(1,2)] map_block_eq [OF assms(1,3)] assms(4) by simp
  then have "i div 4096 = j div 4096" using l by (simp add: word_unat_eq_iff unat_of_nat)
  then show ?thesis using assms(5) by (metis BPB_def div_mult_mod_eq)
qed

lemma map_block_length:
  assumes "txn p s" "map_ok s" "i < fsize s"
  shows "length (bview s (map_block s i)) = BSIZE"
  by (rule bview_length [OF txnD(2) [OF assms(1)]]) (use assms(2,3) in \<open>simp add: map_ok_def on_disk_def\<close>)

text \<open>A change of one bit of the map and of blocks that do not hold the map.\<close>

lemma map_change:
  assumes s: "txn p s" "map_ok s" "i < fsize s" and t: "lstep p s t"
    and v: "\<And>n. n \<in> map_blocks s \<Longrightarrow> bview t n = (if n = map_block s i then f (bview s n) else bview s n)"
    and f: "\<And>d j. length d = BSIZE \<Longrightarrow> j < BPB \<Longrightarrow> bit_of (f d) j \<longleftrightarrow> (if i mod BPB = j then u else bit_of d j)"
  shows "fsize t = fsize s" "map_block t = map_block s" "\<And>j. j < fsize s \<Longrightarrow> used t j \<longleftrightarrow> (if j = i then u else used s j)"
proof -
  show e: "fsize t = fsize s" "map_block t = map_block s"
    using lstep_frame(1) [OF t] by (simp_all add: fsize_def map_block_def fun_eq_iff)
  fix j assume j: "j < fsize s"
  have m: "map_block s j \<in> map_blocks s" using j by (simp add: map_blocks_def)
  have jb: "j mod BPB < BPB" by (simp add: BPB_def)
  show "used t j \<longleftrightarrow> (if j = i then u else used s j)"
  proof (cases "map_block s j = map_block s i")
    case True
    then have "j mod BPB = i mod BPB \<longleftrightarrow> j = i" using map_block_inj [OF s(2) j s(3)] by blast
    then show ?thesis using v [OF m] f [OF map_block_length [OF s(1,2) j] jb] True by (simp add: used_def e eq_commute)
  next
    case False
    then have "j \<noteq> i" by auto
    then show ?thesis using v [OF m] False by (simp add: used_def e)
  qed
qed

lemma BSIZE_bits: "length d = BSIZE \<Longrightarrow> j < BPB \<Longrightarrow> j < 8 * length d"
  by (simp add: BPB_def)

lemma allocated_map:
  assumes s: "txn p s" "map_ok s" "first_free s = Some i" and t: "allocated p s i t"
  shows "map_ok t" "i \<in> free_blocks s" "\<forall>j \<in> free_blocks s. i \<le> j" "free_blocks t = free_blocks s - {i}"
    "bview t (of_nat i) = replicate BSIZE 0" "\<forall>n. n \<noteq> of_nat i \<and> n \<notin> map_blocks s \<longrightarrow> bview t n = bview s n"
proof -
  have i: "i < fsize s" "\<not> used s i" "\<forall>j < i. used s j" using s(3) by (auto simp: first_free_def find_idx_upt)
  have "\<forall>c < fsize s. map_block s c \<noteq> of_nat i" using s(2) i by (simp add: map_ok_def)
  then have n: "of_nat i \<notin> map_blocks s" by (auto simp: map_blocks_def)
  note a = t [unfolded allocated_def]
  have v: "bview t n = (if n = map_block s i then set_bit_of (i mod BPB) (bview s n) else bview s n)" if "n \<in> map_blocks s" for n
    using a that n by auto
  note c = map_change [OF s(1,2) i(1) _ v, of True]
  have u: "fsize t = fsize s" "map_block t = map_block s" "\<And>j. j < fsize s \<Longrightarrow> used t j \<longleftrightarrow> j = i \<or> used s j"
    using c a BSIZE_bits by (auto simp: bit_of_set_bit BPB_def)
  show "i \<in> free_blocks s" "\<forall>j \<in> free_blocks s. i \<le> j" using i by (auto simp: free_blocks_def not_le [symmetric])
  show "free_blocks t = free_blocks s - {i}" using u by (auto simp: free_blocks_def)
  show "map_ok t" using s(2) u lstep_frame(4) [of p s t] a by (auto simp: map_ok_def)
  show "bview t (of_nat i) = replicate BSIZE 0" using a by simp
  have "map_block s i \<in> map_blocks s" using i(1) by (simp add: map_blocks_def)
  then show "\<forall>n. n \<noteq> of_nat i \<and> n \<notin> map_blocks s \<longrightarrow> bview t n = bview s n" using a by auto
qed

lemma bfree_free:
  assumes s: "txn p s" "room s 0" "map_ok s" and i: "i < fsize s" "\<not> used s i"
  shows "bfree 1 (of_nat i) s = Stop (Panic ''freeing free block'')"
proof -
  have m: "unat (map_block s i) < length (disk s)" using s(3) i(1) by (simp add: map_ok_def on_disk_def)
  obtain x t where t: "bread 1 (map_block s i) s = Ret x t" "getb x t = Ret (bufs t ! x) t" "bdata (bufs t ! x) = bview s (map_block s i)"
    by (rule txn_bread [OF s(1,2) m]) blast
  have "unat (of_nat i :: uint) = i" using s(3) i(1) by (simp add: unat_of_nat map_ok_def)
  then show ?thesis using t i(2) by (simp add: bfree_def Let_def map_block_def used_def)
qed

lemma bfree_used:
  assumes s: "txn p s" "room s 1" "map_ok s" and i: "i < fsize s" "used s i" "on_disk (of_nat i) s" "of_nat i \<notin> map_blocks s"
  shows "\<exists>t. bfree 1 (of_nat i) s = Ret () t \<and> txn p t \<and> map_ok t \<and> free_blocks t = insert i (free_blocks s) \<and>
    (\<forall>n. n \<notin> map_blocks s \<longrightarrow> bview t n = bview s n)"
proof -
  let ?m = "map_block s i"
  have od: "on_disk ?m s" using s(3) i(1) by (simp add: map_ok_def)
  have r: "room s (Suc 0)" using s(2) by simp
  have l: "length (bview s ?m) = BSIZE" by (rule map_block_length [OF s(1,3) i(1)])
  obtain x t u v w where w: "bread 1 ?m s = Ret x t" "getb x t = Ret (bufs t ! x) t" "bdata (bufs t ! x) = bview s ?m"
    "updb x (\<lambda>y. y\<lparr>bdata := clear_bit_of (i mod BPB) (bdata y)\<rparr>) t = Ret () u" "log_write x u = Ret () v" "brelse x v = Ret () w"
    "txn p w" "lstep p s w" "room w 0" "bview w = (bview s)(?m := clear_bit_of (i mod BPB) (bview s ?m))"
    by (rule txn_write [OF s(1) r od, of "clear_bit_of (i mod BPB)"]) (use l in \<open>simp add: clear_bit_of_def\<close>)
  have un: "unat (of_nat i :: uint) = i" using s(3) i(1) by (simp add: unat_of_nat map_ok_def)
  have run: "bfree 1 (of_nat i) s = Ret () w"
    using w(1-6) i(2) un by (simp add: bfree_def Let_def map_block_def used_def)
  have vw: "bview w n = (if n = ?m then clear_bit_of (i mod BPB) (bview s n) else bview s n)" if "n \<in> map_blocks s" for n
    using w(10) by simp
  have c: "fsize w = fsize s" "map_block w = map_block s" "\<And>j. j < fsize s \<Longrightarrow> used w j \<longleftrightarrow> j \<noteq> i \<and> used s j"
    using map_change [OF s(1,3) i(1) w(8) vw, of False] BSIZE_bits by (auto simp: bit_of_set_bit BPB_def)
  have ni: "\<forall>c < fsize s. map_block s c \<noteq> of_nat i" using i(4) by (metis imageI lessThan_iff map_blocks_def)
  have "map_ok w" using s(3) c lstep_frame(4) [OF w(8)] i(3) ni by (auto simp: map_ok_def)
  moreover have "free_blocks w = insert i (free_blocks s)" using c i(1) by (auto simp: free_blocks_def)
  moreover have "\<forall>n. n \<notin> map_blocks s \<longrightarrow> bview w n = bview s n" using w(10) i(1) by (auto simp: map_blocks_def)
  ultimately show ?thesis using run w(7) by blast
qed

section \<open>Properties\<close>

text \<open>
  C6: the allocation of disk blocks. Inside a transaction with room in the log, \<open>balloc\<close> takes the first block that
  the free map shows as free, marks exactly that block as used, fills it with zeros and changes no other block but the map;
  when no block is free it panics. \<open>bfree\<close> of a block in use makes exactly that block free again and changes only
  the map, and \<open>bfree\<close> of a free block panics.
\<close>

theorem block_allocation:
  assumes "txn p s" "room s 2" "map_ok s"
  shows "(case first_free s of
       None \<Rightarrow> free_blocks s = {} \<and> balloc 1 s = Stop (Panic ''balloc: out of blocks'')
     | Some i \<Rightarrow> i \<in> free_blocks s \<and> (\<forall>j \<in> free_blocks s. i \<le> j) \<and>
         (\<exists>t. balloc 1 s = Ret (of_nat i) t \<and> txn p t \<and> map_ok t \<and> free_blocks t = free_blocks s - {i} \<and>
           bview t (of_nat i) = replicate BSIZE 0 \<and> (\<forall>n. n \<noteq> of_nat i \<and> n \<notin> map_blocks s \<longrightarrow> bview t n = bview s n))) \<and>
    (\<forall>i < fsize s. if i \<in> free_blocks s then bfree 1 (of_nat i) s = Stop (Panic ''freeing free block'')
       else on_disk (of_nat i) s \<and> of_nat i \<notin> map_blocks s \<longrightarrow>
         (\<exists>t. bfree 1 (of_nat i) s = Ret () t \<and> txn p t \<and> map_ok t \<and> free_blocks t = insert i (free_blocks s) \<and>
           (\<forall>n. n \<notin> map_blocks s \<longrightarrow> bview t n = bview s n)))"
proof (intro conjI allI impI, goal_cases)
  case 1
  note b = balloc_loop_eq [OF assms, of 0, folded balloc_def]
  show ?case
  proof (cases "first_free s")
    case None
    then have "free_blocks s = {}" by (auto simp: free_blocks_def first_free_def find_idx_None)
    then show ?thesis using b None by simp
  next
    case (Some i)
    then obtain t where t: "balloc 1 s = Ret (of_nat i) t" "allocated p s i t" using b by auto
    have "txn p t" using t(2) by (simp add: allocated_def)
    then show ?thesis using Some t(1) allocated_map [OF assms(1,3) Some t(2)] by auto
  qed
next
  case (2 i)
  have r: "room s 0" "room s 1" using assms(2) by (simp_all add: room_def)
  show ?case
    using bfree_free [OF assms(1) r(1) assms(3) 2] bfree_used [OF assms(1) r(2) assms(3) 2] 2 by (auto simp: free_blocks_def)
qed

text \<open>A disk of eight blocks: the log is in blocks 2 to 4, the map in block 5, and blocks 6 and 7 are free.\<close>

definition ex_txn :: fs_state where
  "ex_txn = ex_fs\<lparr>bufs := [ex_buf (Some 1) None, ex_buf (Some 2) (Some 0), ex_buf None (Some 1)], head_prev := Some 0, head_next := Some 2,
     disk := replicate 5 (replicate BSIZE 0) @ [0x3F # replicate 511 0, replicate BSIZE 0, replicate BSIZE 0],
     lg_size := 3, lh_n := 0, outstanding := 1,
     sb := \<lparr>sb_size = 8, nblocks = 2, ninodes = 8, nlog = 3, logstart = 2, inodestart = 1, bmapstart = 5\<rparr>\<rparr>"

lemma ex_txn_fields:
  "bufs ex_txn = [ex_buf (Some 1) None, ex_buf (Some 2) (Some 0), ex_buf None (Some 1)]" "head_prev ex_txn = Some 0" "head_next ex_txn = Some 2"
  "disk ex_txn = replicate 5 (replicate BSIZE 0) @ [0x3F # replicate 511 0, replicate BSIZE 0, replicate BSIZE 0]"
  "lg_start ex_txn = 2" "lg_size ex_txn = 3" "lg_dev ex_txn = 1" "lh_n ex_txn = 0" "lh_block ex_txn = 4 # replicate 29 0" "outstanding ex_txn = 1"
  "slk ex_txn = (\<lambda>_. \<lparr>slocked = False, slname = [], spid = 0\<rparr>)" "sb_size (sb ex_txn) = 8" "bmapstart (sb ex_txn) = 5"
  using ex_log_fields by (simp_all add: ex_txn_def ex_fs_def log_state.defs)

lemma ex_txn_cache: "cache_ok ex_txn"
proof -
  have "dll (bufs ex_txn) (head_next ex_txn) (head_prev ex_txn) [2, 1, 0]" "set [2, 1, 0] = {..<length (bufs ex_txn)}"
    by (auto simp: ex_txn_fields dll_def ex_buf_def)
  then have "\<exists>ord. dll (bufs ex_txn) (head_next ex_txn) (head_prev ex_txn) ord \<and> set ord = {..<length (bufs ex_txn)}"
    by blast
  then show ?thesis by (simp add: cache_at_def) (auto simp: ex_txn_fields ex_buf_def less_Suc_eq)
qed

lemma ex_txn_slot: "slot (bufs ex_txn) bn = None"
  by (auto simp: slot_def ex_txn_fields ex_buf_def)

lemma ex_txn_views: "busy ex_txn = {}" "pinned ex_txn = {}" "homes ex_txn = []" "bview ex_txn bn = disk ex_txn ! unat bn"
  unfolding busy_def pinned_def bview_def ex_txn_slot by (simp_all add: homes_def ex_txn_fields)

lemma ex_txn_txn: "txn 0 ex_txn" "room ex_txn 2"
proof -
  have "quiet 0 ex_txn" using ex_fs_quiet by (simp add: quiet_def ex_txn_def)
  moreover have "log_wf ex_txn" by (simp add: log_wf_def ex_txn_views ex_txn_fields)
  ultimately show "txn 0 ex_txn" using ex_txn_cache ex_txn_views by (simp add: txn_def ex_txn_fields)
  show "room ex_txn 2" by (simp add: room_def ex_txn_views ex_txn_fields)
qed

lemma ex_txn_map: "fsize ex_txn = 8" "b < 8 \<Longrightarrow> map_block ex_txn b = 5" "b < 8 \<Longrightarrow> used ex_txn b \<longleftrightarrow> b < 6"
proof -
  show "fsize ex_txn = 8" by (simp add: fsize_def ex_txn_fields)
  show m: "map_block ex_txn b = 5" if "b < 8" for b
    using that by (simp add: map_block_def BBLOCK_nat ex_txn_fields)
  show "used ex_txn b \<longleftrightarrow> b < 6" if b: "b < 8"
  proof -
    have d: "disk ex_txn ! 5 ! 0 = 0x3F" by (simp add: ex_txn_fields nth_append)
    have "b \<in> {0, 1, 2, 3, 4, 5, 6, 7}" using b by auto
    then show ?thesis using m [OF b] d by (auto simp: used_def ex_txn_views bit_of_def BPB_def)
  qed
qed

lemma ex_txn_map_ok: "map_ok ex_txn" "first_free ex_txn = Some 6" "free_blocks ex_txn = {6, 7}"
proof -
  have f: "b = 6 \<or> b = 7" if "b < 8" "\<not> b < 6" for b :: nat using that by auto
  have "on_disk (of_nat b) ex_txn \<and> (5 :: uint) \<noteq> of_nat b" if "b < 8" "\<not> b < 6" for b
    using f [OF that] by (auto simp: on_disk_def in_log_def ex_txn_fields)
  moreover have "on_disk 5 ex_txn" by (simp add: on_disk_def in_log_def ex_txn_fields)
  ultimately show "map_ok ex_txn" by (simp add: map_ok_def ex_txn_map BPB_def)
  show "first_free ex_txn = Some 6" by (simp add: first_free_def find_idx_upt ex_txn_map)
  show "free_blocks ex_txn = {6, 7}" using f by (auto simp: free_blocks_def ex_txn_map)
qed

theorem block_allocation_witness:
  "\<exists>t. balloc 1 ex_txn = Ret 6 t \<and> free_blocks t = {7} \<and> bview t 6 = replicate BSIZE 0"
  using block_allocation [OF ex_txn_txn ex_txn_map_ok(1)] by (auto simp: ex_txn_map_ok)

end
