(* ===== verification/Apic.thy ===== *)
theory Apic
  imports Ports
begin

text \<open>
  Model of the interrupt controllers: \<open>lapic.c\<close> (the local APIC of a processor, and the CMOS clock),
  \<open>ioapic.c\<close> and \<open>picirq.c\<close>. \<open>lapic\<close> is the address of the register page \<open>mp.c\<close> found, 0 if none. The two
  loops that wait for a device, in \<open>lapicinit\<close> and in \<open>cmostime\<close>, take a bound \<open>k\<close> on their turns.
\<close>

section \<open>Local APIC\<close>

abbreviation ID :: uint where "ID \<equiv> 0x20 div 4"
abbreviation VER :: uint where "VER \<equiv> 0x30 div 4"
abbreviation TPR :: uint where "TPR \<equiv> 0x80 div 4"
abbreviation EOI :: uint where "EOI \<equiv> 0xB0 div 4"
abbreviation SVR :: uint where "SVR \<equiv> 0xF0 div 4"
abbreviation ESR :: uint where "ESR \<equiv> 0x280 div 4"
abbreviation ICRLO :: uint where "ICRLO \<equiv> 0x300 div 4"
abbreviation ICRHI :: uint where "ICRHI \<equiv> 0x310 div 4"
abbreviation TIMER :: uint where "TIMER \<equiv> 0x320 div 4"
abbreviation PCINT :: uint where "PCINT \<equiv> 0x340 div 4"
abbreviation LINT0 :: uint where "LINT0 \<equiv> 0x350 div 4"
abbreviation LINT1 :: uint where "LINT1 \<equiv> 0x360 div 4"
abbreviation ERROR :: uint where "ERROR \<equiv> 0x370 div 4"
abbreviation TICR :: uint where "TICR \<equiv> 0x380 div 4"
abbreviation TDCR :: uint where "TDCR \<equiv> 0x3E0 div 4"

abbreviation ENABLE :: uint where "ENABLE \<equiv> 0x100"
abbreviation INIT :: uint where "INIT \<equiv> 0x500"
abbreviation STARTUP :: uint where "STARTUP \<equiv> 0x600"
abbreviation DELIVS :: uint where "DELIVS \<equiv> 0x1000"
abbreviation ASSERT :: uint where "ASSERT \<equiv> 0x4000"
abbreviation LEVEL :: uint where "LEVEL \<equiv> 0x8000"
abbreviation BCAST :: uint where "BCAST \<equiv> 0x80000"
abbreviation X1 :: uint where "X1 \<equiv> 0xB"
abbreviation PERIODIC :: uint where "PERIODIC \<equiv> 0x20000"
abbreviation MASKED :: uint where "MASKED \<equiv> 0x10000"

abbreviation T_IRQ0 :: uint where "T_IRQ0 \<equiv> 32"
abbreviation IRQ_TIMER :: uint where "IRQ_TIMER \<equiv> 0"
abbreviation IRQ_KBD :: uint where "IRQ_KBD \<equiv> 1"
abbreviation IRQ_COM1 :: uint where "IRQ_COM1 \<equiv> 4"
abbreviation IRQ_IDE :: uint where "IRQ_IDE \<equiv> 14"
abbreviation IRQ_ERROR :: uint where "IRQ_ERROR \<equiv> 19"
abbreviation IRQ_SPURIOUS :: uint where "IRQ_SPURIOUS \<equiv> 31"

definition lapic_get :: "uint \<Rightarrow> ('z io_state_scheme, uint) kfun" where
  "lapic_get index = mbind (gets lapic) (\<lambda>l. mmio_read (l + 4 * index))"

definition lapicw :: "uint \<Rightarrow> uint \<Rightarrow> ('z io_state_scheme, unit) kfun" where
  "lapicw index value =
     mbind (gets lapic) (\<lambda>l.
     mbind (mmio_write (l + 4 * index) value) (\<lambda>_.
     mbind (lapic_get ID) (\<lambda>_.
     ret ())))"

definition lapicinit :: "nat \<Rightarrow> ('z io_state_scheme, unit) kfun" where
  "lapicinit k =
     mbind (gets lapic) (\<lambda>l.
     if l = 0 then ret () else
     mbind (lapicw SVR (ENABLE OR (T_IRQ0 + IRQ_SPURIOUS))) (\<lambda>_.
     mbind (lapicw TDCR X1) (\<lambda>_.
     mbind (lapicw TIMER (PERIODIC OR (T_IRQ0 + IRQ_TIMER))) (\<lambda>_.
     mbind (lapicw TICR 10000000) (\<lambda>_.
     mbind (lapicw LINT0 MASKED) (\<lambda>_.
     mbind (lapicw LINT1 MASKED) (\<lambda>_.
     mbind (lapic_get VER) (\<lambda>v.
     mbind (if drop_bit 16 v AND 0xFF \<ge> 4 then lapicw PCINT MASKED else ret ()) (\<lambda>_.
     mbind (lapicw ERROR (T_IRQ0 + IRQ_ERROR)) (\<lambda>_.
     mbind (lapicw ESR 0) (\<lambda>_.
     mbind (lapicw ESR 0) (\<lambda>_.
     mbind (lapicw EOI 0) (\<lambda>_.
     mbind (lapicw ICRHI 0) (\<lambda>_.
     mbind (lapicw ICRLO (BCAST OR INIT OR LEVEL)) (\<lambda>_.
     mbind (poll k (mbind (lapic_get ICRLO) (\<lambda>v. ret (v AND DELIVS = 0)))) (\<lambda>_.
     lapicw TPR 0))))))))))))))))"

text \<open>\<open>lapicid()\<close>; the field of the same name of the machine state holds its result.\<close>

definition lapicid_fn :: "('z io_state_scheme, uint) kfun" where
  "lapicid_fn =
     mbind (gets lapic) (\<lambda>l.
     if l = 0 then ret 0 else
     mbind (lapic_get ID) (\<lambda>v. ret (drop_bit 24 v)))"

definition lapiceoi :: "('z io_state_scheme, unit) kfun" where
  "lapiceoi = mbind (gets lapic) (\<lambda>l. if l \<noteq> 0 then lapicw EOI 0 else ret ())"

definition microdelay :: "int \<Rightarrow> ('z io_state_scheme, unit) kfun" where
  "microdelay us = ret ()"

abbreviation CMOS_PORT :: ushort where "CMOS_PORT \<equiv> 0x70"
abbreviation CMOS_RETURN :: ushort where "CMOS_RETURN \<equiv> 0x71"

text \<open>The interprocessor interrupts of \<open>lapicstartap\<close>, after the warm reset vector has been written.\<close>

definition lapicstartap_ipi :: "byte \<Rightarrow> uint \<Rightarrow> ('z io_state_scheme, unit) kfun" where
  "lapicstartap_ipi apic addr =
     mbind (lapicw ICRHI (push_bit 24 (ucast apic))) (\<lambda>_.
     mbind (lapicw ICRLO (INIT OR LEVEL OR ASSERT)) (\<lambda>_.
     mbind (microdelay 200) (\<lambda>_.
     mbind (lapicw ICRLO (INIT OR LEVEL)) (\<lambda>_.
     mbind (microdelay 100) (\<lambda>_.
     mforeach [0..<2] (\<lambda>i.
       mbind (lapicw ICRHI (push_bit 24 (ucast apic))) (\<lambda>_.
       mbind (lapicw ICRLO (STARTUP OR drop_bit 12 addr)) (\<lambda>_.
       microdelay 200))))))))"

section \<open>The clock\<close>

record rtcdate =
  second :: uint
  minute :: uint
  hour :: uint
  day :: uint
  month :: uint
  year :: uint

definition cmos_read :: "byte \<Rightarrow> ('z io_state_scheme, uint) kfun" where
  "cmos_read reg =
     mbind (outb CMOS_PORT reg) (\<lambda>_.
     mbind (microdelay 200) (\<lambda>_.
     mbind (inb CMOS_RETURN) (\<lambda>b.
     ret (ucast b))))"

definition fill_rtcdate :: "('z io_state_scheme, rtcdate) kfun" where
  "fill_rtcdate =
     mbind (cmos_read 0) (\<lambda>s.
     mbind (cmos_read 2) (\<lambda>m.
     mbind (cmos_read 4) (\<lambda>h.
     mbind (cmos_read 7) (\<lambda>d.
     mbind (cmos_read 8) (\<lambda>mo.
     mbind (cmos_read 9) (\<lambda>y.
     ret \<lparr>second = s, minute = m, hour = h, day = d, month = mo, year = y\<rparr>))))))"

text \<open>The loop of \<open>cmostime\<close>: two readings in a row that agree, with no update in progress in between.\<close>

fun cmos_stable :: "nat \<Rightarrow> ('z io_state_scheme, rtcdate) kfun" where
  "cmos_stable 0 = stuck"
| "cmos_stable (Suc k) =
     mbind fill_rtcdate (\<lambda>t1.
     mbind (cmos_read 0x0a) (\<lambda>a.
     if a AND 0x80 \<noteq> 0 then cmos_stable k else
     mbind fill_rtcdate (\<lambda>t2.
     if t1 = t2 then ret t1 else cmos_stable k)))"

definition CONV :: "uint \<Rightarrow> uint" where
  "CONV x = drop_bit 4 x * 10 + (x AND 0xf)"

definition cmostime :: "nat \<Rightarrow> ('z io_state_scheme, rtcdate) kfun" where
  "cmostime k =
     mbind (cmos_read 0x0b) (\<lambda>b.
     mbind (cmos_stable k) (\<lambda>t.
     let t = (if b AND 4 = 0
              then t\<lparr>second := CONV (second t), minute := CONV (minute t), hour := CONV (hour t),
                     day := CONV (day t), month := CONV (month t), year := CONV (year t)\<rparr>
              else t) in
     ret (t\<lparr>year := year t + 2000\<rparr>)))"

section \<open>I/O APIC and PIC\<close>

abbreviation IOAPIC :: uint where "IOAPIC \<equiv> 0xFEC00000"
abbreviation REG_ID :: uint where "REG_ID \<equiv> 0"
abbreviation REG_VER :: uint where "REG_VER \<equiv> 1"
abbreviation REG_TABLE :: uint where "REG_TABLE \<equiv> 0x10"
abbreviation INT_DISABLED :: uint where "INT_DISABLED \<equiv> 0x10000"

text \<open>The register \<open>data\<close> lies 16 bytes after \<open>reg\<close>.\<close>

definition ioapicread :: "uint \<Rightarrow> ('z io_state_scheme, uint) kfun" where
  "ioapicread reg = mbind (mmio_write IOAPIC reg) (\<lambda>_. mmio_read (IOAPIC + 16))"

definition ioapicwrite :: "uint \<Rightarrow> uint \<Rightarrow> ('z io_state_scheme, unit) kfun" where
  "ioapicwrite reg data = mbind (mmio_write IOAPIC reg) (\<lambda>_. mmio_write (IOAPIC + 16) data)"

text \<open>The loop of \<open>ioapicinit\<close>; the routine itself, which may print a warning, is with the boot code.\<close>

definition ioapic_mask_all :: "uint \<Rightarrow> ('z io_state_scheme, unit) kfun" where
  "ioapic_mask_all maxintr =
     mforeach [0..<Suc (unat maxintr)] (\<lambda>i.
       mbind (ioapicwrite (REG_TABLE + 2 * of_nat i) (INT_DISABLED OR (T_IRQ0 + of_nat i))) (\<lambda>_.
       ioapicwrite (REG_TABLE + 2 * of_nat i + 1) 0))"

definition ioapicenable :: "uint \<Rightarrow> uint \<Rightarrow> ('z io_state_scheme, unit) kfun" where
  "ioapicenable irq cpunum =
     mbind (ioapicwrite (REG_TABLE + 2 * irq) (T_IRQ0 + irq)) (\<lambda>_.
     ioapicwrite (REG_TABLE + 2 * irq + 1) (push_bit 24 cpunum))"

definition picinit :: "('z io_state_scheme, unit) kfun" where
  "picinit = mbind (outb 0x21 0xFF) (\<lambda>_. outb 0xA1 0xFF)"

end
