(* ===== verification/Uart.thy ===== *)
theory Uart
  imports Apic
begin

text \<open>
  Model of \<open>uart.c\<close>, the serial port. \<open>uart\<close> records whether there is one. Its interrupt handler, which
  hands the received characters to the console, is with the console.
\<close>

abbreviation COM1 :: ushort where "COM1 \<equiv> 0x3f8"

text \<open>The loop of \<open>uartputc\<close> waits at most 128 turns for the transmitter and then sends anyway.\<close>

fun uart_ready :: "nat \<Rightarrow> ('z io_state_scheme, unit) kfun" where
  "uart_ready 0 = ret ()"
| "uart_ready (Suc n) =
     mbind (inb (COM1 + 5)) (\<lambda>b.
     if b AND 0x20 \<noteq> 0 then ret () else
     mbind (microdelay 10) (\<lambda>_. uart_ready n))"

definition uartputc :: "int \<Rightarrow> ('z io_state_scheme, unit) kfun" where
  "uartputc c =
     mbind (gets uart) (\<lambda>u.
     if \<not> u then ret () else
     mbind (uart_ready 128) (\<lambda>_.
     outb COM1 (word_of_int c)))"

definition uartinit :: "('z io_state_scheme, unit) kfun" where
  "uartinit =
     mbind (outb (COM1 + 2) 0) (\<lambda>_.
     mbind (outb (COM1 + 3) 0x80) (\<lambda>_.
     mbind (outb COM1 (115200 div 9600)) (\<lambda>_.
     mbind (outb (COM1 + 1) 0) (\<lambda>_.
     mbind (outb (COM1 + 3) 3) (\<lambda>_.
     mbind (outb (COM1 + 4) 0) (\<lambda>_.
     mbind (outb (COM1 + 1) 1) (\<lambda>_.
     mbind (inb (COM1 + 5)) (\<lambda>b.
     if b = 0xFF then ret () else
     mbind (modify (\<lambda>s. s\<lparr>uart := True\<rparr>)) (\<lambda>_.
     mbind (inb (COM1 + 2)) (\<lambda>_.
     mbind (inb COM1) (\<lambda>_.
     mbind (ioapicenable IRQ_COM1 0) (\<lambda>_.
     mforeach (map of_char ''xv6...'' @ [10]) uartputc))))))))))))"

definition uartgetc :: "('z io_state_scheme, int) kfun" where
  "uartgetc =
     mbind (gets uart) (\<lambda>u.
     if \<not> u then ret (-1) else
     mbind (inb (COM1 + 5)) (\<lambda>b.
     if b AND 1 = 0 then ret (-1) else
     mbind (inb COM1) (\<lambda>c.
     ret (uint c))))"

end
