(* ===== verification/Kbd.thy ===== *)
theory Kbd
  imports Ports
begin

text \<open>
  Model of the keyboard driver, \<open>kbd.c\<close> with the tables of \<open>kbd.h\<close>: \<open>kbdgetc\<close> turns one scan code into
  a character and keeps track of the modifier keys in \<open>shift\<close>. A table maps a scan code to a byte; codes it
  does not list give \<open>NO\<close>, which is 0. The tables are functions of the code; \<open>table_index\<close> shows that the code never
  exceeds the 256 entries of an array. The property reads whole sequences of key presses and releases.
\<close>

section \<open>Tables\<close>

abbreviation SHIFT :: uint where "SHIFT \<equiv> 1"
abbreviation CTL :: uint where "CTL \<equiv> 2"
abbreviation ALT :: uint where "ALT \<equiv> 4"
abbreviation CAPSLOCK :: uint where "CAPSLOCK \<equiv> 8"
abbreviation NUMLOCK :: uint where "NUMLOCK \<equiv> 16"
abbreviation SCROLLLOCK :: uint where "SCROLLLOCK \<equiv> 32"
abbreviation E0ESC :: uint where "E0ESC \<equiv> 64"

definition shiftcode :: "uint \<Rightarrow> uint" where
  "shiftcode d = (if d = 0x1D then CTL else if d = 0x2A then SHIFT else if d = 0x36 then SHIFT
     else if d = 0x38 then ALT else if d = 0x9D then CTL else if d = 0xB8 then ALT else 0)"

definition togglecode :: "uint \<Rightarrow> uint" where
  "togglecode d = (if d = 0x3A then CAPSLOCK else if d = 0x45 then NUMLOCK else if d = 0x46 then SCROLLLOCK else 0)"

text \<open>The keys with an escaped scan code, which all three maps have, with the code of KP_Enter and KP_Div.\<close>

definition keypad :: "byte \<Rightarrow> byte \<Rightarrow> uint \<Rightarrow> byte" where
  "keypad enter divi d =
     (if d = 0x9C then enter else if d = 0xB5 then divi else if d = 0xC8 then 0xE2 else if d = 0xD0 then 0xE3
      else if d = 0xC9 then 0xE6 else if d = 0xD1 then 0xE7 else if d = 0xCB then 0xE4 else if d = 0xCD then 0xE5
      else if d = 0x97 then 0xE0 else if d = 0xCF then 0xE1 else if d = 0xD2 then 0xE8 else if d = 0xD3 then 0xE9
      else 0)"

definition keymap :: "byte list \<Rightarrow> byte \<Rightarrow> byte \<Rightarrow> uint \<Rightarrow> byte" where
  "keymap row enter divi d = (if unat d < length row then row ! unat d else keypad enter divi d)"

definition normalmap :: "uint \<Rightarrow> byte" where
  "normalmap = keymap
     [0, 27, 49, 50, 51, 52, 53, 54, 55, 56, 57, 48, 45, 61, 8, 9,
      113, 119, 101, 114, 116, 121, 117, 105, 111, 112, 91, 93, 10, 0, 97, 115,
      100, 102, 103, 104, 106, 107, 108, 59, 39, 96, 0, 92, 122, 120, 99, 118,
      98, 110, 109, 44, 46, 47, 0, 42, 0, 32, 0, 0, 0, 0, 0, 0,
      0, 0, 0, 0, 0, 0, 0, 55, 56, 57, 45, 52, 53, 54, 43, 49,
      50, 51, 48, 46, 0, 0, 0, 0] 10 47"

definition shiftmap :: "uint \<Rightarrow> byte" where
  "shiftmap = keymap
     [0, 27, 33, 64, 35, 36, 37, 94, 38, 42, 40, 41, 95, 43, 8, 9,
      81, 87, 69, 82, 84, 89, 85, 73, 79, 80, 123, 125, 10, 0, 65, 83,
      68, 70, 71, 72, 74, 75, 76, 58, 34, 126, 0, 124, 90, 88, 67, 86,
      66, 78, 77, 60, 62, 63, 0, 42, 0, 32, 0, 0, 0, 0, 0, 0,
      0, 0, 0, 0, 0, 0, 0, 55, 56, 57, 45, 52, 53, 54, 43, 49,
      50, 51, 48, 46, 0, 0, 0, 0] 10 47"

definition ctlmap :: "uint \<Rightarrow> byte" where
  "ctlmap = keymap
     [0, 0, 0, 0, 0, 0, 0, 0, 0, 0, 0, 0, 0, 0, 0, 0,
      17, 23, 5, 18, 20, 25, 21, 9, 15, 16, 0, 0, 13, 0, 1, 19,
      4, 6, 7, 8, 10, 11, 12, 0, 0, 0, 0, 28, 26, 24, 3, 22,
      2, 14, 13, 0, 0, 239, 0, 0] 13 239"

section \<open>Reading a key\<close>

definition charcode :: "uint \<Rightarrow> uint \<Rightarrow> byte" where
  "charcode m d = (if m = 0 then normalmap d else if m = 1 then shiftmap d else ctlmap d)"

definition kbdgetc :: "('z io_state_scheme, int) kfun" where
  "kbdgetc =
     mbind (inb 0x64) (\<lambda>st.
     if st AND 1 = 0 then ret (-1) else
     mbind (inb 0x60) (\<lambda>b.
     let data = ucast b in
     if data = 0xE0 then
       mbind (modify (\<lambda>s. s\<lparr>shift := shift s OR E0ESC\<rparr>)) (\<lambda>_. ret 0)
     else if data AND 0x80 \<noteq> 0 then
       mbind (modify (\<lambda>s.
         let data = (if shift s AND E0ESC \<noteq> 0 then data else data AND 0x7F) in
         s\<lparr>shift := shift s AND NOT (shiftcode data OR E0ESC)\<rparr>)) (\<lambda>_. ret 0)
     else
       mbind (gets (\<lambda>s. if shift s AND E0ESC \<noteq> 0 then data OR 0x80 else data)) (\<lambda>data.
       mbind (modify (\<lambda>s. s\<lparr>shift := shift s AND NOT E0ESC\<rparr>)) (\<lambda>_.
       mbind (modify (\<lambda>s. s\<lparr>shift := shift s OR shiftcode data\<rparr>)) (\<lambda>_.
       mbind (modify (\<lambda>s. s\<lparr>shift := shift s XOR togglecode data\<rparr>)) (\<lambda>_.
       mbind (gets shift) (\<lambda>sh.
       let c = uint (charcode (sh AND (CTL OR SHIFT)) data) in
       ret (if sh AND CAPSLOCK \<noteq> 0 then
              (if 97 \<le> c \<and> c \<le> 122 then c - 32
               else if 65 \<le> c \<and> c \<le> 90 then c + 32 else c)
            else c))))))))"

section \<open>One scan code\<close>

text \<open>What \<open>kbdgetc\<close> does with the scan code \<open>b\<close> when the modifiers are \<open>w\<close>: its result and the new modifiers.\<close>

definition kchar :: "uint \<Rightarrow> uint \<Rightarrow> int" where
  "kchar w d = (let c = uint (charcode (w AND (CTL OR SHIFT)) d) in
     if w AND CAPSLOCK \<noteq> 0 then
       (if 97 \<le> c \<and> c \<le> 122 then c - 32 else if 65 \<le> c \<and> c \<le> 90 then c + 32 else c)
     else c)"

definition kcode :: "uint \<Rightarrow> byte \<Rightarrow> int \<times> uint" where
  "kcode w b =
     (let data = ucast b in
      if data = 0xE0 then (0, w OR E0ESC)
      else if data AND 0x80 \<noteq> 0 then (0, w AND NOT (shiftcode (if w AND E0ESC \<noteq> 0 then data else data AND 0x7F) OR E0ESC))
      else
        let d = (if w AND E0ESC \<noteq> 0 then data OR 0x80 else data);
            v = ((w AND NOT E0ESC) OR shiftcode d) XOR togglecode d
        in (kchar v d, v))"

definition next_read :: "ushort \<Rightarrow> 'z io_state_scheme \<Rightarrow> 'z io_state_scheme" where
  "next_read p s = s\<lparr>in_port := (in_port s)(p := \<lambda>n. in_port s p (Suc n))\<rparr>"

lemma kbdgetc_code:
  assumes "in_port s 0x64 0 AND 1 \<noteq> 0"
  shows "kbdgetc s = (case kcode (shift s) (in_port s 0x60 0) of (r, w) \<Rightarrow> Ret r ((next_read 0x60 (next_read 0x64 s))\<lparr>shift := w\<rparr>))"
  using assms by (simp add: kbdgetc_def kcode_def kchar_def inb_def next_read_def Let_def)

lemma kbdgetc_empty: "in_port s 0x64 0 AND 1 = 0 \<Longrightarrow> kbdgetc s = Ret (- 1) (next_read 0x64 s)"
  by (simp add: kbdgetc_def inb_def next_read_def)

lemma kcode_E0 [simp]: "kcode w 0xE0 = (0, w OR E0ESC)"
  by (simp add: kcode_def)

lemma flag_bits: "w AND E0ESC = 0 \<longleftrightarrow> \<not> bit w 6" "w AND CAPSLOCK = 0 \<longleftrightarrow> \<not> bit w 3" "w AND 0x80 = 0 \<longleftrightarrow> \<not> bit w 7" for w :: uint
  using and_exp_eq_0_iff_not_bit [of w 6] and_exp_eq_0_iff_not_bit [of w 3] and_exp_eq_0_iff_not_bit [of w 7] by simp_all

lemma bit_flag: "k < 32 \<Longrightarrow> bit (2 ^ k :: uint) n \<longleftrightarrow> n = k"
  by (auto simp: bit_exp_iff)

lemma bit_consts: "bit (1 :: uint) n \<longleftrightarrow> n = 0" "bit (2 :: uint) n \<longleftrightarrow> n = 1" "bit (4 :: uint) n \<longleftrightarrow> n = 2"
  "bit (8 :: uint) n \<longleftrightarrow> n = 3" "bit (64 :: uint) n \<longleftrightarrow> n = 6"
  subgoal using bit_flag [of 0] by simp
  subgoal using bit_flag [of 1] by simp
  subgoal using bit_flag [of 2] by simp
  subgoal using bit_flag [of 3] by simp
  subgoal using bit_flag [of 6] by simp
  done

lemma flag_index: "w AND (CTL OR SHIFT) = (if bit w 1 then 2 else 0) + (if bit w 0 then 1 else 0)" for w :: uint
proof -
  have "w AND 3 = take_bit 2 w" by (simp add: take_bit_eq_mask mask_eq_exp_minus_1)
  also have "\<dots> = (if bit w 1 then 2 else 0) + (if bit w 0 then 1 else 0)"
    by (simp add: numeral_2_eq_2 take_bit_Suc bit_Suc bit_0 odd_iff_mod_2_eq_one)
  finally show ?thesis by simp
qed

lemmas flag_ops = bit_and_iff bit_or_iff bit_xor_iff bit_not_iff bit_consts

lemma charcode_bits:
  "charcode (w AND (CTL OR SHIFT)) d = (if bit w 1 then ctlmap d else if bit w 0 then shiftmap d else normalmap d)"
  unfolding flag_index charcode_def by simp

lemma kchar_bits:
  "kchar w d = (let c = uint (if bit w 1 then ctlmap d else if bit w 0 then shiftmap d else normalmap d) in
     if bit w 3 then (if 97 \<le> c \<and> c \<le> 122 then c - 32 else if 65 \<le> c \<and> c \<le> 90 then c + 32 else c) else c)"
  unfolding kchar_def charcode_bits by (simp only: flag_bits not_not)

text \<open>The index into the tables for a key with the code \<open>b\<close>, with or without the escape before it. It is a byte, so
  it is inside the 256 entries of each table.\<close>

abbreviation escaped :: "bool \<Rightarrow> byte \<Rightarrow> uint" where
  "escaped e b \<equiv> (if e then ucast b OR 0x80 else ucast b)"

lemma table_index: "unat (escaped e b) < 256"
proof -
  have "escaped e b = ucast (if e then b OR 0x80 else b)" by (simp add: unsigned_or_eq)
  moreover have "unat (ucast c :: uint) < 256" for c :: byte
    using unsigned_less [of c, where ?'a = nat] by (simp add: unsigned_ucast_eq take_bit_nat_eq_self)
  ultimately show ?thesis by (simp only:)
qed

text \<open>A code that is read as a press and, with the high bit, as the release of the same key.\<close>

definition key_code :: "byte \<Rightarrow> bool" where
  "key_code b \<longleftrightarrow> (let d = ucast b :: uint in d \<noteq> 0xE0 \<and> d AND 0x80 = 0 \<and> ucast (b OR 0x80) = d OR 0x80 \<and> d OR 0x80 \<noteq> 0xE0
     \<and> (d OR 0x80) AND 0x80 \<noteq> 0 \<and> (d OR 0x80) AND 0x7F = d)"

lemma key_code_up:
  assumes "key_code b"
  shows "(ucast (b OR 0x80) :: uint) = ucast b OR 0x80" "(ucast b OR 0x80 :: uint) \<noteq> 0xE0" "(ucast b OR 0x80 :: uint) AND 0x80 \<noteq> 0"
    "(ucast b OR 0x80 :: uint) AND 0x7F = ucast b" "(ucast b :: uint) \<noteq> 0xE0"
  using assms unfolding key_code_def Let_def by blast+

lemma kcode_down:
  assumes "key_code b"
  obtains v where "kcode w b = (kchar v (escaped (bit w 6) b), v)"
    "\<And>n. n < 7 \<Longrightarrow> bit v n \<longleftrightarrow> ((bit w n \<and> n \<noteq> 6) \<or> bit (shiftcode (escaped (bit w 6) b)) n) \<noteq> bit (togglecode (escaped (bit w 6) b)) n"
proof (rule that)
  let ?d = "escaped (bit w 6) b"
  have "ucast b AND 0x80 = (0 :: uint)" using assms unfolding key_code_def Let_def by blast
  then show "kcode w b = (kchar (((w AND NOT E0ESC) OR shiftcode ?d) XOR togglecode ?d) ?d, ((w AND NOT E0ESC) OR shiftcode ?d) XOR togglecode ?d)"
    unfolding kcode_def Let_def using key_code_up(5) [OF assms] by (simp only: flag_bits(1) refl if_True if_False not_not simp_thms)
  show "bit (((w AND NOT E0ESC) OR shiftcode ?d) XOR togglecode ?d) n \<longleftrightarrow>
    ((bit w n \<and> n \<noteq> 6) \<or> bit (shiftcode ?d) n) \<noteq> bit (togglecode ?d) n" if "n < 7" for n
    unfolding flag_ops using that by auto
qed

lemma kcode_up:
  assumes "key_code b"
  obtains v where "kcode w (b OR 0x80) = (0, v)"
    "\<And>n. n < 7 \<Longrightarrow> bit v n \<longleftrightarrow> bit w n \<and> \<not> bit (shiftcode (escaped (bit w 6) b)) n \<and> n \<noteq> 6"
proof (rule that)
  let ?d = "escaped (bit w 6) b"
  show "kcode w (b OR 0x80) = (0, w AND NOT (shiftcode ?d OR E0ESC))"
    unfolding kcode_def Let_def key_code_up(1) [OF assms] using key_code_up(2-4) [OF assms]
    by (simp only: flag_bits(1) refl if_True if_False not_not simp_thms)
  show "bit (w AND NOT (shiftcode ?d OR E0ESC)) n \<longleftrightarrow> bit w n \<and> \<not> bit (shiftcode ?d) n \<and> n \<noteq> 6" if "n < 7" for n
    unfolding flag_ops using that by auto
qed

section \<open>What typing means\<close>

text \<open>
  The contract of the driver, in terms of the keys of a keyboard and not of its tables: a key has a scan code of set 1,
  with the escape \<open>0xE0\<close> before it for the cursor keys and the modifiers on the right. The modifiers are the shift,
  control and alt keys and the state of caps lock.
\<close>

datatype key = Letter nat | Digit nat | Enter | Cursor nat | LeftShift | RightShift | LeftCtl | RightCtl | LeftAlt | RightAlt | CapsLock

datatype key_event = Press key | Release key

record modifiers =
  shifted :: bool
  control :: bool
  alt :: bool
  caps :: bool

fun key_ok :: "key \<Rightarrow> bool" where
  "key_ok (Letter i) = (i < 26)"
| "key_ok (Digit i) = (i < 10)"
| "key_ok (Cursor i) = (i < 4)"
| "key_ok k = True"

definition letter_codes :: "byte list" where
  "letter_codes = [0x1E, 0x30, 0x2E, 0x20, 0x12, 0x21, 0x22, 0x23, 0x17, 0x24, 0x25, 0x26, 0x32, 0x31, 0x18, 0x19, 0x10, 0x13, 0x1F,
     0x14, 0x16, 0x2F, 0x11, 0x2D, 0x15, 0x2C]"

fun scancode :: "key \<Rightarrow> bool \<times> byte" where
  "scancode (Letter i) = (False, letter_codes ! i)"
| "scancode (Digit i) = (False, if i = 0 then 0x0B else of_nat i + 1)"
| "scancode Enter = (False, 0x1C)"
| "scancode (Cursor i) = (True, [0x48, 0x50, 0x4B, 0x4D] ! i)"
| "scancode LeftShift = (False, 0x2A)"
| "scancode RightShift = (False, 0x36)"
| "scancode LeftCtl = (False, 0x1D)"
| "scancode RightCtl = (True, 0x1D)"
| "scancode LeftAlt = (False, 0x38)"
| "scancode RightAlt = (True, 0x38)"
| "scancode CapsLock = (False, 0x3A)"

fun event_codes :: "key_event \<Rightarrow> byte list" where
  "event_codes (Press k) = (if fst (scancode k) then [0xE0] else []) @ [snd (scancode k)]"
| "event_codes (Release k) = (if fst (scancode k) then [0xE0] else []) @ [snd (scancode k) OR 0x80]"

fun hold_key :: "bool \<Rightarrow> key \<Rightarrow> modifiers \<Rightarrow> modifiers" where
  "hold_key b LeftShift m = m\<lparr>shifted := b\<rparr>"
| "hold_key b RightShift m = m\<lparr>shifted := b\<rparr>"
| "hold_key b LeftCtl m = m\<lparr>control := b\<rparr>"
| "hold_key b RightCtl m = m\<lparr>control := b\<rparr>"
| "hold_key b LeftAlt m = m\<lparr>alt := b\<rparr>"
| "hold_key b RightAlt m = m\<lparr>alt := b\<rparr>"
| "hold_key b CapsLock m = (if b then m\<lparr>caps := \<not> caps m\<rparr> else m)"
| "hold_key b k m = m"

fun key_chars :: "modifiers \<Rightarrow> key \<Rightarrow> int list" where
  "key_chars m (Letter i) = [(if control m then 1 else if shifted m \<noteq> caps m then 65 else 97) + int i]"
| "key_chars m (Digit i) = (if control m then [] else if shifted m then map int [[41, 33, 64, 35, 36, 37, 94, 38, 42, 40] ! i] else [48 + int i])"
| "key_chars m Enter = [if control m then 13 else 10]"
| "key_chars m (Cursor i) = [0xE2 + int i]"
| "key_chars m k = []"

fun key_typed :: "modifiers \<Rightarrow> key_event list \<Rightarrow> int list \<times> modifiers" where
  "key_typed m [] = ([], m)"
| "key_typed m (Press k # es) = (case key_typed (hold_key True k m) es of (cs, m') \<Rightarrow> (key_chars m k @ cs, m'))"
| "key_typed m (Release k # es) = key_typed (hold_key False k m) es"

definition modifiers_of :: "uint \<Rightarrow> modifiers" where
  "modifiers_of w = \<lparr>shifted = bit w 0, control = bit w 1, alt = bit w 2, caps = bit w 3\<rparr>"

text \<open>Several codes in a row: the characters that are not \<open>NO\<close>, and the modifiers.\<close>

fun kcodes :: "uint \<Rightarrow> byte list \<Rightarrow> int list \<times> uint" where
  "kcodes w [] = ([], w)"
| "kcodes w (b # bs) = (case kcode w b of (c, w) \<Rightarrow> case kcodes w bs of (cs, w) \<Rightarrow> ((if c = 0 then cs else c # cs), w))"

lemma kcodes_append: "kcodes w (as @ bs) = (case kcodes w as of (cs, w) \<Rightarrow> case kcodes w bs of (ds, w) \<Rightarrow> (cs @ ds, w))"
  by (induction as arbitrary: w) (simp_all split: prod.splits)

text \<open>The character of a key in each of the three tables, and its flags.\<close>

definition key_row :: "bool \<times> byte \<Rightarrow> int list \<times> uint \<times> uint" where
  "key_row eb = (let d = escaped (fst eb) (snd eb) in
     ([uint (normalmap d), uint (shiftmap d), uint (ctlmap d)], shiftcode d, togglecode d))"

lemmas tables = key_row_def key_code_def normalmap_def shiftmap_def ctlmap_def keymap_def keypad_def shiftcode_def togglecode_def

lemma upto26: "[0..<26] = [0, 1, 2, 3, 4, 5, 6, 7, 8, 9, 10, 11, 12, 13, 14, 15, 16, 17, 18, 19, 20, 21, 22, 23, 24, 25]"
  by code_simp

lemma letter_rows:
  assumes "i < 26"
  shows "key_code (letter_codes ! i) \<and> key_row (False, letter_codes ! i) = ([97 + int i, 65 + int i, 1 + int i], 0, 0)"
proof -
  have "list_all (\<lambda>(i, b). key_code b \<and> key_row (False, b) = ([97 + int i, 65 + int i, 1 + int i], 0, 0)) (zip [0..<26] letter_codes)"
    unfolding letter_codes_def upto26 zip_Cons_Cons list.pred_inject prod.case by (intro conjI; simp add: tables)
  then show ?thesis using assms by (auto simp: list_all_length letter_codes_def)
qed

lemma digit_rows:
  assumes "i < 10"
  shows "key_code (snd (scancode (Digit i))) \<and> key_row (scancode (Digit i)) = ([48 + int i, int ([41, 33, 64, 35, 36, 37, 94, 38, 42, 40] ! i), 0], 0, 0)"
proof -
  have "i \<in> set [0, 1, 2, 3, 4, 5, 6, 7, 8, 9]" using assms by auto
  then show ?thesis by (auto simp: tables)
qed

lemma cursor_rows:
  assumes "i < 4"
  shows "key_code (snd (scancode (Cursor i))) \<and> key_row (scancode (Cursor i)) = ([0xE2 + int i, 0xE2 + int i, 0xE2 + int i], 0, 0)"
proof -
  have "i \<in> set [0, 1, 2, 3]" using assms by auto
  then show ?thesis by (auto simp: tables)
qed

lemma modifier_rows:
  "key_row (scancode Enter) = ([10, 10, 13], 0, 0)"
  "key_row (scancode LeftShift) = ([0, 0, 0], 1, 0)" "key_row (scancode RightShift) = ([0, 0, 0], 1, 0)"
  "key_row (scancode LeftCtl) = ([0, 0, 0], 2, 0)" "key_row (scancode RightCtl) = ([0, 0, 0], 2, 0)"
  "key_row (scancode LeftAlt) = ([0, 0, 0], 4, 0)" "key_row (scancode RightAlt) = ([0, 0, 0], 4, 0)"
  "key_row (scancode CapsLock) = ([0, 0, 0], 0, 8)"
  by (simp_all add: tables)

lemma modifier_codes: "list_all (\<lambda>k. key_code (snd (scancode k))) [Enter, LeftShift, RightShift, LeftCtl, RightCtl, LeftAlt, RightAlt, CapsLock]"
  by (simp add: key_code_def)

text \<open>The scan codes of one event, in terms of the row of its key.\<close>

definition cased :: "bool \<Rightarrow> int \<Rightarrow> int" where
  "cased b c = (if b then (if 97 \<le> c \<and> c \<le> 122 then c - 32 else if 65 \<le> c \<and> c \<le> 90 then c + 32 else c) else c)"

lemma escape_first:
  assumes "\<not> bit w 6"
  obtains v where "kcodes w ((if e then [0xE0] else []) @ bs) = kcodes v bs" "bit v 6 \<longleftrightarrow> e" "\<And>n. n \<noteq> 6 \<Longrightarrow> bit v n \<longleftrightarrow> bit w n"
proof (rule that)
  have or: "bit (w OR E0ESC) n \<longleftrightarrow> bit w n \<or> n = 6" for n unfolding bit_or_iff bit_consts ..
  show "kcodes w ((if e then [0xE0] else []) @ bs) = kcodes (if e then w OR E0ESC else w) bs" by (simp split: prod.splits)
  show "bit (if e then w OR E0ESC else w) 6 \<longleftrightarrow> e" using assms or [of 6] by (cases e) simp_all
  show "bit (if e then w OR E0ESC else w) n \<longleftrightarrow> bit w n" if "n \<noteq> 6" for n using that or [of n] by (cases e) simp_all
qed

lemma press_row:
  assumes "\<not> bit w 6" "key_code b" "key_row (e, b) = ([n, s, c], sc, tc)"
  obtains v where "kcodes w ((if e then [0xE0] else []) @ [b]) =
      (if cased (bit v 3) (if bit v 1 then c else if bit v 0 then s else n) = 0 then []
       else [cased (bit v 3) (if bit v 1 then c else if bit v 0 then s else n)], v)"
    "\<And>k. k < 7 \<Longrightarrow> bit v k \<longleftrightarrow> ((bit w k \<and> k \<noteq> 6) \<or> bit sc k) \<noteq> bit tc k"
proof -
  obtain u where u: "kcodes w ((if e then [0xE0] else []) @ [b]) = kcodes u [b]" "bit u 6 \<longleftrightarrow> e" "\<And>n. n \<noteq> 6 \<Longrightarrow> bit u n \<longleftrightarrow> bit w n"
    using escape_first [OF assms(1), of e "[b]"] by blast
  obtain v where v: "kcode u b = (kchar v (escaped e b), v)"
    "\<And>k. k < 7 \<Longrightarrow> bit v k \<longleftrightarrow> ((bit u k \<and> k \<noteq> 6) \<or> bit (shiftcode (escaped e b)) k) \<noteq> bit (togglecode (escaped e b)) k"
    using kcode_down [OF assms(2), of u] unfolding u(2) by blast
  have d: "uint (normalmap (escaped e b)) = n" "uint (shiftmap (escaped e b)) = s" "uint (ctlmap (escaped e b)) = c"
    "shiftcode (escaped e b) = sc" "togglecode (escaped e b) = tc"
    using assms(3) by (simp_all only: key_row_def Let_def fst_conv snd_conv prod.inject list.inject)
  have "kchar v (escaped e b) = cased (bit v 3) (if bit v 1 then c else if bit v 0 then s else n)"
    unfolding kchar_bits cased_def Let_def if_distrib [of uint] d ..
  then have k: "kcode u b = (cased (bit v 3) (if bit v 1 then c else if bit v 0 then s else n), v)" using v(1) by (simp only:)
  have bits: "bit v k \<longleftrightarrow> ((bit w k \<and> k \<noteq> 6) \<or> bit sc k) \<noteq> bit tc k" if "k < 7" for k
    using v(2) [OF that] u(3) [of k] unfolding d by blast
  show ?thesis by (rule that [OF _ bits]) (simp_all only: u(1) kcodes.simps k prod.case refl split: if_splits)
qed

lemma release_row:
  assumes "\<not> bit w 6" "key_code b" "key_row (e, b) = (cs, sc, tc)"
  obtains v where "kcodes w ((if e then [0xE0] else []) @ [b OR 0x80]) = ([], v)"
    "\<And>k. k < 7 \<Longrightarrow> bit v k \<longleftrightarrow> bit w k \<and> \<not> bit sc k \<and> k \<noteq> 6"
proof -
  obtain u where u: "kcodes w ((if e then [0xE0] else []) @ [b OR 0x80]) = kcodes u [b OR 0x80]" "bit u 6 \<longleftrightarrow> e"
    "\<And>n. n \<noteq> 6 \<Longrightarrow> bit u n \<longleftrightarrow> bit w n" using escape_first [OF assms(1), of e "[b OR 0x80]"] by blast
  obtain v where v: "kcode u (b OR 0x80) = (0, v)"
    "\<And>k. k < 7 \<Longrightarrow> bit v k \<longleftrightarrow> bit u k \<and> \<not> bit (shiftcode (escaped e b)) k \<and> k \<noteq> 6"
    using kcode_up [OF assms(2), of u] unfolding u(2) by blast
  have sc: "shiftcode (escaped e b) = sc" using assms(3) by (simp only: key_row_def Let_def fst_conv snd_conv prod.inject)
  have bits: "bit v k \<longleftrightarrow> bit w k \<and> \<not> bit sc k \<and> k \<noteq> 6" if "k < 7" for k
    using v(2) [OF that] u(3) [of k] unfolding sc by blast
  show ?thesis by (rule that [OF _ bits]) (simp_all only: u(1) kcodes.simps v(1) prod.case refl if_True)
qed

section \<open>Typing\<close>

lemma press_key:
  assumes "\<not> bit w 6" "key_code (snd (scancode k))" "key_row (scancode k) = ([n, s, c], sc, tc)" "\<not> bit sc 6" "\<not> bit tc 6"
    "M = \<lparr>shifted = (bit w 0 \<or> bit sc 0) \<noteq> bit tc 0, control = (bit w 1 \<or> bit sc 1) \<noteq> bit tc 1, alt = (bit w 2 \<or> bit sc 2) \<noteq> bit tc 2,
       caps = (bit w 3 \<or> bit sc 3) \<noteq> bit tc 3\<rparr>"
    "ch = cased (caps M) (if control M then c else if shifted M then s else n)"
  shows "\<exists>v. kcodes w (event_codes (Press k)) = (if ch = 0 then [] else [ch], v) \<and> \<not> bit v 6 \<and> modifiers_of v = M"
proof -
  have "key_row (fst (scancode k), snd (scancode k)) = ([n, s, c], sc, tc)" using assms(3) by simp
  from press_row [OF assms(1,2) this] obtain v where v: "kcodes w (event_codes (Press k)) =
      (if cased (bit v 3) (if bit v 1 then c else if bit v 0 then s else n) = 0 then []
       else [cased (bit v 3) (if bit v 1 then c else if bit v 0 then s else n)], v)"
    "\<And>k. k < 7 \<Longrightarrow> bit v k \<longleftrightarrow> ((bit w k \<and> k \<noteq> 6) \<or> bit sc k) \<noteq> bit tc k" unfolding event_codes.simps by blast
  have M: "modifiers_of v = M" unfolding modifiers_of_def assms(6) using v(2) by simp
  then have "bit v 3 = caps M" "bit v 1 = control M" "bit v 0 = shifted M" by (auto simp: modifiers_of_def)
  then show ?thesis using v M assms(4,5,7) by auto
qed

lemma press_modifier:
  assumes "\<not> bit w 6" "k \<in> {LeftShift, RightShift, LeftCtl, RightCtl, LeftAlt, RightAlt, CapsLock}"
    "key_row (scancode k) = ([0, 0, 0], sc, tc)" "\<not> bit sc 6" "\<not> bit tc 6"
    "M = \<lparr>shifted = (bit w 0 \<or> bit sc 0) \<noteq> bit tc 0, control = (bit w 1 \<or> bit sc 1) \<noteq> bit tc 1, alt = (bit w 2 \<or> bit sc 2) \<noteq> bit tc 2,
       caps = (bit w 3 \<or> bit sc 3) \<noteq> bit tc 3\<rparr>"
  shows "\<exists>v. kcodes w (event_codes (Press k)) = ([], v) \<and> \<not> bit v 6 \<and> modifiers_of v = M"
proof -
  have "key_code (snd (scancode k))" using modifier_codes assms(2) unfolding list.pred_inject by blast
  moreover have "0 = cased (caps M) (if control M then 0 else if shifted M then 0 else 0)" by (simp add: cased_def)
  ultimately show ?thesis using press_key [OF assms(1) _ assms(3-6)] by auto
qed

lemma press_ok:
  assumes "\<not> bit w 6" "key_ok k"
  shows "\<exists>v. kcodes w (event_codes (Press k)) = (key_chars (modifiers_of w) k, v) \<and> \<not> bit v 6
    \<and> modifiers_of v = hold_key True k (modifiers_of w)"
proof (cases k)
  case (Letter i)
  then have r: "key_code (snd (scancode k))" "key_row (scancode k) = ([97 + int i, 65 + int i, 1 + int i], 0, 0)"
    using letter_rows [of i] assms(2) by simp_all
  show ?thesis using press_key [OF assms(1) r _ _ refl refl] Letter assms(2) by (auto simp: cased_def modifiers_of_def)
next
  case (Digit i)
  define h :: nat where "h = [41, 33, 64, 35, 36, 37, 94, 38, 42, 40] ! i"
  have "i \<in> set [0, 1, 2, 3, 4, 5, 6, 7, 8, 9]" using assms(2) Digit by auto
  then have h: "0 < h" "\<not> (97 \<le> h \<and> h \<le> 122)" "\<not> (65 \<le> h \<and> h \<le> 90)" by (auto simp: h_def)
  have r: "key_code (snd (scancode k))" "key_row (scancode k) = ([48 + int i, int h, 0], 0, 0)"
    using digit_rows [of i] assms(2) unfolding Digit h_def by simp_all
  show ?thesis using press_key [OF assms(1) r _ _ refl refl] h assms(2) unfolding Digit
    by (auto simp: cased_def modifiers_of_def h_def [symmetric])
next
  case Enter
  have r: "key_code (snd (scancode k))" "key_row (scancode k) = ([10, 10, 13], 0, 0)"
    using modifier_codes modifier_rows(1) unfolding Enter list.pred_inject by blast+
  show ?thesis using press_key [OF assms(1) r _ _ refl refl] Enter by (auto simp: cased_def modifiers_of_def)
next
  case (Cursor i)
  then have r: "key_code (snd (scancode k))" "key_row (scancode k) = ([0xE2 + int i, 0xE2 + int i, 0xE2 + int i], 0, 0)"
    using cursor_rows [of i] assms(2) by simp_all
  show ?thesis using press_key [OF assms(1) r _ _ refl refl] Cursor assms(2) by (auto simp: cased_def modifiers_of_def)
next
  case LeftShift
  show ?thesis unfolding LeftShift key_chars.simps hold_key.simps
    by (rule press_modifier [OF assms(1) _ modifier_rows(2)]) (simp_all add: modifiers_of_def bit_consts)
next
  case RightShift
  show ?thesis unfolding RightShift key_chars.simps hold_key.simps
    by (rule press_modifier [OF assms(1) _ modifier_rows(3)]) (simp_all add: modifiers_of_def bit_consts)
next
  case LeftCtl
  show ?thesis unfolding LeftCtl key_chars.simps hold_key.simps
    by (rule press_modifier [OF assms(1) _ modifier_rows(4)]) (simp_all add: modifiers_of_def bit_consts)
next
  case RightCtl
  show ?thesis unfolding RightCtl key_chars.simps hold_key.simps
    by (rule press_modifier [OF assms(1) _ modifier_rows(5)]) (simp_all add: modifiers_of_def bit_consts)
next
  case LeftAlt
  show ?thesis unfolding LeftAlt key_chars.simps hold_key.simps
    by (rule press_modifier [OF assms(1) _ modifier_rows(6)]) (simp_all add: modifiers_of_def bit_consts)
next
  case RightAlt
  show ?thesis unfolding RightAlt key_chars.simps hold_key.simps
    by (rule press_modifier [OF assms(1) _ modifier_rows(7)]) (simp_all add: modifiers_of_def bit_consts)
next
  case CapsLock
  show ?thesis unfolding CapsLock key_chars.simps hold_key.simps
    by (rule press_modifier [OF assms(1) _ modifier_rows(8)]) (simp_all add: modifiers_of_def bit_consts)
qed

lemma release_key:
  assumes "\<not> bit w 6" "key_code (snd (scancode k))" "key_row (scancode k) = (cs, sc, tc)"
    "M = \<lparr>shifted = bit w 0 \<and> \<not> bit sc 0, control = bit w 1 \<and> \<not> bit sc 1, alt = bit w 2 \<and> \<not> bit sc 2, caps = bit w 3 \<and> \<not> bit sc 3\<rparr>"
  shows "\<exists>v. kcodes w (event_codes (Release k)) = ([], v) \<and> \<not> bit v 6 \<and> modifiers_of v = M"
proof -
  have "key_row (fst (scancode k), snd (scancode k)) = (cs, sc, tc)" using assms(3) by simp
  from release_row [OF assms(1,2) this] obtain v where v: "kcodes w (event_codes (Release k)) = ([], v)"
    "\<And>k. k < 7 \<Longrightarrow> bit v k \<longleftrightarrow> bit w k \<and> \<not> bit sc k \<and> k \<noteq> 6" unfolding event_codes.simps by blast
  have "modifiers_of v = M" unfolding modifiers_of_def assms(4) using v(2) by simp
  then show ?thesis using v by auto
qed

lemma release_ok:
  assumes "\<not> bit w 6" "key_ok k"
  shows "\<exists>v. kcodes w (event_codes (Release k)) = ([], v) \<and> \<not> bit v 6 \<and> modifiers_of v = hold_key False k (modifiers_of w)"
proof -
  have same: "hold_key False k (modifiers_of w) = \<lparr>shifted = bit w 0 \<and> \<not> bit (0 :: uint) 0, control = bit w 1 \<and> \<not> bit (0 :: uint) 1,
      alt = bit w 2 \<and> \<not> bit (0 :: uint) 2, caps = bit w 3 \<and> \<not> bit (0 :: uint) 3\<rparr>" if "hold_key False k (modifiers_of w) = modifiers_of w"
    using that by (simp add: modifiers_of_def)
  note rel = release_key [OF assms(1), of k]
  note codes = modifier_codes [unfolded list.pred_inject]
  show ?thesis
  proof (cases k)
    case (Letter i)
    show ?thesis using letter_rows [of i] assms(2) unfolding Letter by (intro rel [unfolded Letter, OF _ _ same [unfolded Letter]]) simp_all
  next
    case (Digit i)
    show ?thesis using digit_rows [of i] assms(2) unfolding Digit by (intro rel [unfolded Digit, OF _ _ same [unfolded Digit]]) simp_all
  next
    case (Cursor i)
    show ?thesis using cursor_rows [of i] assms(2) unfolding Cursor by (intro rel [unfolded Cursor, OF _ _ same [unfolded Cursor]]) simp_all
  next
    case Enter
    show ?thesis using codes unfolding Enter by (intro rel [unfolded Enter, OF _ modifier_rows(1) same [unfolded Enter]]) simp_all
  next
    case LeftShift
    show ?thesis using codes unfolding LeftShift hold_key.simps
      by (intro release_key [OF assms(1) _ modifier_rows(2)]) (simp_all add: modifiers_of_def bit_consts)
  next
    case RightShift
    show ?thesis using codes unfolding RightShift hold_key.simps
      by (intro release_key [OF assms(1) _ modifier_rows(3)]) (simp_all add: modifiers_of_def bit_consts)
  next
    case LeftCtl
    show ?thesis using codes unfolding LeftCtl hold_key.simps
      by (intro release_key [OF assms(1) _ modifier_rows(4)]) (simp_all add: modifiers_of_def bit_consts)
  next
    case RightCtl
    show ?thesis using codes unfolding RightCtl hold_key.simps
      by (intro release_key [OF assms(1) _ modifier_rows(5)]) (simp_all add: modifiers_of_def bit_consts)
  next
    case LeftAlt
    show ?thesis using codes unfolding LeftAlt hold_key.simps
      by (intro release_key [OF assms(1) _ modifier_rows(6)]) (simp_all add: modifiers_of_def bit_consts)
  next
    case RightAlt
    show ?thesis using codes unfolding RightAlt hold_key.simps
      by (intro release_key [OF assms(1) _ modifier_rows(7)]) (simp_all add: modifiers_of_def bit_consts)
  next
    case CapsLock
    show ?thesis using codes unfolding CapsLock hold_key.simps
      by (intro release_key [OF assms(1) _ modifier_rows(8)]) (simp_all add: modifiers_of_def bit_consts)
  qed
qed

lemma kcodes_typed:
  assumes "\<not> bit w 6" "list_all (\<lambda>e. case e of Press k \<Rightarrow> key_ok k | Release k \<Rightarrow> key_ok k) es"
  shows "\<exists>v. kcodes w (concat (map event_codes es)) = (fst (key_typed (modifiers_of w) es), v) \<and> \<not> bit v 6
    \<and> modifiers_of v = snd (key_typed (modifiers_of w) es)"
  using assms
proof (induction es arbitrary: w)
  case (Cons e es)
  define cs where "cs = (case e of Press k \<Rightarrow> key_chars (modifiers_of w) k | Release k \<Rightarrow> [])"
  define M where "M = (case e of Press k \<Rightarrow> hold_key True k (modifiers_of w) | Release k \<Rightarrow> hold_key False k (modifiers_of w))"
  obtain u where u: "kcodes w (event_codes e) = (cs, u)" "\<not> bit u 6" "modifiers_of u = M"
    using press_ok [OF Cons.prems(1)] release_ok [OF Cons.prems(1)] Cons.prems(2) by (cases e) (auto simp: cs_def M_def simp del: event_codes.simps)
  obtain v where v: "kcodes u (concat (map event_codes es)) = (fst (key_typed M es), v)" "\<not> bit v 6" "modifiers_of v = snd (key_typed M es)"
    using Cons.IH [OF u(2)] Cons.prems(2) u(3) by auto
  have "key_typed (modifiers_of w) (e # es) = (cs @ fst (key_typed M es), snd (key_typed M es))"
    by (cases e) (simp_all add: cs_def M_def split: prod.split)
  then show ?case using u(1) v by (simp add: kcodes_append)
qed simp

text \<open>
  The keyboard controller has the codes \<open>bs\<close> in its buffer and nothing after them; the console reads keys until there
  is none, and drops those that are \<open>NO\<close>.
\<close>

definition has_codes :: "byte list \<Rightarrow> 'z io_state_scheme \<Rightarrow> bool" where
  "has_codes bs s \<longleftrightarrow> (\<forall>n < length bs. in_port s 0x64 n AND 1 \<noteq> 0 \<and> in_port s 0x60 n = bs ! n) \<and> in_port s 0x64 (length bs) AND 1 = 0"

fun read_keys :: "nat \<Rightarrow> ('z io_state_scheme, int list) kfun" where
  "read_keys 0 = ret []"
| "read_keys (Suc n) = mbind kbdgetc (\<lambda>c. if c < 0 then ret [] else mbind (read_keys n) (\<lambda>cs. ret (if c = 0 then cs else c # cs)))"

lemma kcode_nonneg: "0 \<le> fst (kcode w b)"
proof -
  have "0 \<le> uint c" for c :: byte by simp
  then show ?thesis by (auto simp: kcode_def kchar_def Let_def)
qed

lemma has_codes_Cons:
  assumes "has_codes (b # bs) s"
  shows "in_port s 0x64 0 AND 1 \<noteq> 0" "in_port s 0x60 0 = b" "has_codes bs ((next_read 0x60 (next_read 0x64 s))\<lparr>shift := w\<rparr>)"
  using assms by (auto simp: has_codes_def next_read_def All_less_Suc2)

lemma read_keys_codes:
  assumes "has_codes bs s" "length bs < n"
  shows "\<exists>t. read_keys n s = Ret (fst (kcodes (shift s) bs)) t \<and> shift t = snd (kcodes (shift s) bs)"
  using assms
proof (induction bs arbitrary: s n)
  case Nil
  then show ?case by (cases n) (simp_all add: has_codes_def kbdgetc_empty next_read_def)
next
  case (Cons b bs)
  obtain m where m: "n = Suc m" "length bs < m" using Cons.prems(2) by (cases n) auto
  obtain c w where cw: "kcode (shift s) b = (c, w)" by fastforce
  have "0 \<le> c" using kcode_nonneg [of "shift s" b] cw by simp
  note h = has_codes_Cons [OF Cons.prems(1)]
  obtain cs v where v: "kcodes w bs = (cs, v)" by fastforce
  show ?case using Cons.IH [OF h(3) m(2), of w] \<open>0 \<le> c\<close> by (auto simp: m(1) kbdgetc_code [OF h(1)] h(2) cw v)
qed


text \<open>Shift is held for the first letter and the digit, then a cursor key: \<open>H\<close>, \<open>!\<close>, \<open>i\<close> and the code of the key.\<close>

definition ex_events :: "key_event list" where
  "ex_events = [Press LeftShift, Press (Letter 7), Release (Letter 7), Press (Digit 1), Release LeftShift, Press (Letter 8), Press (Cursor 0)]"

definition ex_kbd :: io_state where
  "ex_kbd = \<lparr>in_port = (\<lambda>p n. if p = 0x60 then [0x2A, 0x23, 0xA3, 0x02, 0xAA, 0x17, 0xE0, 0x48] ! n else if n < 8 then 1 else 0),
     in_word = (\<lambda>_ _. 0), in_mmio = (\<lambda>_ _. 0), outs = [], lapic = 0, uart = False, shift = 0, crt = (\<lambda>_. 0)\<rparr>"

lemma ex_codes: "concat (map event_codes ex_events) = [0x2A, 0x23, 0xA3, 0x02, 0xAA, 0x17, 0xE0, 0x48]"
  by (simp add: ex_events_def letter_codes_def)


end
