(* ===== verification/Digits.thy ===== *)
theory Digits
  imports Prelude
begin

text \<open>
  Conversion of integers to text and back. \<open>printint\<close> exists twice in the program, in \<open>console.c\<close> for the
  kernel and in \<open>printf.c\<close> for user programs, with tables of lower and upper case digits; both fill a buffer
  from the least significant digit and print it backwards. \<open>atoi\<close> is in \<open>ulib.c\<close>.
\<close>

definition digits_lower :: "byte list" where
  "digits_lower = map of_char ''0123456789abcdef''"

definition digits_upper :: "byte list" where
  "digits_upper = map of_char ''0123456789ABCDEF''"

text \<open>The \<open>do ... while\<close> loop. Its callers give base 10 or 16; bases below 2 have no meaning.\<close>

function int_buf :: "byte list \<Rightarrow> nat \<Rightarrow> nat \<Rightarrow> byte list" where
  "int_buf digits base x =
     digits ! (x mod base) # (if base < 2 \<or> x div base = 0 then [] else int_buf digits base (x div base))"
  by pat_completeness auto
termination
  by (relation "measure (\<lambda>(_, _, x). x)") (auto simp: div_eq_0_iff intro!: div_less_dividend)

declare int_buf.simps [simp del]

definition printint_buf :: "byte list \<Rightarrow> uint \<Rightarrow> nat \<Rightarrow> bool \<Rightarrow> byte list" where
  "printint_buf digits xx base sign =
     (let neg = sign \<and> sint xx < 0; x = (if neg then - xx else xx) in
      int_buf digits base (unat x) @ (if neg then [45] else []))"

text \<open>The characters in the order in which they are printed.\<close>

definition printint_chars :: "byte list \<Rightarrow> uint \<Rightarrow> nat \<Rightarrow> bool \<Rightarrow> byte list" where
  "printint_chars digits xx base sign = rev (printint_buf digits xx base sign)"

text \<open>
  The loop of \<open>atoi\<close> computes \<open>n*10 + *s++ - '0'\<close> with signed integers, from left to right. An overflow, whose
  result C leaves undefined, is \<open>None\<close>.
\<close>

fun atoi_from :: "int \<Rightarrow> byte list \<Rightarrow> int option" where
  "atoi_from n [] = Some n"
| "atoi_from n (c # cs) =
     (if 48 \<le> c \<and> c \<le> 57 then
        if n * 10 + uint c < 2 ^ 31 then atoi_from (n * 10 + uint c - 48) cs else None
      else Some n)"

definition atoi :: "byte list \<Rightarrow> int option" where
  "atoi cs = atoi_from 0 cs"

section \<open>Properties\<close>

definition decimal :: "byte list \<Rightarrow> bool" where
  "decimal ds \<longleftrightarrow> list_all (\<lambda>d. ds ! d = of_nat (48 + d)) [0..<10]"

lemma decimal_tables [simp]: "decimal digits_lower" "decimal digits_upper"
  by code_simp+

lemma decimal_nth: "decimal ds \<Longrightarrow> d < 10 \<Longrightarrow> ds ! d = of_nat (48 + d)"
  by (auto simp: decimal_def list_all_iff)

definition is_digit :: "byte \<Rightarrow> bool" where
  "is_digit c \<longleftrightarrow> 48 \<le> c \<and> c \<le> 57"

lemma digit_char:
  assumes "d < 10"
  shows "is_digit (of_nat (48 + d))" "uint (of_nat (48 + d) :: byte) = int (48 + d)"
proof -
  have "d \<in> {0, 1, 2, 3, 4, 5, 6, 7, 8, 9}" using assms by auto
  then show "is_digit (of_nat (48 + d))" "uint (of_nat (48 + d) :: byte) = int (48 + d)"
    by (auto simp: is_digit_def)
qed

lemma atoi_from_append:
  "list_all is_digit xs \<Longrightarrow> atoi_from n (xs @ ys) = Option.bind (atoi_from n xs) (\<lambda>m. atoi_from m ys)"
  by (induction n xs rule: atoi_from.induct) (auto simp: is_digit_def)

lemma int_buf_digits: "decimal ds \<Longrightarrow> list_all is_digit (int_buf ds 10 x)"
proof (induction ds "10 :: nat" x rule: int_buf.induct)
  case (1 ds x)
  then show ?case using digit_char(1) [of "x mod 10"] by (subst int_buf.simps) (simp add: decimal_nth)
qed

text \<open>The last step of the loop overflows when the number is within 48 of the limit, because \<open>'0'\<close> is subtracted last.\<close>

lemma atoi_int_buf:
  assumes "x < 2 ^ 32"
  shows "decimal ds \<Longrightarrow> atoi_from 0 (rev (int_buf ds 10 x)) = (if x + 48 < 2 ^ 31 then Some (int x) else None)"
  using assms
proof (induction ds "10 :: nat" x rule: int_buf.induct)
  case (1 ds x)
  have last: "atoi_from n [ds ! (x mod 10)] = (if n * 10 + int (x mod 10) + 48 < 2 ^ 31 then Some (n * 10 + int (x mod 10)) else None)" for n
    using digit_char [of "x mod 10"] decimal_nth [OF 1(2), of "x mod 10"] by (simp add: is_digit_def add.commute)
  show ?case
  proof (cases "x div 10 = 0")
    case True
    then have "x mod 10 = x" "x < 10" by (simp_all add: div_eq_0_iff)
    then show ?thesis using True last [of 0] by (subst int_buf.simps) simp
  next
    case False
    have x: "int x = int (x div 10) * 10 + int (x mod 10)" by presburger
    have "x div 10 + 48 < 2 ^ 31" "x div 10 < 2 ^ 32" using 1(3) by auto
    then have "atoi_from 0 (rev (int_buf ds 10 (x div 10))) = Some (int (x div 10))" using False 1 by simp
    then show ?thesis using False last [of "int (x div 10)"] int_buf_digits [OF 1(2), of "x div 10"] x
      by (subst int_buf.simps) (auto simp: atoi_from_append simp del: of_nat_mod of_nat_div)
  qed
qed

lemma length_int_buf: "1 < b \<Longrightarrow> x < b ^ Suc k \<Longrightarrow> length (int_buf ds b x) \<le> Suc k"
proof (induction k arbitrary: x)
  case 0
  then show ?case by (subst int_buf.simps) simp
next
  case (Suc k)
  have "x div b < b ^ Suc k" using Suc.prems by (simp add: less_mult_imp_div_less mult.commute)
  then show ?case using Suc by (subst int_buf.simps) simp
qed

lemma unat_word_of_int: "0 \<le> k \<Longrightarrow> k < 2 ^ 32 \<Longrightarrow> unat (word_of_int k :: uint) = nat k"
  by (simp add: unat_eq_nat_uint uint_word_of_int)

lemma printint_signed:
  "printint_chars ds x 10 True =
     (if sint x < 0 then 45 # rev (int_buf ds 10 (nat (- sint x))) else rev (int_buf ds 10 (nat (sint x))))"
proof (cases "sint x < 0")
  case True
  have "- x = word_of_int (- sint x)" by simp
  then have "unat (- x) = nat (- sint x)" using unat_word_of_int [of "- sint x"] True sint_ge [of x] by simp
  then show ?thesis using True by (simp add: printint_chars_def printint_buf_def)
next
  case False
  have "x = word_of_int (sint x)" by simp
  then have "unat x = nat (sint x)" using unat_word_of_int [of "sint x"] False sint_lt [of x] by simp
  then show ?thesis using False by (simp add: printint_chars_def printint_buf_def)
qed

text \<open>
  C37: \<open>atoi\<close> and what \<open>printint\<close> prints for \<open>%d\<close>, with the kernel's table of digits and with the one of the user library. A
  number that is not negative is read back, unless it is so large that \<open>atoi\<close> overflows on its way to it. For a
  negative number \<open>printint\<close> prints a minus sign and then the digits of its absolute value, which \<open>atoi\<close> reads back;
  \<open>atoi\<close> does not know the sign and gives 0 for the whole.
\<close>

theorem atoi_printint:
  assumes "ds = digits_lower \<or> ds = digits_upper"
  shows "if 0 \<le> sint x then atoi (printint_chars ds x 10 True) = (if sint x < 2 ^ 31 - 48 then Some (sint x) else None)
    else \<exists>cs. printint_chars ds x 10 True = 45 # cs \<and> atoi (45 # cs) = Some 0 \<and>
      atoi cs = (if - sint x < 2 ^ 31 - 48 then Some (- sint x) else None)"
proof -
  have d: "decimal ds" using assms by auto
  have s: "sint x < 2 ^ 31" "- (2 ^ 31) \<le> sint x" using sint_lt [of x] sint_ge [of x] by simp_all
  have a: "atoi (rev (int_buf ds 10 (nat n))) = (if n < 2 ^ 31 - 48 then Some n else None)" if "0 \<le> n" "n \<le> 2 ^ 31" for n :: int
    using atoi_int_buf [of "nat n" ds] d that by (auto simp: atoi_def)
  show ?thesis using a [of "sint x"] a [of "- sint x"] s by (auto simp: printint_signed atoi_def)
qed

theorem atoi_printint_witness:
  "atoi (printint_chars digits_lower 2026 10 True) = Some 2026"
  using atoi_printint [of digits_lower 2026] by simp

text \<open>
  C40: \<open>printint\<close> never writes past its buffer of 16 characters, for the two bases it is called with, with and
  without sign: it stores at most 10 or 8 digits and a minus sign.
\<close>

theorem printint_buf_fits:
  "length (printint_buf ds x 10 sign) \<le> 11 \<and> length (printint_buf ds x 16 sign) \<le> 9"
proof -
  have u: "unat y < 10 ^ Suc 9" "unat y < 16 ^ Suc 7" for y :: uint
    using unsigned_less [of y, where ?'a = nat] by simp_all
  have "length (int_buf ds 10 (unat y)) \<le> 10" "length (int_buf ds 16 (unat y)) \<le> 8" for y :: uint
    using length_int_buf [OF _ u(1) [of y], of ds] length_int_buf [OF _ u(2) [of y], of ds] by simp_all
  from this [of x] this [of "- x"] show ?thesis by (auto simp: printint_buf_def Let_def)
qed

end
