(* ===== verification/Ps.thy ===== *)
theory Ps
  imports Proc
begin

text \<open>
  The routines of \<open>proc.c\<close> that print the process table: \<open>procdump\<close> (control-P on the console), \<open>getps\<close>,
  \<open>printinfo\<close> and \<open>sys_threadinfo\<close>; and \<open>getcallerpcs\<close> of \<open>spinlock.c\<close>, the stack trace \<open>procdump\<close> prints.
\<close>

fun callerpcs :: "mem \<Rightarrow> uint \<Rightarrow> nat \<Rightarrow> uint list" where
  "callerpcs m ebp 0 = []"
| "callerpcs m ebp (Suc n) =
     (if ebp = 0 \<or> ebp < KERNBASE \<or> ebp = 0xffffffff then replicate (Suc n) 0
      else load32 m (ebp + 4) # callerpcs m (load32 m ebp) n)"

definition getcallerpcs :: "mem \<Rightarrow> uint \<Rightarrow> uint list" where
  "getcallerpcs m v = callerpcs m (v - 8) 10"

fun state_name :: "procstate \<Rightarrow> string" where
  "state_name UNUSED = ''unused''"
| "state_name EMBRYO = ''embryo''"
| "state_name SLEEPING = ''sleep ''"
| "state_name RUNNABLE = ''runble''"
| "state_name RUNNING = ''run   ''"
| "state_name ZOMBIE = ''zombie''"

text \<open>The \<open>ebp\<close> field of a saved context is at offset 12. The stack trace ends at the first zero.\<close>

definition procdump :: "('z pstate_scheme, unit) kfun" where
  "procdump =
     mbind (gets (\<lambda>s. length (procs s))) (\<lambda>n.
     mforeach [0..<n] (\<lambda>p.
       mbind (getp p) (\<lambda>pr.
       if state pr = UNUSED then ret () else
       mbind (cprintf ''%d %s %s'' [Num (pid pr), Str (map of_char (state_name (state pr))), Str (pname pr)]) (\<lambda>_.
       mbind (if state pr = SLEEPING then
           mbind (gets (\<lambda>s. getcallerpcs (mem s) (load32 (mem s) (pcontext pr + 12) + 8))) (\<lambda>pc.
           mforeach (takeWhile (\<lambda>a. a \<noteq> 0) pc) (\<lambda>a. cprintf '' %p'' [Num (uint a)]))
         else ret ()) (\<lambda>_.
       cprintf [CHR 0x0A] [])))))"

text \<open>
  One line of \<open>getps\<close>. The waiting time of a process that has not ended is computed from \<open>ticks\<close>, an
  unsigned variable, that of a zombie from the signed fields only.
\<close>

fun ps_label :: "procstate \<Rightarrow> string option" where
  "ps_label SLEEPING = Some ''SLEEPING''"
| "ps_label RUNNING = Some ''RUNNING ''"
| "ps_label RUNNABLE = Some ''RUNNABLE''"
| "ps_label ZOMBIE = Some '' ZOMBIE''"
| "ps_label _ = None"

definition ps_wtime :: "uint \<Rightarrow> proc \<Rightarrow> int" where
  "ps_wtime now p =
     (if state p = ZOMBIE then etime p - ctime p - rtime p - iotime p
      else sint (now - word_of_int (ctime p) - word_of_int (rtime p) - word_of_int (iotime p)))"

definition ps_args :: "policy \<Rightarrow> uint \<Rightarrow> proc \<Rightarrow> int list" where
  "ps_args pol now p =
     [pid p, rtime p, ps_wtime now p, iotime p] @
     (if pol = MLFQ then (if state p = ZOMBIE then -1 else pqueue p) # map (\<lambda>i. qticks p ! i) [0..<5] else [])"

definition getps :: "('z pstate_scheme, int) kfun" where
  "getps =
     mbind (acquire PtableLk) (\<lambda>_.
     mbind (gets policy) (\<lambda>pol.
     mbind (if pol \<noteq> MLFQ then cprintf ''PID   State  r_time w_time s_time'' []
            else cprintf ''PID   State  r_time w_time s_time cur_q q0 q1 q2 q3 q4'' []) (\<lambda>_.
     mbind (gets (\<lambda>s. length (procs s))) (\<lambda>n.
     mbind (mforeach [0..<n] (\<lambda>p.
       mbind (getp p) (\<lambda>pr.
       if pid pr \<ge> 3 then
         (case ps_label (state pr) of
            None \<Rightarrow> ret ()
          | Some l \<Rightarrow> mbind (gets ticks) (\<lambda>now. cprintf l (map Num (ps_args pol now pr))))
       else ret ()))) (\<lambda>_.
     mbind (release PtableLk) (\<lambda>_.
     ret (-1)))))))"

text \<open>\<open>p->tf->esp\<close> is at offset 68 of the trap frame.\<close>

definition printinfo :: "nat \<Rightarrow> ('z pstate_scheme, int) kfun" where
  "printinfo p =
     mbind (getp p) (\<lambda>pr.
     mbind (cprintf ''PID : %d'' [Num (tgid pr)]) (\<lambda>_.
     mbind (cprintf ''TID : %d'' [Num (pid pr)]) (\<lambda>_.
     mbind (cprintf ''Page Directory Address: %p'' [Num (uint (pgdir pr))]) (\<lambda>_.
     mbind (gets (\<lambda>s. load32 (mem s) (tf pr + 68))) (\<lambda>esp.
     mbind (cprintf ''Stack Pointer Value: %p'' [Num (uint esp)]) (\<lambda>_.
     mbind (cprintf ''Start Function Address: %p'' [Num (uint (tfunction pr))]) (\<lambda>_.
     mbind (cprintf ''Memory Size: %d bytes'' [Num (sint (sz pr))]) (\<lambda>_.
     ret 0))))))))"

definition sys_threadinfo :: "('z pstate_scheme, int) kfun" where
  "sys_threadinfo =
     mbind myproc (\<lambda>r.
     mbind (deref r) (\<lambda>p.
     mbind (getp p) (\<lambda>pr.
     mbind (cprintf ''PID : %d'' [Num (tgid pr)]) (\<lambda>_.
     mbind (cprintf ''TID : %d'' [Num (pid pr)]) (\<lambda>_.
     mbind (cprintf ''Page Directory Address : %p'' [Num (uint (pgdir pr))]) (\<lambda>_.
     mbind (gets (\<lambda>s. load32 (mem s) (tf pr + 68))) (\<lambda>esp.
     mbind (cprintf ''Stack Pointer Value : %p'' [Num (uint esp)]) (\<lambda>_.
     mbind (cprintf ''Statr Function Address : %p'' [Num (uint (tfunction pr))]) (\<lambda>_.
     mbind (cprintf ''Memory Size : %d bytes'' [Num (sint (sz pr))]) (\<lambda>_.
     ret 0))))))))))"

end
