(* ===== verification/Console.thy ===== *)
theory Console
  imports Inode Uart Kbd Digits Ps
begin

text \<open>
  Model of \<open>console.c\<close>: formatted output to the screen and the serial port, the line editor fed by the
  keyboard and serial interrupts, and the console as a device file. \<open>cons\<close> and \<open>input\<close> are the fields of
  \<open>con_state\<close>.

  \<open>cprintf_run\<close> is the body of \<open>cprintf\<close>; elsewhere in the kernel's model a call of \<open>cprintf\<close> is recorded
  with its format, without tabs and newlines, and its arguments. A process that waits for input sleeps
  inside \<open>consoleread\<close>; \<open>consoleread_loop\<close> is the part it runs with the lock held, again when it is resumed.
\<close>

section \<open>State\<close>

record con_state = fs_state +
  panicked :: bool
  cons_locking :: bool
  input_buf :: "byte list"
  input_r :: uint
  input_w :: uint
  input_e :: uint

abbreviation BACKSPACE :: int where "BACKSPACE \<equiv> 0x100"
abbreviation CRTPORT :: ushort where "CRTPORT \<equiv> 0x3d4"
abbreviation INPUT_BUF :: uint where "INPUT_BUF \<equiv> 128"

section \<open>Output\<close>

text \<open>Cells \<open>80..1919\<close> of the screen move up one row, and the rest of the last row is cleared.\<close>

definition scroll_up :: "nat \<Rightarrow> (nat \<Rightarrow> ushort) \<Rightarrow> nat \<Rightarrow> ushort" where
  "scroll_up pos c = (\<lambda>i. if pos \<le> i \<and> i < 24 * 80 then 0 else if i < 23 * 80 then c (i + 80) else c i)"

definition cgaputc :: "int \<Rightarrow> ('z io_state_scheme, unit) kfun" where
  "cgaputc c =
     mbind (outb CRTPORT 14) (\<lambda>_.
     mbind (inb (CRTPORT + 1)) (\<lambda>hi.
     mbind (outb CRTPORT 15) (\<lambda>_.
     mbind (inb (CRTPORT + 1)) (\<lambda>lo.
     let pos = unat hi * 256 + unat lo in
     mbind (if c = 10 then ret (pos + (80 - pos mod 80))
            else if c = BACKSPACE then ret (if pos > 0 then pos - 1 else pos)
            else mbind (modify (\<lambda>s. s\<lparr>crt := (crt s)(pos := word_of_int c AND 0xff OR 0x0700)\<rparr>)) (\<lambda>_.
                 ret (pos + 1))) (\<lambda>pos.
     if pos > 25 * 80 then panic ''pos under/overflow'' else
     mbind (if pos div 80 \<ge> 24 then
              mbind (modify (\<lambda>s. s\<lparr>crt := scroll_up (pos - 80) (crt s)\<rparr>)) (\<lambda>_. ret (pos - 80))
            else ret pos) (\<lambda>pos.
     mbind (outb CRTPORT 14) (\<lambda>_.
     mbind (outb (CRTPORT + 1) (of_nat (pos div 256))) (\<lambda>_.
     mbind (outb CRTPORT 15) (\<lambda>_.
     mbind (outb (CRTPORT + 1) (of_nat pos)) (\<lambda>_.
     modify (\<lambda>s. s\<lparr>crt := (crt s)(pos := 0x0720)\<rparr>)))))))))))"

text \<open>After a panic on another processor, \<open>consputc\<close> never returns.\<close>

definition consputc :: "int \<Rightarrow> ('z con_state_scheme, unit) kfun" where
  "consputc c =
     mbind (gets panicked) (\<lambda>b.
     if b then mbind cli (\<lambda>_. stuck) else
     mbind (if c = BACKSPACE then
              mbind (lift_io (uartputc 8)) (\<lambda>_.
              mbind (lift_io (uartputc 32)) (\<lambda>_.
              lift_io (uartputc 8)))
            else lift_io (uartputc c)) (\<lambda>_.
     lift_io (cgaputc c)))"

definition printint :: "uint \<Rightarrow> nat \<Rightarrow> bool \<Rightarrow> ('z con_state_scheme, unit) kfun" where
  "printint xx base sign = mforeach (printint_chars digits_lower xx base sign) (\<lambda>b. consputc (sint b))"

text \<open>
  The loop of \<open>cprintf\<close> over the characters of the format. An argument is a number or a string; reading past
  the last argument, or a number as a string, is undefined.
\<close>

fun cprintf_loop :: "byte list \<Rightarrow> fmtarg list \<Rightarrow> ('z con_state_scheme, unit) kfun" where
  "cprintf_loop [] args = ret ()"
| "cprintf_loop [c] args = (if c \<noteq> 37 then consputc (uint c) else ret ())"
| "cprintf_loop (c # d # fmt) args =
     (if c \<noteq> 37 then mbind (consputc (uint c)) (\<lambda>_. cprintf_loop (d # fmt) args)
      else if d = 100 then
        (case args of Num n # args \<Rightarrow> mbind (printint (word_of_int n) 10 True) (\<lambda>_. cprintf_loop fmt args)
                    | _ \<Rightarrow> undef ''cprintf argument'')
      else if d = 120 \<or> d = 112 then
        (case args of Num n # args \<Rightarrow> mbind (printint (word_of_int n) 16 False) (\<lambda>_. cprintf_loop fmt args)
                    | _ \<Rightarrow> undef ''cprintf argument'')
      else if d = 115 then
        (case args of Str t # args \<Rightarrow> mbind (mforeach t (\<lambda>b. consputc (sint b))) (\<lambda>_. cprintf_loop fmt args)
                    | Num n # args \<Rightarrow>
                        (if n = 0 then mbind (mforeach (map of_char ''(null)'') consputc) (\<lambda>_. cprintf_loop fmt args)
                         else undef ''cprintf argument'')
                    | [] \<Rightarrow> undef ''cprintf argument'')
      else if d = 37 then mbind (consputc 37) (\<lambda>_. cprintf_loop fmt args)
      else
        mbind (consputc 37) (\<lambda>_.
        mbind (consputc (uint d)) (\<lambda>_.
        cprintf_loop fmt args)))"

definition cprintf_run :: "byte list option \<Rightarrow> fmtarg list \<Rightarrow> ('z con_state_scheme, unit) kfun" where
  "cprintf_run fmt args =
     mbind (gets cons_locking) (\<lambda>locking.
     mbind (if locking then acquire ConsLk else ret ()) (\<lambda>_.
     case fmt of
       None \<Rightarrow> panic ''null fmt''
     | Some f \<Rightarrow>
         mbind (cprintf_loop f args) (\<lambda>_.
         if locking then release ConsLk else ret ())))"

text \<open>\<open>panic\<close> up to its endless loop. \<open>v\<close> is the address of its argument on the stack.\<close>

definition panic_run :: "string \<Rightarrow> uint \<Rightarrow> ('z con_state_scheme, unit) kfun" where
  "panic_run msg v =
     mbind cli (\<lambda>_.
     mbind (modify (\<lambda>s. s\<lparr>cons_locking := False\<rparr>)) (\<lambda>_.
     mbind (gets lapicid) (\<lambda>me.
     mbind (cprintf_run (Some (map of_char ''lapicid %d: panic: '')) [Num (uint me)]) (\<lambda>_.
     mbind (cprintf_run (Some (map of_char msg)) []) (\<lambda>_.
     mbind (cprintf_run (Some [10]) []) (\<lambda>_.
     mbind (gets (\<lambda>s. getcallerpcs (mem s) v)) (\<lambda>pcs.
     mbind (mforeach pcs (\<lambda>pc. cprintf_run (Some (map of_char '' %p'')) [Num (uint pc)])) (\<lambda>_.
     modify (\<lambda>s. s\<lparr>panicked := True\<rparr>)))))))))"

section \<open>Line editing\<close>

definition buf_at :: "uint \<Rightarrow> ('z con_state_scheme, byte) kfun" where
  "buf_at i = gets (\<lambda>s. input_buf s ! unat (i mod INPUT_BUF))"

text \<open>The loop of control-U erases at most the \<open>n\<close> characters between \<open>w\<close> and \<open>e\<close>.\<close>

fun kill_line :: "nat \<Rightarrow> ('z con_state_scheme, unit) kfun" where
  "kill_line 0 = ret ()"
| "kill_line (Suc n) =
     mbind (gets input_e) (\<lambda>e.
     mbind (buf_at (e - 1)) (\<lambda>c.
     if c = 10 then ret () else
     mbind (modify (\<lambda>s. s\<lparr>input_e := input_e s - 1\<rparr>)) (\<lambda>_.
     mbind (consputc BACKSPACE) (\<lambda>_.
     kill_line n))))"

definition input_char :: "int \<Rightarrow> ('z con_state_scheme, unit) kfun" where
  "input_char c =
     mbind (gets (\<lambda>s. c \<noteq> 0 \<and> input_e s - input_r s < INPUT_BUF)) (\<lambda>room.
     if room then
       let c = (if c = 13 then 10 else c) in
       mbind (modify (\<lambda>s. s\<lparr>input_buf := (input_buf s)[unat (input_e s mod INPUT_BUF) := word_of_int c],
                            input_e := input_e s + 1\<rparr>)) (\<lambda>_.
       mbind (consputc c) (\<lambda>_.
       mbind (gets (\<lambda>s. c = 10 \<or> c = 4 \<or> input_e s = input_r s + INPUT_BUF)) (\<lambda>full.
       if full then
         mbind (modify (\<lambda>s. s\<lparr>input_w := input_e s\<rparr>)) (\<lambda>_.
         wakeup InputChan)
       else ret ())))
     else ret ())"

text \<open>One character from the device; the result says whether the process listing is to be printed later.\<close>

definition console_key :: "int \<Rightarrow> bool \<Rightarrow> ('z con_state_scheme, bool) kfun" where
  "console_key c doprocdump =
     (if c = 16 then ret True
      else if c = 21 then
        mbind (gets (\<lambda>s. unat (input_e s - input_w s))) (\<lambda>n.
        mbind (kill_line n) (\<lambda>_.
        ret doprocdump))
      else if c = 8 \<or> c = 127 then
        mbind (gets (\<lambda>s. input_e s \<noteq> input_w s)) (\<lambda>b.
        mbind (if b then
                 mbind (modify (\<lambda>s. s\<lparr>input_e := input_e s - 1\<rparr>)) (\<lambda>_.
                 consputc BACKSPACE)
               else ret ()) (\<lambda>_.
        ret doprocdump))
      else mbind (input_char c) (\<lambda>_. ret doprocdump))"

text \<open>The loop of \<open>consoleintr\<close> ends when the device has no more input; \<open>k\<close> bounds its turns.\<close>

fun consoleintr_loop :: "nat \<Rightarrow> (io_state, int) kfun \<Rightarrow> bool \<Rightarrow> ('z con_state_scheme, bool) kfun" where
  "consoleintr_loop 0 getc d = stuck"
| "consoleintr_loop (Suc k) getc d =
     mbind (lift_io getc) (\<lambda>c.
     if c \<ge> 0 then mbind (console_key c d) (\<lambda>d. consoleintr_loop k getc d)
     else ret d)"

definition consoleintr :: "nat \<Rightarrow> (io_state, int) kfun \<Rightarrow> ('z con_state_scheme, unit) kfun" where
  "consoleintr k getc =
     mbind (acquire ConsLk) (\<lambda>_.
     mbind (consoleintr_loop k getc False) (\<lambda>d.
     mbind (release ConsLk) (\<lambda>_.
     if d then procdump else ret ())))"

definition kbdintr :: "nat \<Rightarrow> ('z con_state_scheme, unit) kfun" where
  "kbdintr k = consoleintr k kbdgetc"

definition uartintr :: "nat \<Rightarrow> ('z con_state_scheme, unit) kfun" where
  "uartintr k = consoleintr k uartgetc"

section \<open>The device file\<close>

text \<open>
  Where data is copied to or from: an address of the current address space, or a local variable of the
  caller. Data for a local variable is only returned; data from one is given as a list.
\<close>

datatype cbuf = At uint | Local "byte list"

definition cb_load :: "cbuf \<Rightarrow> nat \<Rightarrow> ('z kmem_state_scheme, byte) kfun" where
  "cb_load b i = (case b of
       At a \<Rightarrow> uload8 (a + of_nat i)
     | Local xs \<Rightarrow> if i < length xs then ret (xs ! i) else undef ''read past a local variable'')"

definition cb_store :: "cbuf \<Rightarrow> nat \<Rightarrow> byte \<Rightarrow> ('z kmem_state_scheme, unit) kfun" where
  "cb_store b i v = (case b of At a \<Rightarrow> ustore8 (a + of_nat i) v | Local _ \<Rightarrow> ret ())"

text \<open>\<open>myproc()->killed\<close>, and a call of \<open>sleep\<close> inside a routine with a result.\<close>

definition mykilled :: "('z pstate_scheme, bool) kfun" where
  "mykilled = mbind myproc (\<lambda>r. mbind (deref r) (\<lambda>p. mbind (getp p) (\<lambda>pr. ret (killed pr))))"

definition sleep_in :: "chan \<Rightarrow> spinid \<Rightarrow> ('z pstate_scheme, 'a) kfun" where
  "sleep_in ch lk = mbind (sleep ch lk) (\<lambda>_. stuck)"

definition console_done :: "nat \<Rightarrow> byte list \<Rightarrow> ('z con_state_scheme, int \<times> byte list) kfun" where
  "console_done ip got =
     mbind (release ConsLk) (\<lambda>_.
     mbind (ilock ip) (\<lambda>_.
     ret (int (length got), got)))"

text \<open>\<open>got\<close> are the bytes read so far, \<open>n\<close> the number of bytes still wanted.\<close>

fun consoleread_loop :: "nat \<Rightarrow> cbuf \<Rightarrow> byte list \<Rightarrow> nat \<Rightarrow> ('z con_state_scheme, int \<times> byte list) kfun" where
  "consoleread_loop ip dst got 0 = console_done ip got"
| "consoleread_loop ip dst got (Suc n) =
     mbind (gets (\<lambda>s. input_r s = input_w s)) (\<lambda>empty.
     if empty then
       mbind mykilled (\<lambda>k.
       if k then
         mbind (release ConsLk) (\<lambda>_.
         mbind (ilock ip) (\<lambda>_.
         ret (-1, got)))
       else sleep_in InputChan ConsLk)
     else
       mbind (gets input_r) (\<lambda>r.
       mbind (buf_at r) (\<lambda>c.
       mbind (modify (\<lambda>s. s\<lparr>input_r := input_r s + 1\<rparr>)) (\<lambda>_.
       if c = 4 then
         mbind (if got \<noteq> [] then modify (\<lambda>s. s\<lparr>input_r := input_r s - 1\<rparr>) else ret ()) (\<lambda>_.
         console_done ip got)
       else
         mbind (cb_store dst (length got) c) (\<lambda>_.
         if c = 10 then console_done ip (got @ [c])
         else consoleread_loop ip dst (got @ [c]) n)))))"

definition consoleread :: "nat \<Rightarrow> cbuf \<Rightarrow> int \<Rightarrow> ('z con_state_scheme, int \<times> byte list) kfun" where
  "consoleread ip dst n =
     mbind (iunlock ip) (\<lambda>_.
     mbind (acquire ConsLk) (\<lambda>_.
     consoleread_loop ip dst [] (nat n)))"

definition consoleread_resume ::
  "nat \<Rightarrow> bool \<Rightarrow> nat \<Rightarrow> cbuf \<Rightarrow> byte list \<Rightarrow> nat \<Rightarrow> ('z con_state_scheme, int \<times> byte list) kfun" where
  "consoleread_resume p ie ip dst got n =
     mbind (sleep_resume p ConsLk ie) (\<lambda>_. consoleread_loop ip dst got n)"

definition consolewrite :: "nat \<Rightarrow> cbuf \<Rightarrow> int \<Rightarrow> ('z con_state_scheme, int) kfun" where
  "consolewrite ip src n =
     mbind (iunlock ip) (\<lambda>_.
     mbind (acquire ConsLk) (\<lambda>_.
     mbind (mforeach [0..<nat n] (\<lambda>i. mbind (cb_load src i) (\<lambda>b. consputc (uint b)))) (\<lambda>_.
     mbind (release ConsLk) (\<lambda>_.
     mbind (ilock ip) (\<lambda>_.
     ret n)))))"

definition consoleinit :: "('z con_state_scheme, unit) kfun" where
  "consoleinit =
     mbind (initlock ConsLk ''console'') (\<lambda>_.
     mbind (modify (\<lambda>s. s\<lparr>devsw := (devsw s)[1 := Some Consoledev]\<rparr>)) (\<lambda>_.
     mbind (modify (\<lambda>s. s\<lparr>cons_locking := True\<rparr>)) (\<lambda>_.
     lift_io (ioapicenable IRQ_KBD 0))))"

section \<open>An example\<close>

definition ex_con :: con_state where
  "ex_con = fs_state.extend ex_fs
     \<lparr>panicked = False, cons_locking = True, input_buf = replicate 128 0, input_r = 0, input_w = 0, input_e = 0\<rparr>"

lemma ex_con_quiet: "quiet 0 ex_con"
  using ex_fs_quiet by (simp add: quiet_def ex_con_def fs_state.defs)

end
