(* ===== verification/Split.thy ===== *)
theory Split
  imports Prelude
begin

text \<open>
  Splitting a list at the elements that satisfy a predicate: the reference for the routines that walk over the
  elements of a path or the words of a text.
\<close>

fun split_by :: "('a \<Rightarrow> bool) \<Rightarrow> 'a list \<Rightarrow> 'a list list" where
  "split_by P [] = [[]]"
| "split_by P (x # xs) =
     (if P x then [] # split_by P xs
      else case split_by P xs of [] \<Rightarrow> [] | y # ys \<Rightarrow> (x # y) # ys)"

text \<open>The non-empty parts.\<close>

definition parts :: "('a \<Rightarrow> bool) \<Rightarrow> 'a list \<Rightarrow> 'a list list" where
  "parts P xs = filter (\<lambda>y. y \<noteq> []) (split_by P xs)"

lemma split_by_unfold:
  "split_by P xs = takeWhile (\<lambda>x. \<not> P x) xs #
     (case dropWhile (\<lambda>x. \<not> P x) xs of [] \<Rightarrow> [] | _ # r \<Rightarrow> split_by P r)"
  by (induction xs) simp_all

lemma parts_Nil [simp]: "parts P [] = []"
  by (simp add: parts_def)

lemma parts_sep [simp]: "P x \<Longrightarrow> parts P (x # xs) = parts P xs"
  by (simp add: parts_def)

lemma parts_skip: "parts P (dropWhile P xs) = parts P xs"
  by (induction xs) simp_all

lemma parts_first:
  assumes "\<not> P x"
  shows "parts P (x # xs) = takeWhile (\<lambda>x. \<not> P x) (x # xs) # parts P (dropWhile (\<lambda>x. \<not> P x) (x # xs))"
proof -
  define w where "w = dropWhile (\<lambda>x. \<not> P x) (x # xs)"
  have s: "split_by P (x # xs) = takeWhile (\<lambda>x. \<not> P x) (x # xs) # (case w of [] \<Rightarrow> [] | _ # r \<Rightarrow> split_by P r)"
    unfolding w_def by (rule split_by_unfold)
  have "w = [] \<or> P (hd w)" unfolding w_def using hd_dropWhile [of "\<lambda>x. \<not> P x" "x # xs"] by blast
  then have "filter (\<lambda>y. y \<noteq> []) (case w of [] \<Rightarrow> [] | _ # r \<Rightarrow> split_by P r) = parts P w"
    by (cases w) (auto simp: parts_def)
  moreover have "takeWhile (\<lambda>x. \<not> P x) (x # xs) \<noteq> []" using assms by simp
  ultimately show ?thesis unfolding w_def [symmetric] by (simp only: parts_def s filter.simps) simp
qed

lemma parts_empty: "parts P xs = [] \<longleftrightarrow> list_all P xs"
proof (induction xs)
  case (Cons x xs)
  then show ?case by (cases "P x") (simp_all add: parts_first)
qed simp

text \<open>The number of parts, one element at a time.\<close>

lemma length_parts:
  "length (parts P (x # xs)) = (if P x \<or> xs \<noteq> [] \<and> \<not> P (hd xs) then length (parts P xs) else Suc (length (parts P xs)))"
proof (cases "P x")
  case False
  then show ?thesis
    by (cases xs) (auto simp: parts_first)
qed simp

end
