(* ===== verification/Fs.thy ===== *)
theory Fs
  imports Console Split
begin

text \<open>
  Model of the upper half of \<open>fs.c\<close>: reading and writing the contents of a file, directories and path names.
  Names and paths are lists of bytes without the terminating NUL. \<open>readi\<close> returns the bytes it copied beside
  its result; where the code passes the address of a local variable these are what the variable gets.
\<close>

section \<open>File contents\<close>

definition cb_stores :: "cbuf \<Rightarrow> nat \<Rightarrow> byte list \<Rightarrow> ('z kmem_state_scheme, unit) kfun" where
  "cb_stores b a xs = mforeach [0..<length xs] (\<lambda>i. cb_store b (a + i) (xs ! i))"

fun cb_loads :: "cbuf \<Rightarrow> nat \<Rightarrow> nat \<Rightarrow> ('z kmem_state_scheme, byte list) kfun" where
  "cb_loads b a 0 = ret []"
| "cb_loads b a (Suc n) = mbind (cb_load b a) (\<lambda>x. mbind (cb_loads b (a + 1) n) (\<lambda>xs. ret (x # xs)))"

text \<open>\<open>min(n - tot, BSIZE - off % BSIZE)\<close>.\<close>

definition chunk :: "nat \<Rightarrow> nat \<Rightarrow> nat \<Rightarrow> nat" where
  "chunk n tot a = min (n - tot) (BSIZE - a mod BSIZE)"

lemma chunk_less: "tot < n \<Longrightarrow> n - (tot + chunk n tot a) < n - tot"
proof -
  assume "tot < n"
  then have "0 < chunk n tot a" by (simp add: chunk_def)
  with \<open>tot < n\<close> show ?thesis by simp
qed

text \<open>
  The loops of \<open>readi\<close> and \<open>writei\<close>. The checks before them exclude that \<open>off + n\<close> wraps around, so their
  counters are natural numbers.
\<close>

function readi_loop :: "nat \<Rightarrow> cbuf \<Rightarrow> nat \<Rightarrow> nat \<Rightarrow> nat \<Rightarrow> byte list \<Rightarrow> ('z con_state_scheme, byte list) kfun" where
  "readi_loop ip dst a n tot got =
     (if tot < n then
        mbind (geti ip) (\<lambda>i.
        mbind (bmap ip (of_nat (a div BSIZE))) (\<lambda>addr.
        mbind (bread (idev i) addr) (\<lambda>bp.
        mbind (getb bp) (\<lambda>x.
        let m = chunk n tot a; bs = slice (a mod BSIZE) m (bdata x) in
        mbind (cb_stores dst tot bs) (\<lambda>_.
        mbind (brelse bp) (\<lambda>_.
        readi_loop ip dst (a + m) n (tot + m) (got @ bs)))))))
      else ret got)"
  by pat_completeness auto
termination
  by (relation "measure (\<lambda>(_, _, _, n, tot, _). n - tot)") (auto simp: chunk_less)

declare readi_loop.simps [simp del]

text \<open>The driver of a device file: \<open>ip->major\<close> must be a number with an entry in \<open>devsw\<close>.\<close>

definition dev_of :: "inode \<Rightarrow> ('z fs_state_scheme, devfn option) kfun" where
  "dev_of i = gets (\<lambda>s. if sint (imajor i) < 0 \<or> sint (imajor i) \<ge> int NDEV then None
                         else devsw s ! nat (sint (imajor i)))"

definition readi :: "nat \<Rightarrow> cbuf \<Rightarrow> uint \<Rightarrow> uint \<Rightarrow> ('z con_state_scheme, int \<times> byte list) kfun" where
  "readi ip dst a n =
     mbind (geti ip) (\<lambda>i.
     if itype i = T_DEV then
       mbind (dev_of i) (\<lambda>d. case d of
         None \<Rightarrow> ret (-1, [])
       | Some Consoledev \<Rightarrow> consoleread ip dst (sint n))
     else if a > isize i \<or> a + n < a then ret (-1, [])
     else
       let n = (if a + n > isize i then isize i - a else n) in
       mbind (readi_loop ip dst (unat a) (unat n) 0 []) (\<lambda>got.
       ret (sint n, got)))"

function writei_loop :: "nat \<Rightarrow> cbuf \<Rightarrow> nat \<Rightarrow> nat \<Rightarrow> nat \<Rightarrow> ('z con_state_scheme, nat) kfun" where
  "writei_loop ip src a n tot =
     (if tot < n then
        mbind (geti ip) (\<lambda>i.
        mbind (bmap ip (of_nat (a div BSIZE))) (\<lambda>addr.
        mbind (bread (idev i) addr) (\<lambda>bp.
        let m = chunk n tot a in
        mbind (cb_loads src tot m) (\<lambda>bs.
        mbind (updb bp (\<lambda>x. x\<lparr>bdata := splice_at (a mod BSIZE) bs (bdata x)\<rparr>)) (\<lambda>_.
        mbind (log_write bp) (\<lambda>_.
        mbind (brelse bp) (\<lambda>_.
        writei_loop ip src (a + m) n (tot + m))))))))
      else ret a)"
  by pat_completeness auto
termination
  by (relation "measure (\<lambda>(_, _, _, n, tot). n - tot)") (auto simp: chunk_less)

declare writei_loop.simps [simp del]

definition writei :: "nat \<Rightarrow> cbuf \<Rightarrow> uint \<Rightarrow> uint \<Rightarrow> ('z con_state_scheme, int) kfun" where
  "writei ip src a n =
     mbind (geti ip) (\<lambda>i.
     if itype i = T_DEV then
       mbind (dev_of i) (\<lambda>d. case d of
         None \<Rightarrow> ret (-1)
       | Some Consoledev \<Rightarrow> consolewrite ip src (sint n))
     else if a > isize i \<or> a + n < a then ret (-1)
     else if unat (a + n) > MAXFILE * BSIZE then ret (-1)
     else
       mbind (writei_loop ip src (unat a) (unat n) 0) (\<lambda>fin.
       mbind (geti ip) (\<lambda>i.
       mbind (if n > 0 \<and> of_nat fin > isize i then
                mbind (updi ip (\<lambda>x. x\<lparr>isize := of_nat fin\<rparr>)) (\<lambda>_.
                iupdate ip)
              else ret ()) (\<lambda>_.
       ret (sint n)))))"

section \<open>Directories\<close>

abbreviation DIRSIZ :: nat where "DIRSIZ \<equiv> 14"

text \<open>\<open>strncmp\<close> on strings given as lists; the end of a list is the NUL.\<close>

definition hd0 :: "byte list \<Rightarrow> byte" where
  "hd0 xs = (case xs of [] \<Rightarrow> 0 | x # _ \<Rightarrow> x)"

fun strncmp_list :: "byte list \<Rightarrow> byte list \<Rightarrow> nat \<Rightarrow> int" where
  "strncmp_list p q 0 = 0"
| "strncmp_list p q (Suc n) =
     (if hd0 p \<noteq> 0 \<and> hd0 p = hd0 q then strncmp_list (tl p) (tl q) n
      else uint (hd0 p) - uint (hd0 q))"

definition namecmp :: "byte list \<Rightarrow> byte list \<Rightarrow> int" where
  "namecmp s t = strncmp_list s t DIRSIZ"

text \<open>A directory entry: two bytes of inode number, then the name, padded with zeros by \<open>strncpy\<close>.\<close>

definition de_name :: "byte list \<Rightarrow> byte list" where
  "de_name de = slice 2 DIRSIZ de"

definition de_inum :: "byte list \<Rightarrow> uint" where
  "de_inum de = ucast (get16 de 0)"

definition pad_name :: "byte list \<Rightarrow> byte list" where
  "pad_name name = take DIRSIZ (takeWhile (\<lambda>b. b \<noteq> 0) name @ replicate DIRSIZ 0)"

definition dirent_bytes :: "byte list \<Rightarrow> uint \<Rightarrow> byte list" where
  "dirent_bytes name n = le16 (ucast n) @ pad_name name"

text \<open>
  The loop of \<open>dirlookup\<close>. An offset that would pass \<open>2 ^ 32\<close> makes \<open>readi\<close> fail first, so the offsets are
  natural numbers. The second result is the value for \<open>*poff\<close>.
\<close>

function dirlookup_loop :: "nat \<Rightarrow> byte list \<Rightarrow> nat \<Rightarrow> ('z con_state_scheme, (nat \<times> uint) option) kfun" where
  "dirlookup_loop dp name a =
     mbind (geti dp) (\<lambda>i.
     if a < unat (isize i) then
       mbind (readi dp (Local []) (of_nat a) 16) (\<lambda>(r, de).
       if r \<noteq> 16 then panic ''dirlookup read''
       else if de_inum de = 0 then dirlookup_loop dp name (a + 16)
       else if namecmp name (de_name de) = 0 then
         mbind (iget (idev i) (de_inum de)) (\<lambda>ip. ret (Some (ip, of_nat a)))
       else dirlookup_loop dp name (a + 16))
     else ret None)"
  by pat_completeness auto
termination
proof (relation "measure (\<lambda>(_, _, a). 2 ^ 32 - a)")
  fix i :: inode and a :: nat
  assume "a < unat (isize i)"
  then have "a < 2 ^ 32" using unat32_lt [of "isize i"] by simp
  then show "((dp, name, a + 16), dp, name, a) \<in> measure (\<lambda>(_, _, a). 2 ^ 32 - a)" for dp :: nat and name :: "byte list"
    by simp
  then show "((dp, name, a + 16), dp, name, a) \<in> measure (\<lambda>(_, _, a). 2 ^ 32 - a)" for dp :: nat and name :: "byte list" .
qed simp

declare dirlookup_loop.simps [simp del]

definition dirlookup :: "nat \<Rightarrow> byte list \<Rightarrow> ('z con_state_scheme, (nat \<times> uint) option) kfun" where
  "dirlookup dp name =
     mbind (geti dp) (\<lambda>i.
     if itype i \<noteq> T_DIR then panic ''dirlookup not DIR'' else
     dirlookup_loop dp name 0)"

text \<open>The loop of \<open>dirlink\<close> that looks for an unused entry; at the end of the directory the entry is appended.\<close>

function dir_empty :: "nat \<Rightarrow> nat \<Rightarrow> ('z con_state_scheme, nat) kfun" where
  "dir_empty dp a =
     mbind (geti dp) (\<lambda>i.
     if a < unat (isize i) then
       mbind (readi dp (Local []) (of_nat a) 16) (\<lambda>(r, de).
       if r \<noteq> 16 then panic ''dirlink read''
       else if de_inum de = 0 then ret a
       else dir_empty dp (a + 16))
     else ret a)"
  by pat_completeness auto
termination
proof (relation "measure (\<lambda>(_, a). 2 ^ 32 - a)")
  fix i :: inode and a :: nat
  assume "a < unat (isize i)"
  then have "a < 2 ^ 32" using unat32_lt [of "isize i"] by simp
  then show "((dp, a + 16), dp, a) \<in> measure (\<lambda>(_, a). 2 ^ 32 - a)" for dp :: nat
    by simp
qed simp

declare dir_empty.simps [simp del]

definition dirlink :: "nat \<Rightarrow> byte list \<Rightarrow> uint \<Rightarrow> ('z con_state_scheme, int) kfun" where
  "dirlink dp name n =
     mbind (dirlookup dp name) (\<lambda>r. case r of
       Some (ip, _) \<Rightarrow> mbind (iput ip) (\<lambda>_. ret (-1))
     | None \<Rightarrow>
         mbind (dir_empty dp 0) (\<lambda>a.
         mbind (writei dp (Local (dirent_bytes name n)) (of_nat a) 16) (\<lambda>w.
         if w \<noteq> 16 then panic ''dirlink'' else ret 0)))"

section \<open>Paths\<close>

text \<open>
  \<open>skipelem\<close> returns the name of the first element, at most \<open>DIRSIZ\<close> bytes of it, and the rest of the path
  without leading slashes.
\<close>

definition skipelem :: "byte list \<Rightarrow> (byte list \<times> byte list) option" where
  "skipelem path =
     (let s = dropWhile (\<lambda>c. c = 47) path in
      if s = [] then None else
      let elem = takeWhile (\<lambda>c. c \<noteq> 47) s; rest = dropWhile (\<lambda>c. c \<noteq> 47) s in
      Some (take DIRSIZ elem, dropWhile (\<lambda>c. c = 47) rest))"

lemma skipelem_shorter: "skipelem path = Some (name, rest) \<Longrightarrow> length rest < length path"
proof -
  assume "skipelem path = Some (name, rest)"
  moreover define s where "s = dropWhile (\<lambda>c. c = 47) path"
  ultimately have ne: "s \<noteq> []" and r: "rest = dropWhile (\<lambda>c. c = 47) (dropWhile (\<lambda>c. c \<noteq> 47) s)"
    by (auto simp: skipelem_def Let_def split: if_splits)
  have "hd s \<noteq> 47" using ne hd_dropWhile [of "\<lambda>c. c = 47" path] by (simp add: s_def)
  with ne have "length (dropWhile (\<lambda>c. c \<noteq> 47) s) < length s"
    by (cases s) (auto simp: le_imp_less_Suc length_dropWhile_le)
  moreover have "length rest \<le> length (dropWhile (\<lambda>c. c \<noteq> 47) s)" "length s \<le> length path"
    by (simp_all add: r s_def length_dropWhile_le)
  ultimately show ?thesis by simp
qed

text \<open>
  The loop of \<open>namex\<close>. The name of the last element is returned beside the inode, for \<open>nameiparent\<close>.
\<close>

function namex_loop :: "bool \<Rightarrow> byte list \<Rightarrow> nat \<Rightarrow> byte list \<Rightarrow> ('z con_state_scheme, (nat \<times> byte list) option) kfun" where
  "namex_loop par path ip name =
     (case skipelem path of
        Some (name, rest) \<Rightarrow>
          mbind (ilock ip) (\<lambda>_.
          mbind (geti ip) (\<lambda>i.
          if itype i \<noteq> T_DIR then mbind (iunlockput ip) (\<lambda>_. ret None)
          else if par \<and> rest = [] then mbind (iunlock ip) (\<lambda>_. ret (Some (ip, name)))
          else
            mbind (dirlookup ip name) (\<lambda>r. case r of
              None \<Rightarrow> mbind (iunlockput ip) (\<lambda>_. ret None)
            | Some (next, _) \<Rightarrow>
                mbind (iunlockput ip) (\<lambda>_.
                namex_loop par rest next name))))
      | None \<Rightarrow>
          if par then mbind (iput ip) (\<lambda>_. ret None) else ret (Some (ip, name)))"
  by pat_completeness auto
termination
  by (relation "measure (\<lambda>(_, path, _, _). length path)") (auto dest: skipelem_shorter)

declare namex_loop.simps [simp del]

definition mycwd :: "('z pstate_scheme, nat) kfun" where
  "mycwd = mbind myproc (\<lambda>r. mbind (deref r) (\<lambda>p. mbind (getp p) (\<lambda>pr. deref (cwd pr))))"

definition namex :: "byte list \<Rightarrow> bool \<Rightarrow> ('z con_state_scheme, (nat \<times> byte list) option) kfun" where
  "namex path par =
     mbind (if hd0 path = 47 then iget ROOTDEV ROOTINO else mbind mycwd idup) (\<lambda>ip.
     namex_loop par path ip [])"

definition namei :: "byte list \<Rightarrow> ('z con_state_scheme, nat option) kfun" where
  "namei path = mbind (namex path False) (\<lambda>r. ret (map_option fst r))"

definition nameiparent :: "byte list \<Rightarrow> ('z con_state_scheme, (nat \<times> byte list) option) kfun" where
  "nameiparent path = namex path True"

section \<open>The elements of a path\<close>

abbreviation elems :: "byte list \<Rightarrow> byte list list" where
  "elems path \<equiv> parts (\<lambda>c. c = 47) path"

text \<open>
  C34: \<open>skipelem\<close> takes the next element off a path. The elements of a path are the non-empty parts between its
  slashes; whatever the number of slashes, \<open>skipelem\<close> fails exactly when there is no element left, and otherwise
  returns the first one, cut to \<open>DIRSIZ\<close> bytes, and a shorter path with exactly the other elements, which is
  empty if and only if the element was the last: the test by which \<open>nameiparent\<close> stops.
\<close>

theorem skipelem_elements:
  "case skipelem path of
     None \<Rightarrow> elems path = []
   | Some (name, rest) \<Rightarrow> (\<exists>e. elems path = e # elems rest \<and> name = take DIRSIZ e) \<and>
       length rest < length path \<and> (rest = [] \<longleftrightarrow> elems rest = [])"
proof -
  define s where "s = dropWhile (\<lambda>c. c = 47) path"
  have e: "elems path = elems s" by (simp add: s_def parts_skip)
  show ?thesis
  proof (cases s)
    case Nil
    then show ?thesis using e by (simp add: skipelem_def s_def [symmetric])
  next
    case (Cons x xs)
    then have x: "x \<noteq> 47" using hd_dropWhile [of "\<lambda>c. c = 47" path] by (simp add: s_def)
    define rest where "rest = dropWhile (\<lambda>c. c = 47) (dropWhile (\<lambda>c. c \<noteq> 47) s)"
    have sk: "skipelem path = Some (take DIRSIZ (takeWhile (\<lambda>c. c \<noteq> 47) s), rest)"
      using Cons by (simp add: skipelem_def s_def [symmetric] rest_def)
    have "elems path = takeWhile (\<lambda>c. c \<noteq> 47) s # elems rest"
      using parts_first [of "\<lambda>c. c = 47" x xs] x by (simp add: e Cons rest_def parts_skip del: takeWhile.simps dropWhile.simps)
    moreover have "elems rest = [] \<Longrightarrow> rest = []"
      using hd_dropWhile [of "\<lambda>c. c = 47" "dropWhile (\<lambda>c. c \<noteq> 47) s"]
      by (cases rest) (auto simp: parts_empty rest_def [symmetric])
    ultimately show ?thesis using sk skipelem_shorter [OF sk] by auto
  qed
qed

end
