(* ===== verification/Fifo.thy ===== *)
theory Fifo
  imports Prelude
begin

text \<open>
  The interface of a bounded queue: pipes and other ring buffers promise it. \<open>contents\<close> is the abstract
  queue, oldest element first. The facts are about whole lists of elements.
\<close>

locale fifo =
  fixes ok :: "'q \<Rightarrow> bool"
    and contents :: "'q \<Rightarrow> 'a list"
    and cap :: nat
    and put :: "'a \<Rightarrow> 'q \<Rightarrow> 'q"
    and get :: "'q \<Rightarrow> 'a"
    and pop :: "'q \<Rightarrow> 'q"
  assumes bounded: "ok q \<Longrightarrow> length (contents q) \<le> cap"
    and put_ok: "ok q \<Longrightarrow> length (contents q) < cap \<Longrightarrow> ok (put x q)"
    and put_contents: "ok q \<Longrightarrow> length (contents q) < cap \<Longrightarrow> contents (put x q) = contents q @ [x]"
    and get_hd: "ok q \<Longrightarrow> contents q \<noteq> [] \<Longrightarrow> get q = hd (contents q)"
    and pop_ok: "ok q \<Longrightarrow> contents q \<noteq> [] \<Longrightarrow> ok (pop q)"
    and pop_contents: "ok q \<Longrightarrow> contents q \<noteq> [] \<Longrightarrow> contents (pop q) = tl (contents q)"
begin

lemma put_list:
  "ok q \<Longrightarrow> length (contents q) + length xs \<le> cap \<Longrightarrow>
     ok (fold put xs q) \<and> contents (fold put xs q) = contents q @ xs"
  by (induction xs arbitrary: q) (simp_all add: put_ok put_contents)

lemma pop_list:
  "ok q \<Longrightarrow> n \<le> length (contents q) \<Longrightarrow> ok ((pop ^^ n) q) \<and> contents ((pop ^^ n) q) = drop n (contents q)"
proof (induction n)
  case (Suc n)
  then have "contents ((pop ^^ n) q) \<noteq> []" by auto
  with Suc show ?case by (simp add: pop_ok pop_contents drop_Suc tl_drop)
qed simp

lemma get_nth: "ok q \<Longrightarrow> n < length (contents q) \<Longrightarrow> get ((pop ^^ n) q) = contents q ! n"
  using pop_list [of q n] get_hd [of "(pop ^^ n) q"] by (simp add: hd_drop_conv_nth)

end

end
