(* ===== verification/Usermem.thy ===== *)
theory Usermem
  imports Sleeplock
begin

text \<open>
  Facts on kernel accesses to user memory for an undisturbed process: the address a user address is
  translated to, and loads and stores inside and outside of critical sections.
\<close>

definition cr3_dir :: "'z machine_scheme \<Rightarrow> uint" where
  "cr3_dir s = P2V (cr3 (cpus s ! this_cpu s))"

definition uaddr :: "'z kmem_state_scheme \<Rightarrow> uint \<Rightarrow> uint \<Rightarrow> uint option" where
  "uaddr s need va = vtrans (mem s) (cr3_dir s) need va"

text \<open>The \<open>n\<close> bytes of user memory at \<open>va\<close>, and that they can be read.\<close>

definition readable :: "'z kmem_state_scheme \<Rightarrow> uint \<Rightarrow> nat \<Rightarrow> bool" where
  "readable s va n \<longleftrightarrow> list_all (\<lambda>i. uaddr s PTE_P (va + of_nat i) \<noteq> None) [0..<n]"

definition ubyte :: "'z kmem_state_scheme \<Rightarrow> uint \<Rightarrow> byte" where
  "ubyte s va = mem s (the (uaddr s PTE_P va))"

definition ubytes :: "'z kmem_state_scheme \<Rightarrow> uint \<Rightarrow> nat \<Rightarrow> byte list" where
  "ubytes s va n = map (\<lambda>i. ubyte s (va + of_nat i)) [0..<n]"

lemma readableD: "readable s va n \<Longrightarrow> i < n \<Longrightarrow> \<exists>a. uaddr s PTE_P (va + of_nat i) = Some a"
  by (auto simp: readable_def list_all_iff)

lemma length_ubytes [simp]: "length (ubytes s va n) = n"
  by (simp add: ubytes_def)

lemma find_this_cpu: "mwf s \<Longrightarrow> find_idx (\<lambda>c. apicid c = lapicid s) (cpus s) = Some (this_cpu s)"
  by (auto simp: mwf_at_def this_idx_def)

lemma cur_pgdir_eq: "mwf s \<Longrightarrow> cur_pgdir s = Ret (cr3_dir s) s"
  by (simp add: cur_pgdir_def find_this_cpu cr3_dir_def)

lemma uload8_eq: "mwf s \<Longrightarrow> uaddr s PTE_P va = Some a \<Longrightarrow> uload8 va s = Ret (ubyte s va) s"
  by (simp add: uload8_def cur_pgdir_eq uaddr_def ubyte_def)

lemma cr3_push [simp]: "i < length cs \<Longrightarrow> cr3 (push_cpus k f cs ! i) = cr3 (cs ! i)"
  by (simp add: push_cpus_def nth_upd_at)

lemma cr3_crit [simp]: "i < length cs \<Longrightarrow> cr3 (crit_cpus k f cs ! i) = cr3 (cs ! i)"
  by (simp add: crit_cpus_def nth_upd_at)

lemma cr3_dir_inlock: "mwf s \<Longrightarrow> cr3_dir (inlock lk s) = cr3_dir s"
  using this_idx_in_range [of "cpus s" "lapicid s" "hw_if s"] by (simp add: cr3_dir_def inlock_def)

lemma mem_inlock [simp]: "mem (inlock lk s) = mem s"
  by (simp add: inlock_def)

lemma mwf_inlock: "quiet p s \<Longrightarrow> mwf (inlock lk s)"
  using quietD [of p s] by (simp add: inlock_def)

lemma uaddr_inlock: "mwf s \<Longrightarrow> uaddr (inlock lk s) = uaddr s"
  by (simp add: uaddr_def fun_eq_iff cr3_dir_inlock)

lemma uload8_inlock:
  assumes "quiet p s" "uaddr s PTE_P va = Some a"
  shows "uload8 va (inlock lk s) = Ret (ubyte s va) (inlock lk s)"
  using uload8_eq [OF mwf_inlock [OF assms(1)], of lk va a] assms quietD(1) [OF assms(1)]
  by (simp add: uaddr_inlock ubyte_def)

lemma calm_mem: "calm p s t \<Longrightarrow> mem t = mem s"
  using arg_cong [OF calmD(3), of p s t mem] by simp

lemma quiet_mem [simp]: "quiet p (s\<lparr>mem := m\<rparr>) = quiet p s"
  by (simp add: quiet_def)

text \<open>
  A user buffer that can be written: its bytes lie at the addresses \<open>as\<close>, and writing them changes neither
  the page tables that translate the buffer nor any other byte of it.
\<close>

definition writes_to :: "'z kmem_state_scheme \<Rightarrow> uint \<Rightarrow> uint list \<Rightarrow> bool" where
  "writes_to s va as \<longleftrightarrow> distinct as \<and> (\<forall>m. (\<forall>a. a \<notin> set as \<longrightarrow> m a = mem s a) \<longrightarrow>
     (\<forall>i < length as. vtrans m (cr3_dir s) (PTE_P OR PTE_W) (va + of_nat i) = Some (as ! i)))"

definition store_list :: "mem \<Rightarrow> uint list \<Rightarrow> byte list \<Rightarrow> mem" where
  "store_list m as bs = fold (\<lambda>(a, b) m. m(a := b)) (zip as bs) m"

lemma store_list_simps [simp]:
  "store_list m as [] = m"
  "store_list m [] bs = m"
  "store_list m (a # as) (b # bs) = store_list (m(a := b)) as bs"
  by (simp_all add: store_list_def)

lemma store_list_other: "a \<notin> set (take (length bs) as) \<Longrightarrow> store_list m as bs a = m a"
proof (induction bs arbitrary: m as)
  case (Cons b bs)
  then show ?case by (cases as) auto
qed simp

lemma store_list_at: "distinct as \<Longrightarrow> length bs \<le> length as \<Longrightarrow> j < length bs \<Longrightarrow> store_list m as bs (as ! j) = bs ! j"
proof (induction bs arbitrary: m as j)
  case (Cons b bs)
  then obtain a as' where as: "as = a # as'" by (cases as) auto
  with Cons.prems(1) have "a \<notin> set (take (length bs) as')" by (auto dest: in_set_takeD)
  with Cons as show ?case by (cases j) (auto simp: store_list_other)
qed simp

lemma ustore8_inlock:
  assumes "quiet p s" "vtrans (mem s) (cr3_dir s) (PTE_P OR PTE_W) va = Some a"
  shows "ustore8 va b (inlock lk s) = Ret () (inlock lk (s\<lparr>mem := (mem s)(a := b)\<rparr>))"
proof -
  have "mwf s" using quietD [OF assms(1)] by simp
  then show ?thesis
    using assms(2) cur_pgdir_eq [OF mwf_inlock [OF assms(1), of lk]] cr3_dir_inlock [of s lk]
    by (simp add: ustore8_def) (simp add: inlock_def)
qed

end
