(* ===== verification/Pipe.thy ===== *)
theory Pipe
  imports Fs Fifo Usermem
begin

text \<open>
  Model of \<open>pipe.c\<close> without \<open>pipealloc\<close>, which is with the file table: a ring buffer of \<open>PIPESIZE\<close> bytes
  with counters of the bytes ever read and written, which wrap around at \<open>2 ^ 32\<close>.

  A pipe lives in a page from \<open>kalloc\<close> and is named by the address of that page; \<open>pipes\<close> gives the fields of
  the structure there. \<open>pipewrite_loop\<close> and \<open>piperead_wait\<close> are the parts a sleeping process runs again
  when it is resumed.
\<close>

section \<open>State\<close>

record pipe =
  pdata :: "byte list"
  nread :: uint
  nwrite :: uint
  readopen :: bool
  writeopen :: bool

record pipe_state = con_state +
  pipes :: "uint \<Rightarrow> pipe"

abbreviation PIPESIZE :: uint where "PIPESIZE \<equiv> 512"

definition getpipe :: "uint \<Rightarrow> ('z pipe_state_scheme, pipe) kfun" where
  "getpipe p = gets (\<lambda>s. pipes s p)"

definition updpipe :: "uint \<Rightarrow> (pipe \<Rightarrow> pipe) \<Rightarrow> ('z pipe_state_scheme, unit) kfun" where
  "updpipe p f = modify (\<lambda>s. s\<lparr>pipes := (pipes s)(p := f (pipes s p))\<rparr>)"

section \<open>Operations\<close>

definition pipeclose :: "uint \<Rightarrow> bool \<Rightarrow> ('z pipe_state_scheme, unit) kfun" where
  "pipeclose p writable =
     mbind (acquire (PipeLk p)) (\<lambda>_.
     mbind (if writable then
              mbind (updpipe p (\<lambda>x. x\<lparr>writeopen := False\<rparr>)) (\<lambda>_.
              wakeup (PipeReadChan p))
            else
              mbind (updpipe p (\<lambda>x. x\<lparr>readopen := False\<rparr>)) (\<lambda>_.
              wakeup (PipeWriteChan p))) (\<lambda>_.
     mbind (getpipe p) (\<lambda>x.
     if \<not> readopen x \<and> \<not> writeopen x then
       mbind (release (PipeLk p)) (\<lambda>_.
       kfree p)
     else release (PipeLk p))))"

text \<open>The ring: storing the next byte and taking the oldest one.\<close>

definition ring_put :: "byte \<Rightarrow> pipe \<Rightarrow> pipe" where
  "ring_put b x = x\<lparr>pdata := (pdata x)[unat (nwrite x mod PIPESIZE) := b], nwrite := nwrite x + 1\<rparr>"

definition ring_get :: "pipe \<Rightarrow> byte" where
  "ring_get x = pdata x ! unat (nread x mod PIPESIZE)"

definition ring_drop :: "pipe \<Rightarrow> pipe" where
  "ring_drop x = x\<lparr>nread := nread x + 1\<rparr>"

text \<open>The loop of \<open>pipewrite\<close>, with \<open>k\<close> bytes left to write, the next one being \<open>addr[i]\<close>.\<close>

fun pipewrite_loop :: "uint \<Rightarrow> uint \<Rightarrow> nat \<Rightarrow> nat \<Rightarrow> ('z pipe_state_scheme, bool) kfun" where
  "pipewrite_loop p addr i 0 = ret True"
| "pipewrite_loop p addr i (Suc k) =
     mbind (getpipe p) (\<lambda>x.
     if nwrite x = nread x + PIPESIZE then
       mbind (if readopen x then mykilled else ret True) (\<lambda>dead.
       if dead then mbind (release (PipeLk p)) (\<lambda>_. ret False)
       else
         mbind (wakeup (PipeReadChan p)) (\<lambda>_.
         sleep_in (PipeWriteChan p) (PipeLk p)))
     else
       mbind (uload8 (addr + of_nat i)) (\<lambda>b.
       mbind (updpipe p (ring_put b)) (\<lambda>_.
       pipewrite_loop p addr (i + 1) k)))"

definition pipewrite_rest :: "uint \<Rightarrow> uint \<Rightarrow> int \<Rightarrow> nat \<Rightarrow> ('z pipe_state_scheme, int) kfun" where
  "pipewrite_rest p addr n i =
     mbind (pipewrite_loop p addr i (nat n - i)) (\<lambda>ok.
     if \<not> ok then ret (-1) else
     mbind (wakeup (PipeReadChan p)) (\<lambda>_.
     mbind (release (PipeLk p)) (\<lambda>_.
     ret n)))"

definition pipewrite :: "uint \<Rightarrow> uint \<Rightarrow> int \<Rightarrow> ('z pipe_state_scheme, int) kfun" where
  "pipewrite p addr n = mbind (acquire (PipeLk p)) (\<lambda>_. pipewrite_rest p addr n 0)"

definition pipewrite_resume :: "nat \<Rightarrow> bool \<Rightarrow> uint \<Rightarrow> uint \<Rightarrow> int \<Rightarrow> nat \<Rightarrow> ('z pipe_state_scheme, int) kfun" where
  "pipewrite_resume me ie p addr n i =
     mbind (sleep_resume me (PipeLk p) ie) (\<lambda>_. pipewrite_rest p addr n i)"

text \<open>The copying loop of \<open>piperead\<close>; it returns the number of bytes copied.\<close>

fun piperead_copy :: "uint \<Rightarrow> uint \<Rightarrow> nat \<Rightarrow> nat \<Rightarrow> ('z pipe_state_scheme, nat) kfun" where
  "piperead_copy p addr i 0 = ret i"
| "piperead_copy p addr i (Suc k) =
     mbind (getpipe p) (\<lambda>x.
     if nread x = nwrite x then ret i else
     mbind (updpipe p ring_drop) (\<lambda>_.
     mbind (ustore8 (addr + of_nat i) (ring_get x)) (\<lambda>_.
     piperead_copy p addr (i + 1) k)))"

definition piperead_wait :: "uint \<Rightarrow> uint \<Rightarrow> int \<Rightarrow> ('z pipe_state_scheme, int) kfun" where
  "piperead_wait p addr n =
     mbind (getpipe p) (\<lambda>x.
     if nread x = nwrite x \<and> writeopen x then
       mbind mykilled (\<lambda>k.
       if k then mbind (release (PipeLk p)) (\<lambda>_. ret (-1))
       else sleep_in (PipeReadChan p) (PipeLk p))
     else
       mbind (piperead_copy p addr 0 (nat n)) (\<lambda>i.
       mbind (wakeup (PipeWriteChan p)) (\<lambda>_.
       mbind (release (PipeLk p)) (\<lambda>_.
       ret (int i)))))"

definition piperead :: "uint \<Rightarrow> uint \<Rightarrow> int \<Rightarrow> ('z pipe_state_scheme, int) kfun" where
  "piperead p addr n = mbind (acquire (PipeLk p)) (\<lambda>_. piperead_wait p addr n)"

definition piperead_resume :: "nat \<Rightarrow> bool \<Rightarrow> uint \<Rightarrow> uint \<Rightarrow> int \<Rightarrow> ('z pipe_state_scheme, int) kfun" where
  "piperead_resume me ie p addr n =
     mbind (sleep_resume me (PipeLk p) ie) (\<lambda>_. piperead_wait p addr n)"

section \<open>The ring is a queue\<close>

text \<open>
  The bytes in the pipe, oldest first. The counters may have wrapped around: only their difference counts,
  and \<open>PIPESIZE\<close> divides \<open>2 ^ 32\<close>, so the positions in the ring go on without a jump.
\<close>

definition ring_ok :: "pipe \<Rightarrow> bool" where
  "ring_ok x \<longleftrightarrow> length (pdata x) = 512 \<and> unat (nwrite x - nread x) \<le> 512"

definition pcontents :: "pipe \<Rightarrow> byte list" where
  "pcontents x = map (\<lambda>i. pdata x ! ((unat (nread x) + i) mod 512)) [0..<unat (nwrite x - nread x)]"

lemma ring_index: "unat ((a + of_nat n :: uint) mod 512) = (unat a + n) mod 512"
proof -
  have "unat (a + of_nat n) = (unat a + n) mod 2 ^ 32"
    by (simp add: unat_word_ariths unat_of_nat mod_simps)
  moreover have "(512 :: nat) dvd 2 ^ 32" by simp
  ultimately show ?thesis by (simp add: unat_mod_distrib mod_mod_cancel)
qed

lemma ring_succ: "(unat (a + 1 :: uint) + i) mod 512 = (unat a + Suc i) mod 512"
proof -
  have "unat (a + 1) mod 512 = (unat a + 1) mod 512" using ring_index [of a 1] by (simp add: unat_mod_distrib)
  from mod_add_cong [OF this refl, of i] show ?thesis by simp
qed

lemma length_pcontents [simp]: "length (pcontents x) = unat (nwrite x - nread x)"
  by (simp add: pcontents_def)

lemma ring_put_length:
  assumes "unat (nwrite x - nread x) < 512"
  shows "unat (nwrite (ring_put b x) - nread (ring_put b x)) = Suc (unat (nwrite x - nread x))"
proof -
  have "nwrite x + 1 \<noteq> nread x"
  proof
    assume "nwrite x + 1 = nread x"
    then have "nread x = nwrite x + 1" by simp
    then show False using assms by (simp add: unsigned_minus_1_eq_mask mask_eq_exp_minus_1)
  qed
  then show ?thesis using off_Suc [of "nwrite x + 1" "nread x"] by (simp add: ring_put_def algebra_simps)
qed

lemma ring_put_contents:
  assumes "ring_ok x" "length (pcontents x) < 512"
  shows "pcontents (ring_put b x) = pcontents x @ [b]"
proof -
  define n where "n = unat (nwrite x - nread x)"
  have n: "n < 512" using assms by (simp add: n_def)
  have w: "unat (nwrite x mod PIPESIZE) = (unat (nread x) + n) mod 512"
    using ring_index [of "nread x" n] by (simp add: n_def)
  have other: "(unat (nread x) + i) mod 512 \<noteq> (unat (nread x) + n) mod 512" if "i < n" for i
    using that n mod_eq_dvd_iff_nat [of "unat (nread x) + i" "unat (nread x) + n" 512]
    by (auto dest: dvd_imp_le)
  have "pcontents (ring_put b x) =
      map (\<lambda>i. (pdata x)[(unat (nread x) + n) mod 512 := b] ! ((unat (nread x) + i) mod 512)) [0..<Suc n]"
    using ring_put_length [of x b] assms w by (simp add: pcontents_def n_def) (simp add: ring_put_def)
  also have "\<dots> = pcontents x @ [b]"
    using assms(1) not_sym [OF other] by (auto simp: pcontents_def ring_ok_def n_def [symmetric])
  finally show ?thesis .
qed

lemma ring_drop_contents:
  assumes "pcontents x \<noteq> []"
  shows "pcontents (ring_drop x) = tl (pcontents x)"
proof -
  have "nwrite x \<noteq> nread x" using assms by (auto simp: pcontents_def)
  then have n: "unat (nwrite x - nread x) = Suc (unat (nwrite x - (nread x + 1)))" by (rule off_Suc)
  show ?thesis
    by (simp add: pcontents_def ring_drop_def n ring_succ map_tl [symmetric] upt_conv_Cons tl_upt map_Suc_upt [symmetric]
        del: upt_Suc map_Suc_upt)
qed

interpretation ring: fifo ring_ok pcontents 512 ring_put ring_get ring_drop
proof (unfold_locales, goal_cases)
  case (1 q)
  then show ?case by (simp add: ring_ok_def)
next
  case (2 q x)
  then show ?case using ring_put_length [of q x] by (simp add: ring_ok_def) (simp add: ring_put_def)
next
  case (3 q x)
  then show ?case by (rule ring_put_contents)
next
  case (4 q)
  then show ?case
    by (simp add: pcontents_def ring_get_def hd_map unat_mod_distrib)
next
  case (5 q)
  then have "Suc (length (pcontents (ring_drop q))) = length (pcontents q)" using ring_drop_contents [of q]
    by (cases "pcontents q") (simp_all del: length_pcontents)
  with 5 show ?case by (simp add: ring_ok_def ring_drop_def)
next
  case (6 q)
  then show ?case by (simp add: ring_drop_contents)
qed

section \<open>Pipes are queues of bytes\<close>

lemma quiet_pipes [simp]: "quiet p (s\<lparr>pipes := x\<rparr>) = quiet p s"
  by (simp add: quiet_def)

lemma calm_pipes: "calm p s t \<Longrightarrow> pipes t = pipes s"
  using arg_cong [OF calmD(3), of p s t pipes] by simp

lemma getpipe_inlock: "getpipe pi (inlock lk s) = Ret (pipes s pi) (inlock lk s)"
  by (simp add: getpipe_def inlock_def)

lemma updpipe_inlock:
  "updpipe pi f (inlock lk s) = Ret () (inlock lk (s\<lparr>pipes := (pipes s)(pi := f (pipes s pi))\<rparr>))"
  by (simp add: updpipe_def inlock_def)

lemma uaddr_pipes [simp]: "uaddr (s\<lparr>pipes := x\<rparr>) = uaddr s" "ubyte (s\<lparr>pipes := x\<rparr>) = ubyte s"
  by (simp_all add: uaddr_def ubyte_def cr3_dir_def fun_eq_iff)

lemma mykilled_inlock: "quiet p s \<Longrightarrow> mykilled (inlock lk s) = Ret (killed (procs s ! p)) (inlock lk s)"
proof -
  assume q: "quiet p s"
  note d = quietD [OF q]
  have i: "this_cpu (inlock lk s) = this_cpu s" by (simp add: inlock_def)
  have "cproc (cpus (inlock lk s) ! this_cpu s) = Some p" using d(3,9) by (simp add: inlock_def)
  moreover have "(inlock lk s)\<lparr>cpus := crit (inlock lk s)\<rparr> = inlock lk s"
    using d(1) by (simp add: crit_def inlock_def)
  ultimately have "myproc (inlock lk s) = Ret (Some p) (inlock lk s)"
    using myproc_eq [of "inlock lk s"] mwf_inlock [OF q, of lk] i by (simp add: crit_def)
  then show ?thesis using d(4) by (simp add: mykilled_def deref_def getp_def) (simp add: inlock_def)
qed

lemma sleep_in_pipes:
  assumes "quiet p s"
  shows "\<exists>t. sleep_in ch lk (inlock lk s) = (Swtch t :: (_, 'a) res) \<and> sleeping_on ch (procs t ! p) \<and> pipes t = pipes s"
proof -
  obtain t where t: "sleep ch lk (inlock lk s) = Swtch t" "sleeping_on ch (procs t ! p)"
    "t = s\<lparr>cpus := cpus t, hw_if := hw_if t, spin := spin t, procs := upd_at p (\<lambda>x. x\<lparr>chan := Some ch, state := SLEEPING\<rparr>) (procs s)\<rparr>"
    by (rule sleep_quiet [OF assms])
  have "pipes t = pipes s" using arg_cong [OF t(3), of pipes] by simp
  with t(1,2) show ?thesis by (simp add: sleep_in_def)
qed

lemma pipewrite_loop_eq:
  assumes "quiet p s" "ring_ok (pipes s pi)" "length (pcontents (pipes s pi)) + k \<le> 512"
    "\<And>j. i \<le> j \<Longrightarrow> j < i + k \<Longrightarrow> uaddr s PTE_P (addr + of_nat j) \<noteq> None"
  shows "pipewrite_loop pi addr i (k + m) (inlock lk s) = pipewrite_loop pi addr (i + k) m (inlock lk (s\<lparr>pipes := (pipes s)(pi :=
    fold ring_put (map (\<lambda>j. ubyte s (addr + of_nat j)) [i..<i + k]) (pipes s pi))\<rparr>))"
  using assms
proof (induction k arbitrary: i s)
  case 0
  then show ?case by simp
next
  case (Suc k)
  let ?x = "pipes s pi"
  have room: "unat (nwrite ?x - nread ?x) < 512" using Suc.prems(3) by simp
  then have notfull: "nwrite ?x \<noteq> nread ?x + 512" by auto
  obtain a where a: "uaddr s PTE_P (addr + of_nat i) = Some a" using Suc.prems(4) [of i] by auto
  define b where "b = ubyte s (addr + of_nat i)"
  define t where "t = s\<lparr>pipes := (pipes s)(pi := ring_put b ?x)\<rparr>"
  have "pipewrite_loop pi addr (Suc i) (k + m) (inlock lk t) = pipewrite_loop pi addr (Suc i + k) m (inlock lk (t\<lparr>pipes := (pipes t)(pi :=
      fold ring_put (map (\<lambda>j. ubyte t (addr + of_nat j)) [Suc i..<Suc i + k]) (pipes t pi))\<rparr>))"
  proof (rule Suc.IH)
    show "length (pcontents (pipes t pi)) + k \<le> 512"
      using ring.put_contents [OF Suc.prems(2), of b] room Suc.prems(3) by (simp add: t_def del: length_pcontents)
    show "uaddr t PTE_P (addr + of_nat j) \<noteq> None" if "Suc i \<le> j" "j < Suc i + k" for j
      using that Suc.prems(4) by (simp add: t_def)
  qed (use Suc.prems room ring.put_ok in \<open>auto simp: t_def\<close>)
  moreover have "pipewrite_loop pi addr i (Suc k + m) (inlock lk s) = pipewrite_loop pi addr (Suc i) (k + m) (inlock lk t)"
    by (simp add: getpipe_inlock notfull uload8_inlock [OF Suc.prems(1) a] b_def [symmetric] updpipe_inlock t_def)
  moreover have "t\<lparr>pipes := (pipes t)(pi := fold ring_put (map (\<lambda>j. ubyte t (addr + of_nat j)) [Suc i..<Suc i + k]) (pipes t pi))\<rparr> =
      s\<lparr>pipes := (pipes s)(pi := fold ring_put (map (\<lambda>j. ubyte s (addr + of_nat j)) [i..<i + Suc k]) (pipes s pi))\<rparr>"
    by (simp add: t_def b_def upt_conv_Cons [of i] del: upt_Suc)
  ultimately show ?case by (simp only: add_Suc add_Suc_right)
qed

lemma ubytes_readable: "readable s addr n \<Longrightarrow> j < n \<Longrightarrow> uaddr s PTE_P (addr + of_nat j) \<noteq> None"
  by (auto simp: readable_def list_all_iff)

text \<open>The loop moves bytes while there is room; \<open>m\<close> bytes are left.\<close>

lemma pipewrite_moves:
  assumes "quiet p s" "ring_ok (pipes s pi)" "length (pcontents (pipes s pi)) + k \<le> 512" "readable s addr (k + m)"
  obtains x where "pipewrite_loop pi addr 0 (k + m) (inlock lk s) = pipewrite_loop pi addr k m (inlock lk (s\<lparr>pipes := (pipes s)(pi := x)\<rparr>))"
    "ring_ok x" "pcontents x = pcontents (pipes s pi) @ ubytes s addr k" "readopen x = readopen (pipes s pi)"
proof -
  have flags: "readopen (fold ring_put bs y) = readopen y" for bs y
    by (induction bs arbitrary: y) (simp_all add: ring_put_def)
  show thesis
  proof (rule that)
    show "pipewrite_loop pi addr 0 (k + m) (inlock lk s) =
        pipewrite_loop pi addr k m (inlock lk (s\<lparr>pipes := (pipes s)(pi := fold ring_put (ubytes s addr k) (pipes s pi))\<rparr>))"
      using pipewrite_loop_eq [OF assms(1-3), of 0 addr m lk] ubytes_readable [OF assms(4)] by (simp add: ubytes_def)
  qed (use flags ring.put_list [OF assms(2), of "ubytes s addr k"] assms(3) in \<open>simp_all del: length_pcontents\<close>)
qed

lemma pipewrite_fits:
  assumes q: "quiet p s" and r: "ring_ok (pipes s pi)" "length (pcontents (pipes s pi)) + n \<le> 512" and u: "readable s addr n"
  shows "\<exists>t. pipewrite pi addr (int n) s = Ret (int n) t \<and> quiet p t \<and> ring_ok (pipes t pi) \<and>
    pcontents (pipes t pi) = pcontents (pipes s pi) @ ubytes s addr n \<and> mem t = mem s"
proof -
  obtain x where x: "pipewrite_loop pi addr 0 n (inlock (PipeLk pi) s) = Ret True (inlock (PipeLk pi) (s\<lparr>pipes := (pipes s)(pi := x)\<rparr>))"
    "ring_ok x" "pcontents x = pcontents (pipes s pi) @ ubytes s addr n"
    using pipewrite_moves [OF q r, of addr 0 "PipeLk pi"] u by auto
  define u where "u = s\<lparr>pipes := (pipes s)(pi := x)\<rparr>"
  note w = x(1) [folded u_def]
  have qu: "quiet p u" using q by (simp add: u_def)
  obtain v where v: "wakeup (PipeReadChan pi) (inlock (PipeLk pi) u) = Ret () (inlock (PipeLk pi) v)" "calm p u v"
    by (rule wakeup_quiet [OF qu, of "PipeLk pi" "PipeReadChan pi"]) auto
  note calm_pipes [OF v(2)] calm_mem [OF v(2)]
  then show ?thesis
    using release_quiet [OF calmD(1) [OF v(2)], of "PipeLk pi"] quiet_crit [OF calmD(1) [OF v(2)]] w v(1) x
    by (simp add: pipewrite_def pipewrite_rest_def acquire_quiet [OF q] u_def)
qed

text \<open>The bytes do not fit: the loop stops at a full ring that holds the first of them.\<close>

lemma pipewrite_fills:
  assumes q: "quiet p s" and r: "ring_ok (pipes s pi)" "512 < length (pcontents (pipes s pi)) + n" and u: "readable s addr n"
  obtains v k m where "pipewrite_loop pi addr 0 n (inlock (PipeLk pi) s) = pipewrite_loop pi addr k (Suc m) (inlock (PipeLk pi) v)"
    "quiet p v" "procs v = procs s" "nwrite (pipes v pi) = nread (pipes v pi) + 512" "readopen (pipes v pi) = readopen (pipes s pi)"
    "pcontents (pipes v pi) = pcontents (pipes s pi) @ take (512 - length (pcontents (pipes s pi))) (ubytes s addr n)"
proof -
  define k where "k = 512 - length (pcontents (pipes s pi))"
  have k: "length (pcontents (pipes s pi)) + k = 512" using ring.bounded [OF r(1)] by (simp add: k_def)
  then obtain m where m: "n = k + Suc m" using r(2) less_imp_Suc_add [of k n] by (auto simp del: length_pcontents)
  obtain x where x: "pipewrite_loop pi addr 0 n (inlock (PipeLk pi) s) =
      pipewrite_loop pi addr k (Suc m) (inlock (PipeLk pi) (s\<lparr>pipes := (pipes s)(pi := x)\<rparr>))"
    "ring_ok x" "pcontents x = pcontents (pipes s pi) @ ubytes s addr k" "readopen x = readopen (pipes s pi)"
    using pipewrite_moves [OF q r(1), of k addr "Suc m" "PipeLk pi"] k u unfolding m by (auto simp del: length_pcontents)
  have "length (pcontents x) = 512" using k by (simp add: x(3) del: length_pcontents)
  then have "nwrite x - nread x = 512" by (simp add: word_unat_eq_iff)
  then have full: "nwrite x = nread x + 512" by (simp add: algebra_simps)
  have "take k (ubytes s addr n) = ubytes s addr k" using m by (simp add: ubytes_def take_map)
  with x full q show thesis
    by (intro that [of k m "s\<lparr>pipes := (pipes s)(pi := x)\<rparr>"]) (simp_all add: k_def)
qed

lemma pipewrite_blocks:
  assumes q: "quiet p s" and r: "ring_ok (pipes s pi)" "512 < length (pcontents (pipes s pi)) + n" and u: "readable s addr n"
    and o: "readopen (pipes s pi)" "\<not> killed (procs s ! p)"
  shows "\<exists>t. pipewrite pi addr (int n) s = Swtch t \<and> sleeping_on (PipeWriteChan pi) (procs t ! p) \<and>
    pcontents (pipes t pi) = pcontents (pipes s pi) @ take (512 - length (pcontents (pipes s pi))) (ubytes s addr n)"
proof -
  obtain v k m where v: "pipewrite_loop pi addr 0 n (inlock (PipeLk pi) s) = pipewrite_loop pi addr k (Suc m) (inlock (PipeLk pi) v)"
    "quiet p v" "procs v = procs s" "nwrite (pipes v pi) = nread (pipes v pi) + 512" "readopen (pipes v pi) = readopen (pipes s pi)"
    "pcontents (pipes v pi) = pcontents (pipes s pi) @ take (512 - length (pcontents (pipes s pi))) (ubytes s addr n)"
    by (rule pipewrite_fills [OF q r u])
  obtain w where w: "wakeup (PipeReadChan pi) (inlock (PipeLk pi) v) = Ret () (inlock (PipeLk pi) w)" "calm p v w"
    by (rule wakeup_quiet [OF v(2), of "PipeLk pi" "PipeReadChan pi"]) auto
  obtain t where t: "sleep_in (PipeWriteChan pi) (PipeLk pi) (inlock (PipeLk pi) w) = (Swtch t :: (_, bool) res)"
    "sleeping_on (PipeWriteChan pi) (procs t ! p)" "pipes t = pipes w"
    using sleep_in_pipes [OF calmD(1) [OF w(2)]] by blast
  have "pipewrite_loop pi addr 0 n (inlock (PipeLk pi) s) = Swtch t"
    using v(3-5) o t(1) w(1) by (simp add: v(1) getpipe_inlock mykilled_inlock [OF v(2)])
  then show ?thesis using t(2,3) calm_pipes [OF w(2)] v(6)
    by (simp add: pipewrite_def pipewrite_rest_def acquire_quiet [OF q])
qed

lemma pipewrite_fails:
  assumes q: "quiet p s" and r: "ring_ok (pipes s pi)" "512 < length (pcontents (pipes s pi)) + n" and u: "readable s addr n"
    and o: "\<not> readopen (pipes s pi) \<or> killed (procs s ! p)"
  shows "\<exists>t. pipewrite pi addr (int n) s = Ret (-1) t \<and> quiet p t"
proof -
  obtain v k m where v: "pipewrite_loop pi addr 0 n (inlock (PipeLk pi) s) = pipewrite_loop pi addr k (Suc m) (inlock (PipeLk pi) v)"
    "quiet p v" "procs v = procs s" "nwrite (pipes v pi) = nread (pipes v pi) + 512" "readopen (pipes v pi) = readopen (pipes s pi)"
    by (rule pipewrite_fills [OF q r u])
  have "pipewrite_loop pi addr 0 n (inlock (PipeLk pi) s) = Ret False (v\<lparr>cpus := crit v\<rparr>)"
    using v(3-5) o by (simp add: v(1) getpipe_inlock mykilled_inlock [OF v(2)] release_quiet [OF v(2)])
  then show ?thesis using quiet_crit [OF v(2)]
    by (simp add: pipewrite_def pipewrite_rest_def acquire_quiet [OF q])
qed

lemma writes_to_step:
  assumes "writes_to s va (a # as)"
  shows "vtrans (mem s) (cr3_dir s) (PTE_P OR PTE_W) va = Some a"
    "writes_to (s\<lparr>mem := (mem s)(a := b), pipes := x\<rparr>) (va + 1) as"
proof -
  have w: "distinct (a # as)" "\<And>m i. (\<forall>a'. a' \<notin> set (a # as) \<longrightarrow> m a' = mem s a') \<Longrightarrow> i < length (a # as) \<Longrightarrow>
      vtrans m (cr3_dir s) (PTE_P OR PTE_W) (va + of_nat i) = Some ((a # as) ! i)"
    using assms unfolding writes_to_def by blast+
  show "vtrans (mem s) (cr3_dir s) (PTE_P OR PTE_W) va = Some a" using w(2) [of "mem s" 0] by simp
  show "writes_to (s\<lparr>mem := (mem s)(a := b), pipes := x\<rparr>) (va + 1) as"
    unfolding writes_to_def
  proof (intro conjI allI impI)
    fix m i assume m: "\<forall>a'. a' \<notin> set as \<longrightarrow> m a' = mem (s\<lparr>mem := (mem s)(a := b), pipes := x\<rparr>) a'" "i < length as"
    have "vtrans m (cr3_dir s) (PTE_P OR PTE_W) (va + of_nat (Suc i)) = Some ((a # as) ! Suc i)"
      by (rule w(2)) (use m in auto)
    then show "vtrans m (cr3_dir (s\<lparr>mem := (mem s)(a := b), pipes := x\<rparr>)) (PTE_P OR PTE_W) (va + 1 + of_nat i) = Some (as ! i)"
      by (simp add: cr3_dir_def algebra_simps)
  qed (use w(1) in simp)
qed

lemma pipe_same: "s\<lparr>mem := mem s, pipes := (pipes s)(pi := pipes s pi)\<rparr> = s"
  by simp

lemma upd_order_pipes_mem [upd_order]: "s\<lparr>pipes := x, mem := m\<rparr> = s\<lparr>mem := m, pipes := x\<rparr>"
  by simp

lemma piperead_copy_eq:
  assumes "quiet p s" "ring_ok (pipes s pi)" "writes_to s (addr + of_nat i) as" "length as = k"
  shows "piperead_copy pi addr i k (inlock lk s) =
    (let r = min k (length (pcontents (pipes s pi))) in
     Ret (i + r) (inlock lk (s\<lparr>mem := store_list (mem s) as (take r (pcontents (pipes s pi))),
       pipes := (pipes s)(pi := (ring_drop ^^ r) (pipes s pi))\<rparr>)))"
  using assms
proof (induction k arbitrary: i s as)
  case 0
  then show ?case
    by (simp only: piperead_copy.simps Let_def min_0L take_0 store_list_simps funpow_0 pipe_same add_0_right ret_apply)
next
  case (Suc k)
  then obtain a as' where as: "as = a # as'" by (cases as) auto
  let ?x = "pipes s pi"
  show ?case
  proof (cases "pcontents ?x = []")
    case True
    then have "nwrite ?x = nread ?x" by (simp add: pcontents_def unat_eq_zero)
    then have "piperead_copy pi addr i (Suc k) (inlock lk s) = Ret i (inlock lk s)" by (simp add: getpipe_inlock)
    then show ?thesis
      by (simp only: True list.size min_0R Let_def take_0 store_list_simps funpow_0 pipe_same add_0_right)
  next
    case False
    define b where "b = ring_get ?x"
    define t where "t = s\<lparr>mem := (mem s)(a := b), pipes := (pipes s)(pi := ring_drop ?x)\<rparr>"
    have ne: "nread ?x \<noteq> nwrite ?x" using False by (auto simp: pcontents_def)
    note w = writes_to_step [OF Suc.prems(3) [unfolded as]]
    have step: "piperead_copy pi addr i (Suc k) (inlock lk s) = piperead_copy pi addr (Suc i) k (inlock lk t)"
      using ustore8_inlock [of p "s\<lparr>pipes := (pipes s)(pi := ring_drop ?x)\<rparr>" "addr + of_nat i" a b lk] Suc.prems(1) w(1)
      by (simp add: getpipe_inlock updpipe_inlock ne b_def [symmetric] t_def cr3_dir_def upd_order_pipes_mem)
    have c: "pcontents ?x = b # pcontents (pipes t pi)"
      using ring.get_hd [OF Suc.prems(2) False] ring.pop_contents [OF Suc.prems(2) False] False by (simp add: b_def t_def)
    have "piperead_copy pi addr (Suc i) k (inlock lk t) =
      (let r = min k (length (pcontents (pipes t pi))) in
       Ret (Suc i + r) (inlock lk (t\<lparr>mem := store_list (mem t) as' (take r (pcontents (pipes t pi))),
         pipes := (pipes t)(pi := (ring_drop ^^ r) (pipes t pi))\<rparr>)))"
    proof (rule Suc.IH)
      show "writes_to t (addr + of_nat (Suc i)) as'" using w(2) by (simp add: t_def algebra_simps)
      show "ring_ok (pipes t pi)" using ring.pop_ok [OF Suc.prems(2) False] by (simp add: t_def)
    qed (use Suc.prems as in \<open>simp_all add: t_def\<close>)
    then show ?thesis unfolding step c Let_def as
      by (simp add: t_def funpow_swap1 del: length_pcontents)
  qed
qed

lemma piperead_copies:
  assumes q: "quiet p s" and r: "ring_ok (pipes s pi)" "pcontents (pipes s pi) \<noteq> [] \<or> \<not> writeopen (pipes s pi)"
    and w: "writes_to s addr as"
  shows "\<exists>t. piperead pi addr (int (length as)) s = Ret (int (min (length as) (length (pcontents (pipes s pi))))) t \<and> quiet p t \<and>
    ring_ok (pipes t pi) \<and> pcontents (pipes t pi) = drop (length as) (pcontents (pipes s pi)) \<and>
    mem t = store_list (mem s) as (take (length as) (pcontents (pipes s pi)))"
proof -
  define c where "c = pcontents (pipes s pi)"
  define r' where "r' = min (length as) (length c)"
  define v where "v = s\<lparr>mem := store_list (mem s) as (take (length as) c), pipes := (pipes s)(pi := (ring_drop ^^ r') (pipes s pi))\<rparr>"
  have tk: "take r' c = take (length as) c" "drop r' c = drop (length as) c" by (simp_all add: r'_def min_def)
  have cp: "piperead_copy pi addr 0 (length as) (inlock (PipeLk pi) s) = Ret r' (inlock (PipeLk pi) v)"
    using piperead_copy_eq [OF q r(1), of addr 0 as "length as" "PipeLk pi"] w
    unfolding v_def tk(1) [symmetric] by (simp add: Let_def c_def r'_def del: length_pcontents)
  have qv: "quiet p v" using q by (simp add: v_def)
  obtain u where u: "wakeup (PipeWriteChan pi) (inlock (PipeLk pi) v) = Ret () (inlock (PipeLk pi) u)" "calm p v u"
    by (rule wakeup_quiet [OF qv, of "PipeLk pi" "PipeWriteChan pi"]) auto
  have "nread (pipes s pi) \<noteq> nwrite (pipes s pi) \<or> \<not> writeopen (pipes s pi)" using r(2) by (auto simp: pcontents_def)
  moreover have "ring_ok (pipes v pi)" "pcontents (pipes v pi) = drop (length as) c"
    using ring.pop_list [OF r(1), of r'] tk(2) by (simp_all add: v_def c_def r'_def del: length_pcontents)
  ultimately show ?thesis
    using release_quiet [OF calmD(1) [OF u(2)], of "PipeLk pi"] quiet_crit [OF calmD(1) [OF u(2)]] u(1) cp calm_pipes [OF u(2)] calm_mem [OF u(2)]
    by (auto simp: piperead_def piperead_wait_def acquire_quiet [OF q] getpipe_inlock c_def [symmetric] r'_def v_def simp del: length_pcontents)
qed

lemma piperead_blocks:
  assumes q: "quiet p s" and r: "pcontents (pipes s pi) = []" "writeopen (pipes s pi)" "\<not> killed (procs s ! p)"
  shows "\<exists>t. piperead pi addr n s = Swtch t \<and> sleeping_on (PipeReadChan pi) (procs t ! p)"
proof -
  obtain t where t: "sleep_in (PipeReadChan pi) (PipeLk pi) (inlock (PipeLk pi) s) = (Swtch t :: (_, int) res)"
    "sleeping_on (PipeReadChan pi) (procs t ! p)"
    using sleep_in_pipes [OF q] by blast
  have "nread (pipes s pi) = nwrite (pipes s pi)" using r(1) by (simp add: pcontents_def unat_eq_zero)
  then show ?thesis using t r
    by (simp add: piperead_def piperead_wait_def acquire_quiet [OF q] getpipe_inlock mykilled_inlock [OF q])
qed

section \<open>Properties\<close>

text \<open>A pipe whose counters are about to wrap around, with two bytes in it.\<close>

definition ex_pipe :: pipe_state where
  "ex_pipe = con_state.extend ex_con
     \<lparr>pipes = (\<lambda>_. \<lparr>pdata = replicate 510 0 @ [7, 8], nread = 0xFFFFFFFE, nwrite = 0, readopen = True, writeopen = True\<rparr>)\<rparr>"

lemma ex_pipe_quiet: "quiet 0 ex_pipe"
  using ex_con_quiet by (simp add: quiet_def ex_pipe_def con_state.defs)

lemma ex_pipe_ring: "ring_ok (pipes ex_pipe 0)" "pcontents (pipes ex_pipe 0) = [7, 8]"
proof -
  have "unat (0 - 0xFFFFFFFE :: uint) = 2" by code_simp
  then show "ring_ok (pipes ex_pipe 0)" "pcontents (pipes ex_pipe 0) = [7, 8]"
    by (simp_all add: ring_ok_def pcontents_def ex_pipe_def con_state.defs upt_rec nth_append)
qed

text \<open>
  C7: writing to a pipe is appending to a queue of bytes. A write that fits appends exactly the bytes of
  the user's buffer, in order, and returns their number; the counters may wrap around meanwhile. A write that
  does not fit fills the pipe with the first bytes of the buffer and puts the writer to sleep until a reader
  makes room, or returns -1 when no reader is left or the writer was killed.
\<close>

theorem pipewrite_queue:
  assumes "quiet p s" "ring_ok (pipes s pi)" "readable s addr n"
  shows "let c = pcontents (pipes s pi) in
    if length c + n \<le> 512 then
      \<exists>t. pipewrite pi addr (int n) s = Ret (int n) t \<and> quiet p t \<and> ring_ok (pipes t pi) \<and>
        pcontents (pipes t pi) = c @ ubytes s addr n \<and> mem t = mem s
    else if readopen (pipes s pi) \<and> \<not> killed (procs s ! p) then
      \<exists>t. pipewrite pi addr (int n) s = Swtch t \<and> sleeping_on (PipeWriteChan pi) (procs t ! p) \<and>
        pcontents (pipes t pi) = c @ take (512 - length c) (ubytes s addr n)
    else \<exists>t. pipewrite pi addr (int n) s = Ret (-1) t \<and> quiet p t"
  unfolding Let_def
  using pipewrite_fits [OF assms(1,2) _ assms(3)] pipewrite_blocks [OF assms(1,2) _ assms(3)]
    pipewrite_fails [OF assms(1,2) _ assms(3)]
  by (simp del: length_pcontents)

theorem pipewrite_queue_witness:
  "\<exists>t. pipewrite 0 0x80000000 3 ex_pipe = Ret 3 t \<and> pcontents (pipes t 0) = [7, 8] @ ubytes ex_pipe 0x80000000 3"
proof -
  have "readable ex_pipe 0x80000000 3"
    by (simp add: readable_def uaddr_def vtrans_def upt_rec word_le_nat_alt)
  from pipewrite_queue [OF ex_pipe_quiet ex_pipe_ring(1) this] show ?thesis
    by (auto simp: ex_pipe_ring(2) simp del: length_pcontents)
qed

text \<open>
  C15: reading from a pipe is taking from the front of the queue. When there are bytes, or the write end is
  closed, a read of \<open>n\<close> bytes stores the oldest bytes in the user's buffer, as many as there are up to
  \<open>n\<close>, removes exactly these, returns their number and writes nothing else into memory; at the end of the data
  it returns 0. While the pipe is empty and has a writer the reader sleeps.
\<close>

theorem piperead_queue:
  assumes "quiet p s" "ring_ok (pipes s pi)" "writes_to s addr as" "length as = n"
  shows "let c = pcontents (pipes s pi); r = min n (length c) in
    if c \<noteq> [] \<or> \<not> writeopen (pipes s pi) then
      \<exists>t. piperead pi addr (int n) s = Ret (int r) t \<and> quiet p t \<and> ring_ok (pipes t pi) \<and> pcontents (pipes t pi) = drop n c \<and>
        map (mem t) (take r as) = take n c \<and> (\<forall>a. a \<notin> set (take r as) \<longrightarrow> mem t a = mem s a)
    else if \<not> killed (procs s ! p) then \<exists>t. piperead pi addr (int n) s = Swtch t \<and> sleeping_on (PipeReadChan pi) (procs t ! p)
    else True"
proof -
  define c where "c = pcontents (pipes s pi)"
  have d: "distinct as" using assms(3) by (simp add: writes_to_def)
  have at: "map (store_list m as (take n c)) (take (min n (length c)) as) = take n c" for m
    by (rule nth_equalityI) (use assms(4) store_list_at [OF d, of "take n c"] in \<open>auto simp: min_def\<close>)
  have other: "store_list m as (take n c) a = m a" if "a \<notin> set (take (min n (length c)) as)" for a m
    using store_list_other [of a "take n c" as m] that by (simp add: min.commute)
  show ?thesis
    using piperead_copies [OF assms(1,2) _ assms(3)] piperead_blocks [OF assms(1), of pi addr "int n"] assms(4) at other
    by (auto simp: Let_def c_def simp del: length_pcontents)
qed

theorem piperead_queue_witness:
  "\<exists>t. piperead 0 0x80000000 1 ex_pipe = Ret 1 t \<and> pcontents (pipes t 0) = [8] \<and> mem t 0x80000000 = 7"
proof -
  have "writes_to ex_pipe 0x80000000 [0x80000000]"
    by (simp add: writes_to_def vtrans_def word_le_nat_alt)
  from piperead_queue [OF ex_pipe_quiet ex_pipe_ring(1) this, of 1] show ?thesis
    by (auto simp: ex_pipe_ring(2) Let_def simp del: length_pcontents)
qed

end
