(* ===== verification/File.thy ===== *)
theory File
  imports Pipe
begin

text \<open>
  Model of \<open>file.c\<close>, the table of open files, and of \<open>pipealloc\<close> of \<open>pipe.c\<close>, which makes two entries of it.
  \<open>file_t\<close> is the structure \<open>file\<close>; a \<open>struct file *\<close> is an index into \<open>files\<close>.
\<close>

section \<open>State\<close>

datatype fdtype = FD_NONE | FD_PIPE | FD_INODE

record file_t =
  ftype :: fdtype
  fref :: int
  freadable :: bool
  fwritable :: bool
  fpipe :: uint
  fip :: "nat option"
  foff :: uint

record file_state = pipe_state +
  files :: "file_t list"

definition getf :: "nat \<Rightarrow> ('z file_state_scheme, file_t) kfun" where
  "getf f = (\<lambda>s. if f < length (files s) then Ret (files s ! f) s else Stop (Undef ''file pointer''))"

definition updf :: "nat \<Rightarrow> (file_t \<Rightarrow> file_t) \<Rightarrow> ('z file_state_scheme, unit) kfun" where
  "updf f g = modify (\<lambda>s. s\<lparr>files := upd_at f g (files s)\<rparr>)"

section \<open>Reference counting\<close>

definition fileinit :: "('z file_state_scheme, unit) kfun" where
  "fileinit = initlock FtableLk ''ftable''"

definition filealloc :: "('z file_state_scheme, nat option) kfun" where
  "filealloc =
     mbind (acquire FtableLk) (\<lambda>_.
     mbind (gets (\<lambda>s. find_idx (\<lambda>f. fref f = 0) (files s))) (\<lambda>r.
     mbind (case r of Some f \<Rightarrow> updf f (\<lambda>x. x\<lparr>fref := 1\<rparr>) | None \<Rightarrow> ret ()) (\<lambda>_.
     mbind (release FtableLk) (\<lambda>_.
     ret r))))"

definition filedup :: "nat \<Rightarrow> ('z file_state_scheme, nat) kfun" where
  "filedup f =
     mbind (acquire FtableLk) (\<lambda>_.
     mbind (getf f) (\<lambda>x.
     if fref x < 1 then panic ''filedup'' else
     mbind (updf f (\<lambda>x. x\<lparr>fref := fref x + 1\<rparr>)) (\<lambda>_.
     mbind (release FtableLk) (\<lambda>_.
     ret f))))"

definition fileclose :: "nat \<Rightarrow> ('z file_state_scheme, unit) kfun" where
  "fileclose f =
     mbind (acquire FtableLk) (\<lambda>_.
     mbind (getf f) (\<lambda>x.
     if fref x < 1 then panic ''fileclose'' else
     mbind (updf f (\<lambda>x. x\<lparr>fref := fref x - 1\<rparr>)) (\<lambda>_.
     mbind (getf f) (\<lambda>ff.
     if fref ff > 0 then release FtableLk else
     mbind (updf f (\<lambda>x. x\<lparr>fref := 0\<rparr>)) (\<lambda>_.
     mbind (updf f (\<lambda>x. x\<lparr>ftype := FD_NONE\<rparr>)) (\<lambda>_.
     mbind (release FtableLk) (\<lambda>_.
     case ftype ff of
       FD_PIPE \<Rightarrow> pipeclose (fpipe ff) (fwritable ff)
     | FD_INODE \<Rightarrow>
         mbind begin_op (\<lambda>_.
         mbind (mbind (deref (fip ff)) iput) (\<lambda>_.
         end_op))
     | FD_NONE \<Rightarrow> ret ())))))))"

section \<open>Reading and writing\<close>

definition filestat :: "nat \<Rightarrow> uint \<Rightarrow> ('z file_state_scheme, int) kfun" where
  "filestat f st =
     mbind (getf f) (\<lambda>x.
     if ftype x = FD_INODE then
       mbind (deref (fip x)) (\<lambda>ip.
       mbind (ilock ip) (\<lambda>_.
       mbind (stati ip st) (\<lambda>_.
       mbind (iunlock ip) (\<lambda>_.
       ret 0))))
     else ret (-1))"

definition fileread :: "nat \<Rightarrow> uint \<Rightarrow> int \<Rightarrow> ('z file_state_scheme, int) kfun" where
  "fileread f addr n =
     mbind (getf f) (\<lambda>x.
     if \<not> freadable x then ret (-1)
     else case ftype x of
       FD_PIPE \<Rightarrow> piperead (fpipe x) addr n
     | FD_INODE \<Rightarrow>
         mbind (deref (fip x)) (\<lambda>ip.
         mbind (ilock ip) (\<lambda>_.
         mbind (readi ip (At addr) (foff x) (word_of_int n)) (\<lambda>(r, _).
         mbind (if r > 0 then updf f (\<lambda>x. x\<lparr>foff := foff x + word_of_int r\<rparr>) else ret ()) (\<lambda>_.
         mbind (iunlock ip) (\<lambda>_.
         ret r)))))
     | FD_NONE \<Rightarrow> panic ''fileread'')"

text \<open>
  \<open>filewrite\<close> writes a file in transactions of at most \<open>max\<close> bytes. The loop returns the value \<open>i\<close> ends with.
\<close>

definition fw_max :: nat where
  "fw_max = (MAXOPBLOCKS - 1 - 1 - 2) div 2 * 512"

function filewrite_loop :: "nat \<Rightarrow> nat \<Rightarrow> uint \<Rightarrow> nat \<Rightarrow> nat \<Rightarrow> ('z file_state_scheme, nat) kfun" where
  "filewrite_loop f ip addr n i =
     (if i < n then
        let n1 = min (n - i) fw_max in
        mbind begin_op (\<lambda>_.
        mbind (ilock ip) (\<lambda>_.
        mbind (getf f) (\<lambda>x.
        mbind (writei ip (At (addr + of_nat i)) (foff x) (of_nat n1)) (\<lambda>r.
        mbind (if r > 0 then updf f (\<lambda>x. x\<lparr>foff := foff x + word_of_int r\<rparr>) else ret ()) (\<lambda>_.
        mbind (iunlock ip) (\<lambda>_.
        mbind end_op (\<lambda>_.
        if r < 0 then ret i
        else if r \<noteq> int n1 then panic ''short filewrite''
        else filewrite_loop f ip addr n (i + n1))))))))
      else ret i)"
  by pat_completeness auto
termination
  by (relation "measure (\<lambda>(_, _, _, n, i). n - i)") (auto simp: fw_max_def)

declare filewrite_loop.simps [simp del]

definition filewrite :: "nat \<Rightarrow> uint \<Rightarrow> int \<Rightarrow> ('z file_state_scheme, int) kfun" where
  "filewrite f addr n =
     mbind (getf f) (\<lambda>x.
     if \<not> fwritable x then ret (-1)
     else case ftype x of
       FD_PIPE \<Rightarrow> pipewrite (fpipe x) addr n
     | FD_INODE \<Rightarrow>
         mbind (deref (fip x)) (\<lambda>ip.
         mbind (filewrite_loop f ip addr (nat n) 0) (\<lambda>i.
         ret (if int i = n then n else -1)))
     | FD_NONE \<Rightarrow> panic ''filewrite'')"

section \<open>Making a pipe\<close>

text \<open>The clean-up at \<open>bad\<close>: what was allocated is given back. The page is allocated last, so \<open>p\<close> is 0 there.\<close>

definition pipe_bad :: "nat option \<Rightarrow> nat option \<Rightarrow> ('z file_state_scheme, (nat \<times> nat) option) kfun" where
  "pipe_bad f0 f1 =
     mbind (case f0 of Some f \<Rightarrow> fileclose f | None \<Rightarrow> ret ()) (\<lambda>_.
     mbind (case f1 of Some f \<Rightarrow> fileclose f | None \<Rightarrow> ret ()) (\<lambda>_.
     ret None))"

definition pipealloc :: "('z file_state_scheme, (nat \<times> nat) option) kfun" where
  "pipealloc =
     mbind filealloc (\<lambda>r0. case r0 of None \<Rightarrow> pipe_bad None None | Some f0 \<Rightarrow>
     mbind filealloc (\<lambda>r1. case r1 of None \<Rightarrow> pipe_bad (Some f0) None | Some f1 \<Rightarrow>
     mbind kalloc (\<lambda>p.
     if p = 0 then pipe_bad (Some f0) (Some f1) else
     mbind (updpipe p (\<lambda>x. x\<lparr>readopen := True, writeopen := True, nwrite := 0, nread := 0\<rparr>)) (\<lambda>_.
     mbind (initlock (PipeLk p) ''pipe'') (\<lambda>_.
     mbind (updf f0 (\<lambda>x. x\<lparr>ftype := FD_PIPE, freadable := True, fwritable := False, fpipe := p\<rparr>)) (\<lambda>_.
     mbind (updf f1 (\<lambda>x. x\<lparr>ftype := FD_PIPE, freadable := False, fwritable := True, fpipe := p\<rparr>)) (\<lambda>_.
     ret (Some (f0, f1)))))))))"

section \<open>The file table is an allocator\<close>

lemma quiet_files [simp]: "quiet p (s\<lparr>files := x\<rparr>) = quiet p s"
  by (simp add: quiet_def)

definition free_files :: "'z file_state_scheme \<Rightarrow> nat set" where
  "free_files s = {f. f < length (files s) \<and> fref (files s ! f) = 0}"

lemma free_files_crit [simp]: "free_files (s\<lparr>cpus := c\<rparr>) = free_files s"
  by (simp add: free_files_def)

lemma files_inlock [simp]: "files (inlock lk s) = files s"
  by (simp add: inlock_def)

lemma updf_inlock: "updf f g (inlock lk s) = Ret () (inlock lk (s\<lparr>files := upd_at f g (files s)\<rparr>))"
  by (simp add: updf_def inlock_def)

lemma getf_inlock: "f < length (files s) \<Longrightarrow> getf f (inlock lk s) = Ret (files s ! f) (inlock lk s)"
  by (simp add: getf_def)

lemma filealloc_some:
  assumes q: "quiet p s" and f: "find_idx (\<lambda>x. fref x = 0) (files s) = Some f"
  shows "filealloc s = (let u = s\<lparr>files := upd_at f (\<lambda>x. x\<lparr>fref := 1\<rparr>) (files s)\<rparr> in Ret (Some f) (u\<lparr>cpus := crit u\<rparr>))"
proof -
  let ?u = "s\<lparr>files := upd_at f (\<lambda>x. x\<lparr>fref := 1\<rparr>) (files s)\<rparr>"
  have "quiet p ?u" using q by simp
  from release_quiet [OF this, of FtableLk] show ?thesis
    by (simp add: filealloc_def acquire_quiet [OF q] f updf_inlock Let_def)
qed

lemma filealloc_none:
  assumes q: "quiet p s" and f: "find_idx (\<lambda>x. fref x = 0) (files s) = None"
  shows "filealloc s = Ret None (s\<lparr>cpus := crit s\<rparr>)"
  by (simp add: filealloc_def acquire_quiet [OF q] f release_quiet [OF q])

interpretation ftable: soft_allocator "quiet p" free_files filealloc "\<lambda>r. r" for p
proof (unfold_locales, goal_cases)
  case (1 s)
  then obtain f where f: "find_idx (\<lambda>x. fref x = 0) (files s) = Some f"
    by (cases "find_idx (\<lambda>x. fref x = 0) (files s)") (auto simp: free_files_def find_idx_None)
  let ?u = "s\<lparr>files := upd_at f (\<lambda>x. x\<lparr>fref := 1\<rparr>) (files s)\<rparr>"
  note i = find_idx_in_range [OF f] find_idx_holds [OF f]
  have "f \<in> free_files s" using i by (simp add: free_files_def)
  moreover have "free_files ?u = free_files s - {f}" by (auto simp: free_files_def nth_upd_at split: if_splits)
  moreover have "quiet p (?u\<lparr>cpus := crit ?u\<rparr>)" using 1 by (intro quiet_crit) simp
  ultimately show ?case using filealloc_some [OF 1(1) f] by (simp add: Let_def)
next
  case (2 s)
  then have "find_idx (\<lambda>x. fref x = 0) (files s) = None"
    by (auto simp: free_files_def find_idx_None in_set_conv_nth)
  with 2 show ?case using filealloc_none [OF 2(1)] quiet_crit [OF 2(1)] by auto
qed

section \<open>Reference counts\<close>

lemma pipeclose_open:
  assumes q: "quiet p s" and o: "if w then readopen (pipes s pi) else writeopen (pipes s pi)"
  shows "\<exists>t. pipeclose pi w s = Ret () t \<and> quiet p t \<and> files t = files s \<and>
    pipes t = (pipes s)(pi := (if w then (pipes s pi)\<lparr>writeopen := False\<rparr> else (pipes s pi)\<lparr>readopen := False\<rparr>)) \<and>
    procs t = map (woken_proc (ticks s) (if w then PipeReadChan pi else PipeWriteChan pi)) (procs s)"
proof -
  define x where "x = (if w then (pipes s pi)\<lparr>writeopen := False\<rparr> else (pipes s pi)\<lparr>readopen := False\<rparr>)"
  define u where "u = s\<lparr>pipes := (pipes s)(pi := x)\<rparr>"
  define ch where "ch = (if w then PipeReadChan pi else PipeWriteChan pi)"
  have qu: "quiet p u" using q by (simp add: u_def)
  obtain v where v: "wakeup ch (inlock (PipeLk pi) u) = Ret () (inlock (PipeLk pi) v)" "calm p u v"
    "procs v = map (woken_proc (ticks u) ch) (procs u)"
    by (rule wakeup_quiet [OF qu, of "PipeLk pi" ch]) auto
  have "files v = files u" using arg_cong [OF calmD(3) [OF v(2)], of files] by simp
  moreover have "readopen x \<or> writeopen x" using o by (simp add: x_def split: if_splits)
  moreover have "pipes v pi = x" using calm_pipes [OF v(2)] by (simp add: u_def)
  ultimately have "pipeclose pi w s = Ret () (v\<lparr>cpus := crit v\<rparr>)"
    using v(1) release_quiet [OF calmD(1) [OF v(2)], of "PipeLk pi"]
    by (cases w) (simp_all add: pipeclose_def acquire_quiet [OF q] updpipe_inlock getpipe_inlock u_def x_def ch_def)
  then show ?thesis using quiet_crit [OF calmD(1) [OF v(2)]] \<open>files v = files u\<close> v(3) calm_pipes [OF v(2)]
    by (simp add: u_def x_def ch_def)
qed

lemma filedup_eq:
  assumes q: "quiet p s" and f: "f < length (files s)" "1 \<le> fref (files s ! f)"
  shows "\<exists>t. filedup f s = Ret f t \<and> quiet p t \<and> pipes t = pipes s \<and> files t = upd_at f (\<lambda>x. x\<lparr>fref := fref x + 1\<rparr>) (files s)"
proof -
  let ?u = "s\<lparr>files := upd_at f (\<lambda>x. x\<lparr>fref := fref x + 1\<rparr>) (files s)\<rparr>"
  have qu: "quiet p ?u" using q by simp
  have "filedup f s = Ret f (?u\<lparr>cpus := crit ?u\<rparr>)"
    using f by (simp add: filedup_def acquire_quiet [OF q] getf_inlock updf_inlock release_quiet [OF qu])
  then show ?thesis using quiet_crit [OF qu] by simp
qed

lemma fileclose_shared:
  assumes q: "quiet p s" and f: "f < length (files s)" "1 < fref (files s ! f)"
  shows "\<exists>t. fileclose f s = Ret () t \<and> quiet p t \<and> pipes t = pipes s \<and> files t = upd_at f (\<lambda>x. x\<lparr>fref := fref x - 1\<rparr>) (files s)"
proof -
  let ?u = "s\<lparr>files := upd_at f (\<lambda>x. x\<lparr>fref := fref x - 1\<rparr>) (files s)\<rparr>"
  have qu: "quiet p ?u" using q by simp
  have "fileclose f s = Ret () (?u\<lparr>cpus := crit ?u\<rparr>)"
    using f by (simp add: fileclose_def acquire_quiet [OF q] getf_inlock updf_inlock release_quiet [OF qu])
  then show ?thesis using quiet_crit [OF qu] by simp
qed

lemma fileclose_last:
  assumes q: "quiet p s" and f: "f < length (files s)" "fref (files s ! f) = 1" "ftype (files s ! f) = FD_PIPE"
  shows "\<exists>u. fileclose f s = pipeclose (fpipe (files s ! f)) (fwritable (files s ! f)) u \<and> quiet p u \<and> pipes u = pipes s \<and>
    procs u = procs s \<and> ticks u = ticks s \<and> files u = upd_at f (\<lambda>x. x\<lparr>fref := 0, ftype := FD_NONE\<rparr>) (files s)"
proof -
  let ?u = "s\<lparr>files := upd_at f (\<lambda>x. x\<lparr>fref := 0, ftype := FD_NONE\<rparr>) (files s)\<rparr>"
  have qu: "quiet p ?u" using q by simp
  have "upd_at f (\<lambda>x. (x\<lparr>fref := fref x - 1\<rparr>)\<lparr>fref := 0, ftype := FD_NONE\<rparr>) (files s) =
      upd_at f (\<lambda>x. x\<lparr>fref := 0, ftype := FD_NONE\<rparr>) (files s)" by simp
  then have "fileclose f s = pipeclose (fpipe (files s ! f)) (fwritable (files s ! f)) (?u\<lparr>cpus := crit ?u\<rparr>)"
    using f release_quiet [OF qu, of FtableLk]
    by (simp add: fileclose_def acquire_quiet [OF q] getf_inlock updf_inlock)
  then show ?thesis using quiet_crit [OF qu] by (intro exI [of _ "?u\<lparr>cpus := crit ?u\<rparr>"]) simp
qed

text \<open>
  C17: reference counts of the file table, for a descriptor of a pipe whose other end is open. \<open>filedup\<close> adds a
  reference. \<open>fileclose\<close> removes one, and while others remain the pipe is not touched. The last \<open>fileclose\<close> makes
  the slot available to \<open>filealloc\<close> again, closes exactly its end of the pipe, and wakes the processes that wait
  at the other end, so that they see the end of the file or the broken pipe.
\<close>

theorem file_reference_counts:
  assumes "quiet p s" "f < length (files s)" "x = files s ! f" "1 \<le> fref x" "ftype x = FD_PIPE"
    "if fwritable x then readopen (pipes s (fpipe x)) else writeopen (pipes s (fpipe x))"
  shows "(\<exists>t. filedup f s = Ret f t \<and> quiet p t \<and> fref (files t ! f) = fref x + 1 \<and> pipes t = pipes s) \<and>
    (if fref x > 1 then \<exists>t. fileclose f s = Ret () t \<and> quiet p t \<and> fref (files t ! f) = fref x - 1 \<and> pipes t = pipes s
     else \<exists>t. fileclose f s = Ret () t \<and> quiet p t \<and> f \<in> free_files t \<and>
       readopen (pipes t (fpipe x)) = (readopen (pipes s (fpipe x)) \<and> fwritable x) \<and>
       writeopen (pipes t (fpipe x)) = (writeopen (pipes s (fpipe x)) \<and> \<not> fwritable x) \<and>
       procs t = map (woken_proc (ticks s) (if fwritable x then PipeReadChan (fpipe x) else PipeWriteChan (fpipe x))) (procs s))"
proof (intro conjI)
  show "\<exists>t. filedup f s = Ret f t \<and> quiet p t \<and> fref (files t ! f) = fref x + 1 \<and> pipes t = pipes s"
    using filedup_eq [OF assms(1,2)] assms(2-4) by auto
  show "if fref x > 1 then \<exists>t. fileclose f s = Ret () t \<and> quiet p t \<and> fref (files t ! f) = fref x - 1 \<and> pipes t = pipes s
     else \<exists>t. fileclose f s = Ret () t \<and> quiet p t \<and> f \<in> free_files t \<and>
       readopen (pipes t (fpipe x)) = (readopen (pipes s (fpipe x)) \<and> fwritable x) \<and>
       writeopen (pipes t (fpipe x)) = (writeopen (pipes s (fpipe x)) \<and> \<not> fwritable x) \<and>
       procs t = map (woken_proc (ticks s) (if fwritable x then PipeReadChan (fpipe x) else PipeWriteChan (fpipe x))) (procs s)"
  proof (cases "fref x > 1")
    case True
    then show ?thesis using fileclose_shared [OF assms(1,2)] assms(2,3) by auto
  next
    case False
    then obtain u where u: "fileclose f s = pipeclose (fpipe x) (fwritable x) u" "quiet p u" "pipes u = pipes s"
      "procs u = procs s" "ticks u = ticks s" "files u = upd_at f (\<lambda>x. x\<lparr>fref := 0, ftype := FD_NONE\<rparr>) (files s)"
      using fileclose_last [OF assms(1,2)] assms(3-5) by auto
    from pipeclose_open [OF u(2), of "fwritable x" "fpipe x"] assms(6) u
    show ?thesis using False assms(2) by (auto simp: free_files_def)
  qed
qed

definition ex_file :: file_state where
  "ex_file = pipe_state.extend ex_pipe \<lparr>files = [\<lparr>ftype = FD_PIPE, fref = 1, freadable = False, fwritable = True, fpipe = 0,
     fip = None, foff = 0\<rparr>]\<rparr>"

lemma ex_file_quiet: "quiet 0 ex_file"
  using ex_pipe_quiet by (simp add: quiet_def ex_file_def pipe_state.defs)

theorem file_reference_counts_witness:
  "(\<exists>t. filedup 0 ex_file = Ret 0 t \<and> fref (files t ! 0) = 2) \<and> (\<exists>t. fileclose 0 ex_file = Ret () t \<and> \<not> writeopen (pipes t 0))"
proof -
  have "length (files ex_file) = 1" "ftype (files ex_file ! 0) = FD_PIPE" "fref (files ex_file ! 0) = 1"
    "fwritable (files ex_file ! 0)" "fpipe (files ex_file ! 0) = 0" "readopen (pipes ex_file 0)"
    by (simp_all add: ex_file_def pipe_state.defs ex_pipe_def con_state.defs)
  then show ?thesis using file_reference_counts [OF ex_file_quiet, of 0] by auto
qed

end
