(* ===== verification/Proclife.thy ===== *)
theory Proclife
  imports File
begin

text \<open>
  Model of the other half of \<open>proc.c\<close>: creation, growth and termination of processes and threads.

  Trap frames and contexts are in the modelled memory, at the addresses the process table holds; \<open>tf_eax\<close>
  and the like are the offsets of their fields. \<open>trapret\<close> and \<open>forkret_pc\<close> are the addresses of the routines a
  new process starts in, \<open>initcode_start\<close> and \<open>initcode_size\<close> the boot program the linker embeds.
  A process name is the string in the fixed-size array, without the NUL.
\<close>

section \<open>State\<close>

record life_state = file_state +
  trapret :: uint
  forkret_pc :: uint
  initcode_start :: uint
  initcode_size :: uint
  first :: bool

abbreviation tf_ebp :: uint where "tf_ebp \<equiv> 8"
abbreviation tf_eax :: uint where "tf_eax \<equiv> 28"
abbreviation tf_es :: uint where "tf_es \<equiv> 40"
abbreviation tf_ds :: uint where "tf_ds \<equiv> 44"
abbreviation tf_trapno :: uint where "tf_trapno \<equiv> 48"
abbreviation tf_err :: uint where "tf_err \<equiv> 52"
abbreviation tf_eip :: uint where "tf_eip \<equiv> 56"
abbreviation tf_cs :: uint where "tf_cs \<equiv> 60"
abbreviation tf_eflags :: uint where "tf_eflags \<equiv> 64"
abbreviation tf_esp :: uint where "tf_esp \<equiv> 68"
abbreviation tf_ss :: uint where "tf_ss \<equiv> 72"
abbreviation tf_size :: uint where "tf_size \<equiv> 76"
abbreviation ctx_size :: uint where "ctx_size \<equiv> 20"
abbreviation ctx_eip :: uint where "ctx_eip \<equiv> 16"
abbreviation KSTACKSIZE :: uint where "KSTACKSIZE \<equiv> 4096"
abbreviation NOFILE :: nat where "NOFILE \<equiv> 16"

definition put_mem32 :: "uint \<Rightarrow> uint \<Rightarrow> ('z kmem_state_scheme, unit) kfun" where
  "put_mem32 a v = modify (\<lambda>s. s\<lparr>mem := store32 (mem s) a v\<rparr>)"

definition put_mem16 :: "uint \<Rightarrow> ushort \<Rightarrow> ('z kmem_state_scheme, unit) kfun" where
  "put_mem16 a v = modify (\<lambda>s. s\<lparr>mem := (mem s)(a := ucast v, a + 1 := ucast (drop_bit 8 v))\<rparr>)"

definition get_mem32 :: "uint \<Rightarrow> ('z kmem_state_scheme, uint) kfun" where
  "get_mem32 a = gets (\<lambda>s. load32 (mem s) a)"

text \<open>\<open>safestrcpy(name, t, sizeof(name))\<close>.\<close>

definition safe_name :: "byte list \<Rightarrow> byte list" where
  "safe_name t = take 15 (takeWhile (\<lambda>b. b \<noteq> 0) t)"

definition curproc :: "('z pstate_scheme, nat) kfun" where
  "curproc = mbind myproc deref"

section \<open>Creation\<close>

definition allocproc :: "('z life_state_scheme, nat option) kfun" where
  "allocproc =
     mbind (acquire PtableLk) (\<lambda>_.
     mbind (gets (\<lambda>s. find_idx (\<lambda>p. state p = UNUSED) (procs s))) (\<lambda>r. case r of
       None \<Rightarrow> mbind (release PtableLk) (\<lambda>_. ret None)
     | Some p \<Rightarrow>
         mbind (upd_proc p (\<lambda>x. x\<lparr>state := EMBRYO\<rparr>)) (\<lambda>_.
         mbind (gets nextpid) (\<lambda>n.
         mbind (upd_proc p (\<lambda>x. x\<lparr>pid := n\<rparr>)) (\<lambda>_.
         mbind (modify (\<lambda>s. s\<lparr>nextpid := nextpid s + 1\<rparr>)) (\<lambda>_.
         mbind (gets nexttgid) (\<lambda>n.
         mbind (upd_proc p (\<lambda>x. x\<lparr>tgid := n\<rparr>)) (\<lambda>_.
         mbind (modify (\<lambda>s. s\<lparr>nexttgid := nexttgid s + 1\<rparr>)) (\<lambda>_.
         mbind (release PtableLk) (\<lambda>_.
         mbind kalloc (\<lambda>k.
         mbind (upd_proc p (\<lambda>x. x\<lparr>kstack := k\<rparr>)) (\<lambda>_.
         if k = 0 then mbind (upd_proc p (\<lambda>x. x\<lparr>state := UNUSED\<rparr>)) (\<lambda>_. ret None) else
         let t = k + KSTACKSIZE - tf_size; r = t - 4; c = r - ctx_size in
         mbind (upd_proc p (\<lambda>x. x\<lparr>tf := t\<rparr>)) (\<lambda>_.
         mbind (mbind (gets trapret) (put_mem32 r)) (\<lambda>_.
         mbind (upd_proc p (\<lambda>x. x\<lparr>pcontext := c\<rparr>)) (\<lambda>_.
         mbind (modify (\<lambda>s. s\<lparr>mem := memset (mem s) c 0 ctx_size\<rparr>)) (\<lambda>_.
         mbind (mbind (gets forkret_pc) (put_mem32 (c + ctx_eip))) (\<lambda>_.
         mbind (gets ticks) (\<lambda>now.
         mbind (upd_proc p (\<lambda>x. x\<lparr>ctime := sint now, etime := 0, rtime := 0, iotime := 0,
                  waitshh := -1282128, num_run := 0, priority := 50\<rparr>)) (\<lambda>_.
         mbind (gets policy) (\<lambda>pol.
         mbind (if pol = MLFQ then
                  upd_proc p (\<lambda>x. x\<lparr>curr_ticks := 0, pqueue := 0, enter := 0, qticks := replicate 5 0\<rparr>)
                else ret ()) (\<lambda>_.
         ret (Some p))))))))))))))))))))))"

text \<open>The last part of creating a process: it becomes runnable and is queued.\<close>

definition make_runnable :: "nat \<Rightarrow> ('z pstate_scheme, unit) kfun" where
  "make_runnable p =
     mbind (acquire PtableLk) (\<lambda>_.
     mbind (upd_proc p (\<lambda>x. x\<lparr>state := RUNNABLE\<rparr>)) (\<lambda>_.
     mbind (gets policy) (\<lambda>pol.
     mbind (if pol = MLFQ then mbind (add_proc_to_q p 0) (\<lambda>_. ret ()) else ret ()) (\<lambda>_.
     release PtableLk))))"

definition userinit :: "('z life_state_scheme, unit) kfun" where
  "userinit =
     mbind allocproc (\<lambda>r.
     mbind (modify (\<lambda>s. s\<lparr>initproc := r\<rparr>)) (\<lambda>_.
     mbind setupkvm (\<lambda>d.
     mbind (deref r) (\<lambda>p.
     mbind (upd_proc p (\<lambda>x. x\<lparr>pgdir := d\<rparr>)) (\<lambda>_.
     if d = 0 then panic ''userinit: out of memory?'' else
     mbind (gets (\<lambda>s. (initcode_start s, initcode_size s))) (\<lambda>(start, size).
     mbind (inituvm d start size) (\<lambda>_.
     mbind (upd_proc p (\<lambda>x. x\<lparr>sz := PGSIZE\<rparr>)) (\<lambda>_.
     mbind (getp p) (\<lambda>pr.
     let t = tf pr in
     mbind (modify (\<lambda>s. s\<lparr>mem := memset (mem s) t 0 tf_size\<rparr>)) (\<lambda>_.
     mbind (put_mem16 (t + tf_cs) 0x1b) (\<lambda>_.
     mbind (put_mem16 (t + tf_ds) 0x23) (\<lambda>_.
     mbind (put_mem16 (t + tf_es) 0x23) (\<lambda>_.
     mbind (put_mem16 (t + tf_ss) 0x23) (\<lambda>_.
     mbind (put_mem32 (t + tf_eflags) 0x200) (\<lambda>_.
     mbind (put_mem32 (t + tf_esp) PGSIZE) (\<lambda>_.
     mbind (put_mem32 (t + tf_eip) 0) (\<lambda>_.
     mbind (upd_proc p (\<lambda>x. x\<lparr>pname := safe_name (map of_char ''initcode'')\<rparr>)) (\<lambda>_.
     mbind (namei [47]) (\<lambda>c.
     mbind (upd_proc p (\<lambda>x. x\<lparr>cwd := c\<rparr>)) (\<lambda>_.
     make_runnable p))))))))))))))))))))"

definition growproc :: "int \<Rightarrow> ('z life_state_scheme, int) kfun" where
  "growproc n =
     mbind curproc (\<lambda>me.
     mbind (getp me) (\<lambda>pr.
     mbind (if n > 0 then allocuvm (pgdir pr) (sz pr) (sz pr + word_of_int n)
            else if n < 0 then deallocuvm (pgdir pr) (sz pr) (sz pr + word_of_int n)
            else ret (sz pr)) (\<lambda>size.
     if n \<noteq> 0 \<and> size = 0 then ret (-1) else
     mbind (upd_proc me (\<lambda>x. x\<lparr>sz := size\<rparr>)) (\<lambda>_.
     mbind (acquire PtableLk) (\<lambda>_.
     mbind (gets (\<lambda>s. length (procs s))) (\<lambda>k.
     mbind (mforeach [0..<k] (\<lambda>p.
       mbind (getp p) (\<lambda>q.
       if pgdir q \<noteq> pgdir pr then ret () else
       mbind (upd_proc p (\<lambda>x. x\<lparr>sz := size\<rparr>)) (\<lambda>_.
       switchuvm p)))) (\<lambda>_.
     mbind (release PtableLk) (\<lambda>_.
     mbind (switchuvm me) (\<lambda>_.
     ret 0)))))))))"

text \<open>The open files and the working directory of a new process are those of its creator.\<close>

definition dup_files :: "nat \<Rightarrow> nat \<Rightarrow> ('z life_state_scheme, unit) kfun" where
  "dup_files me np =
     mbind (mforeach [0..<NOFILE] (\<lambda>i.
       mbind (getp me) (\<lambda>pr. case ofile pr ! i of
         None \<Rightarrow> ret ()
       | Some f \<Rightarrow> mbind (filedup f) (\<lambda>g. upd_proc np (\<lambda>x. x\<lparr>ofile := (ofile x)[i := Some g]\<rparr>))))) (\<lambda>_.
     mbind (getp me) (\<lambda>pr.
     mbind (deref (cwd pr)) (\<lambda>c.
     mbind (idup c) (\<lambda>c.
     upd_proc np (\<lambda>x. x\<lparr>cwd := Some c\<rparr>)))))"

definition fork :: "('z life_state_scheme, int) kfun" where
  "fork =
     mbind curproc (\<lambda>me.
     mbind allocproc (\<lambda>r. case r of
       None \<Rightarrow> ret (-1)
     | Some np \<Rightarrow>
         mbind (getp me) (\<lambda>pr.
         mbind (copyuvm (pgdir pr) (sz pr)) (\<lambda>d.
         mbind (upd_proc np (\<lambda>x. x\<lparr>pgdir := d\<rparr>)) (\<lambda>_.
         mbind (getp np) (\<lambda>nr.
         if d = 0 then
           mbind (kfree (kstack nr)) (\<lambda>_.
           mbind (upd_proc np (\<lambda>x. x\<lparr>kstack := 0\<rparr>)) (\<lambda>_.
           mbind (upd_proc np (\<lambda>x. x\<lparr>state := UNUSED\<rparr>)) (\<lambda>_.
           ret (-1))))
         else
           mbind (upd_proc np (\<lambda>x. x\<lparr>sz := sz pr, parent := Some me\<rparr>)) (\<lambda>_.
           mbind (modify (\<lambda>s. s\<lparr>mem := memmove (mem s) (tf nr) (tf pr) tf_size\<rparr>)) (\<lambda>_.
           mbind (put_mem32 (tf nr + tf_eax) 0) (\<lambda>_.
           mbind (dup_files me np) (\<lambda>_.
           mbind (getp me) (\<lambda>pr.
           mbind (upd_proc np (\<lambda>x. x\<lparr>pname := safe_name (pname pr)\<rparr>)) (\<lambda>_.
           mbind (getp np) (\<lambda>nr.
           mbind (make_runnable np) (\<lambda>_.
           ret (pid nr)))))))))))))))"

definition clone :: "uint \<Rightarrow> uint \<Rightarrow> uint \<Rightarrow> ('z life_state_scheme, int) kfun" where
  "clone function arg stack =
     mbind curproc (\<lambda>me.
     mbind allocproc (\<lambda>r. case r of
       None \<Rightarrow> ret (-1)
     | Some np \<Rightarrow>
         mbind (getp me) (\<lambda>pr.
         mbind (getp np) (\<lambda>nr.
         mbind (upd_proc np (\<lambda>x. x\<lparr>sz := sz pr, pgdir := pgdir pr, parent := Some me\<rparr>)) (\<lambda>_.
         mbind (modify (\<lambda>s. s\<lparr>mem := memmove (mem s) (tf nr) (tf pr) tf_size\<rparr>)) (\<lambda>_.
         mbind (upd_proc np (\<lambda>x. x\<lparr>tgid := tgid pr, tfunction := function\<rparr>)) (\<lambda>_.
         mbind (ustore32 (stack + PGSIZE - 4) arg) (\<lambda>_.
         mbind (ustore32 (stack + PGSIZE - 8) 0xFFFFFFFF) (\<lambda>_.
         mbind (put_mem32 (tf nr + tf_esp) (stack + PGSIZE - 8)) (\<lambda>_.
         mbind (put_mem32 (tf nr + tf_ebp) (stack + PGSIZE - 8)) (\<lambda>_.
         mbind (put_mem32 (tf nr + tf_eip) function) (\<lambda>_.
         mbind (upd_proc np (\<lambda>x. x\<lparr>tstack := stack\<rparr>)) (\<lambda>_.
         mbind (put_mem32 (tf nr + tf_eax) 0) (\<lambda>_.
         mbind (dup_files me np) (\<lambda>_.
         mbind (getp me) (\<lambda>pr.
         mbind (upd_proc np (\<lambda>x. x\<lparr>pname := safe_name (pname pr)\<rparr>)) (\<lambda>_.
         mbind (getp np) (\<lambda>nr.
         mbind (make_runnable np) (\<lambda>_.
         mbind (printinfo np) (\<lambda>_.
         ret (pid nr)))))))))))))))))))))"

section \<open>Termination\<close>

definition wake_opt :: "nat option \<Rightarrow> ('z pstate_scheme, unit) kfun" where
  "wake_opt r = (case r of Some p \<Rightarrow> wakeup1 (ProcChan p) | None \<Rightarrow> ret ())"

definition exit :: "('z life_state_scheme, unit) kfun" where
  "exit =
     mbind curproc (\<lambda>me.
     mbind (gets initproc) (\<lambda>init.
     if init = Some me then panic ''init exiting'' else
     mbind (mforeach [0..<NOFILE] (\<lambda>fd.
       mbind (getp me) (\<lambda>pr. case ofile pr ! fd of
         None \<Rightarrow> ret ()
       | Some f \<Rightarrow>
           mbind (fileclose f) (\<lambda>_.
           upd_proc me (\<lambda>x. x\<lparr>ofile := (ofile x)[fd := None]\<rparr>))))) (\<lambda>_.
     mbind begin_op (\<lambda>_.
     mbind (getp me) (\<lambda>pr.
     mbind (mbind (deref (cwd pr)) iput) (\<lambda>_.
     mbind end_op (\<lambda>_.
     mbind (upd_proc me (\<lambda>x. x\<lparr>cwd := None\<rparr>)) (\<lambda>_.
     mbind (acquire PtableLk) (\<lambda>_.
     mbind (getp me) (\<lambda>pr.
     mbind (wake_opt (parent pr)) (\<lambda>_.
     mbind (gets (\<lambda>s. length (procs s))) (\<lambda>n.
     mbind (mforeach [0..<n] (\<lambda>p.
       mbind (getp p) (\<lambda>q.
       if parent q = Some me then
         mbind (upd_proc p (\<lambda>x. x\<lparr>parent := init\<rparr>)) (\<lambda>_.
         if state q = ZOMBIE then wake_opt init else ret ())
       else ret ()))) (\<lambda>_.
     mbind (upd_proc me (\<lambda>x. x\<lparr>state := ZOMBIE\<rparr>)) (\<lambda>_.
     mbind (gets ticks) (\<lambda>now.
     mbind (upd_proc me (\<lambda>x. x\<lparr>etime := sint now\<rparr>)) (\<lambda>_.
     mbind (upd_proc me (\<lambda>x. x\<lparr>waitshh := etime x - ctime x\<rparr>)) (\<lambda>_.
     mbind (getp me) (\<lambda>pr.
     mbind (cprintf ''[Terminate] --> Total Time for pid [%d] is [%d]'' [Num (pid pr), Num (etime pr - ctime pr)]) (\<lambda>_.
     mbind sched (\<lambda>_.
     panic ''zombie exit''))))))))))))))))))))"

text \<open>
  The scan of the process table \<open>wait\<close>, \<open>waitx\<close> and \<open>join\<close> share: the first zombie that satisfies \<open>mine\<close> is
  reaped and ends the scan; otherwise the scan tells whether any process satisfied it.
\<close>

fun wait_scan :: "(proc \<Rightarrow> bool) \<Rightarrow> (nat \<Rightarrow> ('z life_state_scheme, int) kfun) \<Rightarrow> nat list \<Rightarrow> bool \<Rightarrow>
    ('z life_state_scheme, int + bool) kfun" where
  "wait_scan child reap [] havekids = ret (Inr havekids)"
| "wait_scan child reap (p # ps) havekids =
     mbind (getp p) (\<lambda>pr.
     if \<not> child pr then wait_scan child reap ps havekids
     else if state pr = ZOMBIE then mbind (reap p) (\<lambda>n. ret (Inl n))
     else wait_scan child reap ps True)"

text \<open>
  One turn of their endless loop, with \<open>ptable.lock\<close> held: it ends in a result or in \<open>sleep\<close>, after which
  the loop is run again.
\<close>

definition wait_loop :: "nat \<Rightarrow> (proc \<Rightarrow> proc \<Rightarrow> bool) \<Rightarrow> (nat \<Rightarrow> ('z life_state_scheme, int) kfun) \<Rightarrow>
    ('z life_state_scheme, int) kfun" where
  "wait_loop me child reap =
     mbind (getp me) (\<lambda>pr.
     mbind (gets (\<lambda>s. length (procs s))) (\<lambda>n.
     mbind (wait_scan (child pr) reap [0..<n] False) (\<lambda>r. case r of
       Inl k \<Rightarrow> mbind (release PtableLk) (\<lambda>_. ret k)
     | Inr havekids \<Rightarrow>
         mbind (getp me) (\<lambda>pr.
         if \<not> havekids \<or> killed pr then mbind (release PtableLk) (\<lambda>_. ret (-1))
         else sleep_in (ProcChan me) PtableLk))))"

text \<open>Taking a process off its queue and giving its resources back, in \<open>wait\<close> and \<open>waitx\<close>.\<close>

definition reap_common :: "nat \<Rightarrow> ('z life_state_scheme, unit) kfun" where
  "reap_common p =
     mbind (getp p) (\<lambda>pr.
     mbind (kfree (kstack pr)) (\<lambda>_.
     mbind (upd_proc p (\<lambda>x. x\<lparr>kstack := 0\<rparr>)) (\<lambda>_.
     mbind (freevm (pgdir pr)) (\<lambda>_.
     mbind (gets policy) (\<lambda>pol.
     if pol = MLFQ then
       mbind (remove_proc_from_q p (pqueue pr)) (\<lambda>_.
       upd_proc p (\<lambda>x. x\<lparr>pqueue := -1\<rparr>))
     else ret ())))))"

definition wait_child :: "nat \<Rightarrow> proc \<Rightarrow> proc \<Rightarrow> bool" where
  "wait_child me pr q \<longleftrightarrow> \<not> (parent q \<noteq> Some me \<and> pgdir q \<noteq> pgdir pr)"

definition wait_reap :: "nat \<Rightarrow> ('z life_state_scheme, int) kfun" where
  "wait_reap p =
     mbind (getp p) (\<lambda>pr.
     mbind (reap_common p) (\<lambda>_.
     mbind (upd_proc p (\<lambda>x. x\<lparr>pid := 0, tgid := 0, parent := None, pname := (pname x)[0 := 0], killed := False, state := UNUSED\<rparr>)) (\<lambda>_.
     ret (pid pr))))"

definition wait :: "('z life_state_scheme, int) kfun" where
  "wait = mbind curproc (\<lambda>me. mbind (acquire PtableLk) (\<lambda>_. wait_loop me (wait_child me) wait_reap))"

definition wait_resume :: "nat \<Rightarrow> bool \<Rightarrow> ('z life_state_scheme, int) kfun" where
  "wait_resume me ie = mbind (sleep_resume me PtableLk ie) (\<lambda>_. wait_loop me (wait_child me) wait_reap)"

definition waitx_reap :: "uint \<Rightarrow> uint \<Rightarrow> nat \<Rightarrow> ('z life_state_scheme, int) kfun" where
  "waitx_reap wtime rt p =
     mbind (getp p) (\<lambda>pr.
     mbind (ustore32 rt (word_of_int (rtime pr))) (\<lambda>_.
     mbind (ustore32 wtime (word_of_int (etime pr - ctime pr - rtime pr - iotime pr))) (\<lambda>_.
     mbind (reap_common p) (\<lambda>_.
     mbind (upd_proc p (\<lambda>x. x\<lparr>pid := 0, parent := None, pname := (pname x)[0 := 0], killed := False, state := UNUSED\<rparr>)) (\<lambda>_.
     ret (pid pr))))))"

definition waitx :: "uint \<Rightarrow> uint \<Rightarrow> ('z life_state_scheme, int) kfun" where
  "waitx wtime rt =
     mbind curproc (\<lambda>me.
     mbind (acquire PtableLk) (\<lambda>_.
     wait_loop me (\<lambda>_ q. parent q = Some me) (waitx_reap wtime rt)))"

definition join_child :: "nat \<Rightarrow> int \<Rightarrow> proc \<Rightarrow> proc \<Rightarrow> bool" where
  "join_child me tid pr q \<longleftrightarrow> \<not> (parent q \<noteq> Some me \<or> pgdir q \<noteq> pgdir pr \<or> pid q \<noteq> tid)"

definition join_reap :: "uint \<Rightarrow> nat \<Rightarrow> ('z life_state_scheme, int) kfun" where
  "join_reap stack p =
     mbind (getp p) (\<lambda>pr.
     mbind (kfree (kstack pr)) (\<lambda>_.
     mbind (upd_proc p (\<lambda>x. x\<lparr>kstack := 0\<rparr>)) (\<lambda>_.
     mbind (ustore32 stack (tstack pr)) (\<lambda>_.
     mbind (upd_proc p (\<lambda>x. x\<lparr>tstack := 0, pid := 0, parent := None, pname := (pname x)[0 := 0], killed := False, state := UNUSED\<rparr>)) (\<lambda>_.
     ret (pid pr))))))"

definition join :: "int \<Rightarrow> uint \<Rightarrow> ('z life_state_scheme, int) kfun" where
  "join tid stack =
     mbind curproc (\<lambda>me.
     mbind (acquire PtableLk) (\<lambda>_.
     wait_loop me (join_child me tid) (join_reap stack)))"

text \<open>What a new process does first when it is scheduled.\<close>

definition forkret :: "('z life_state_scheme, unit) kfun" where
  "forkret =
     mbind (release PtableLk) (\<lambda>_.
     mbind (gets first) (\<lambda>f.
     if f then
       mbind (modify (\<lambda>s. s\<lparr>first := False\<rparr>)) (\<lambda>_.
       mbind (iinit 1) (\<lambda>_.
       initlog 1))
     else ret ()))"

end
