(* ===== verification/Sysargs.thy ===== *)
theory Sysargs
  imports Proclife
begin

text \<open>
  Model of the first half of \<open>syscall.c\<close>: fetching the arguments of a system call from the stack of the
  calling process. A failure, result \<open>-1\<close> in the code, is \<open>None\<close>. \<open>fetchstr\<close> also returns the characters of
  the string, which the routines that use the pointer read.
\<close>

definition fetchint :: "uint \<Rightarrow> ('z pstate_scheme, uint option) kfun" where
  "fetchint addr =
     mbind curproc (\<lambda>me.
     mbind (getp me) (\<lambda>pr.
     if addr \<ge> sz pr \<or> addr + 4 > sz pr then ret None else
     mbind (uload32 addr) (\<lambda>v. ret (Some v))))"

fun fetchstr_loop :: "uint \<Rightarrow> nat \<Rightarrow> ('z pstate_scheme, byte list option) kfun" where
  "fetchstr_loop s 0 = ret None"
| "fetchstr_loop s (Suc n) =
     mbind (uload8 s) (\<lambda>b.
     if b = 0 then ret (Some []) else
     mbind (fetchstr_loop (s + 1) n) (\<lambda>r. ret (map_option (\<lambda>bs. b # bs) r)))"

definition fetchstr :: "uint \<Rightarrow> ('z pstate_scheme, byte list option) kfun" where
  "fetchstr addr =
     mbind curproc (\<lambda>me.
     mbind (getp me) (\<lambda>pr.
     if addr \<ge> sz pr then ret None else
     fetchstr_loop addr (unat (sz pr - addr))))"

definition argint :: "nat \<Rightarrow> ('z pstate_scheme, uint option) kfun" where
  "argint n =
     mbind curproc (\<lambda>me.
     mbind (getp me) (\<lambda>pr.
     mbind (get_mem32 (tf pr + tf_esp)) (\<lambda>esp.
     fetchint (esp + 4 + 4 * of_nat n))))"

definition argptr :: "nat \<Rightarrow> int \<Rightarrow> ('z pstate_scheme, uint option) kfun" where
  "argptr n len =
     mbind curproc (\<lambda>me.
     mbind (argint n) (\<lambda>r. case r of
       None \<Rightarrow> ret None
     | Some i \<Rightarrow>
         mbind (getp me) (\<lambda>pr.
         if len < 0 \<or> i \<ge> sz pr \<or> i + word_of_int len > sz pr then ret None
         else ret (Some i))))"

definition argstr :: "nat \<Rightarrow> ('z pstate_scheme, byte list option) kfun" where
  "argstr n = mbind (argint n) (\<lambda>r. case r of None \<Rightarrow> ret None | Some addr \<Rightarrow> fetchstr addr)"

text \<open>An argument that is needed: the system call returns \<open>-1\<close> when it cannot be fetched.\<close>

definition need :: "('s, 'a option) kfun \<Rightarrow> ('a \<Rightarrow> ('s, int) kfun) \<Rightarrow> ('s, int) kfun" where
  "need m f = mbind m (\<lambda>r. case r of None \<Rightarrow> ret (-1) | Some x \<Rightarrow> f x)"

lemma need_apply [simp]:
  "need m f s = (case m s of
      Ret r t \<Rightarrow> (case r of None \<Rightarrow> Ret (-1) t | Some x \<Rightarrow> f x t)
    | Swtch t \<Rightarrow> Swtch t
    | Spin lk t \<Rightarrow> Spin lk t
    | Stop e \<Rightarrow> Stop e)"
  by (simp add: need_def split: res.split option.split)

section \<open>Arguments stay inside the process\<close>

lemma curproc_quiet: "quiet p s \<Longrightarrow> curproc s = Ret p (s\<lparr>cpus := crit s\<rparr>)"
  using quietD [of p s] by (simp add: curproc_def deref_def crit_def)

lemma uload8_state: "uload8 va s = Ret b t \<Longrightarrow> t = s"
  by (auto simp: uload8_def cur_pgdir_def split: option.splits)

lemma uload32_state: "uload32 va s = Ret v t \<Longrightarrow> t = s"
  by (auto simp: uload32_def dest!: uload8_state split: res.splits)

lemma fetchint_state: "quiet p s \<Longrightarrow> fetchint addr s = Ret r t \<Longrightarrow> t = s\<lparr>cpus := crit s\<rparr>"
  using quietD(4) [of p s]
  by (auto simp: fetchint_def curproc_quiet getp_def dest!: uload32_state split: if_splits res.splits)

lemma argint_state:
  assumes "quiet p s" "argint n s = Ret r t"
  shows "t = s\<lparr>cpus := crit s\<rparr>"
proof -
  let ?u = "s\<lparr>cpus := crit s\<rparr>"
  obtain a where "fetchint a ?u = Ret r t"
    using assms quietD(4) [OF assms(1)] by (auto simp: argint_def curproc_quiet getp_def get_mem32_def)
  from fetchint_state [OF quiet_crit [OF assms(1)] this] show ?thesis by simp
qed

lemma in_bounds:
  assumes "a < z" "a + word_of_int len \<le> z" "z \<le> (0x80000000 :: uint)" "0 \<le> len" "len < 2 ^ 31"
  shows "unat a + nat len \<le> unat z"
proof -
  have a: "unat a < 2 ^ 31" using assms(1,3) by (simp add: word_less_nat_alt word_le_nat_alt)
  have l: "unat (word_of_int len :: uint) = nat len" using assms(4,5) by (simp add: unat_eq_nat_uint uint_word_of_int_eq take_bit_int_eq_self)
  have "unat (a + word_of_int len) = unat a + nat len"
    using a l assms(4,5) by (simp add: unat_word_ariths)
  then show ?thesis using assms(2) by (simp add: word_le_nat_alt)
qed

lemma argptr_bounds:
  assumes "quiet p s" "sz (procs s ! p) \<le> 0x80000000" "len < 2 ^ 31" "argptr n len s = Ret (Some a) t"
  shows "0 \<le> len \<and> a < sz (procs s ! p) \<and> unat a + nat len \<le> unat (sz (procs s ! p))"
proof -
  let ?u = "s\<lparr>cpus := crit s\<rparr>"
  obtain r v where r: "argint n ?u = Ret r v"
    using assms(4) by (auto simp: argptr_def curproc_quiet [OF assms(1)] split: res.splits)
  have v: "procs v = procs s" using argint_state [OF quiet_crit [OF assms(1)] r] by simp
  have "r = Some a" "0 \<le> len" "a < sz (procs s ! p)" "a + word_of_int len \<le> sz (procs s ! p)"
    using assms(4) quietD(4) [OF assms(1)]
    by (auto simp: argptr_def curproc_quiet [OF assms(1)] r getp_def v not_le not_less split: option.splits if_splits)
  then show ?thesis using in_bounds assms(2,3) by blast
qed

lemma fetchstr_loop_bounds:
  "fetchstr_loop a n s = Ret (Some bs) t \<Longrightarrow> mwf s \<Longrightarrow>
     length bs < n \<and> bs = ubytes s a (length bs) \<and> ubyte s (a + of_nat (length bs)) = 0 \<and> 0 \<notin> set bs"
proof (induction n arbitrary: a bs)
  case (Suc n)
  obtain b where b: "uload8 a s = Ret b s"
    using Suc.prems(1) uload8_state by (fastforce split: res.splits)
  obtain x where "uaddr s PTE_P a = Some x"
    using b Suc.prems(2) by (cases "uaddr s PTE_P a") (simp_all add: uload8_def cur_pgdir_eq uaddr_def)
  from uload8_eq [OF Suc.prems(2) this] b have ub: "ubyte s a = b" by simp
  show ?case
  proof (cases "b = 0")
    case True
    then show ?thesis using Suc.prems(1) b ub by (simp add: ubytes_def)
  next
    case False
    then obtain cs where cs: "fetchstr_loop (a + 1) n s = Ret (Some cs) t" "bs = b # cs"
      using Suc.prems(1) b by (auto split: res.splits)
    have "ubytes s a (Suc (length cs)) = b # ubytes s (a + 1) (length cs)"
      by (simp add: ubytes_def ub upt_conv_Cons map_Suc_upt [symmetric] algebra_simps del: upt_Suc map_Suc_upt)
    then show ?thesis using Suc.IH [OF cs(1) Suc.prems(2)] cs(2) False by (simp add: algebra_simps)
  qed
qed simp

text \<open>
  C18: what the kernel fetches from a system call's arguments lies inside the calling process. A buffer that
  \<open>argptr\<close> accepts, of any length that an \<open>int\<close> can hold, ends at or below the size of the process, without wrapping
  around the address space; a string that \<open>argstr\<close> accepts, with its terminating NUL, is inside the process, and the
  characters returned are those in its memory. Process sizes never exceed \<open>KERNBASE\<close>.
\<close>

theorem user_arguments_in_bounds:
  assumes "quiet p s" "sz (procs s ! p) \<le> 0x80000000"
  shows "(len < 2 ^ 31 \<and> argptr n len s = Ret (Some a) t \<longrightarrow>
      0 \<le> len \<and> a < sz (procs s ! p) \<and> unat a + nat len \<le> unat (sz (procs s ! p))) \<and>
    (argstr n s = Ret (Some bs) t \<longrightarrow> (\<exists>addr. unat addr + length bs < unat (sz (procs s ! p)) \<and>
      bs = ubytes s addr (length bs) \<and> ubyte s (addr + of_nat (length bs)) = 0 \<and> 0 \<notin> set bs))"
proof (intro conjI impI)
  show "0 \<le> len" "a < sz (procs s ! p)" "unat a + nat len \<le> unat (sz (procs s ! p))"
    if "len < 2 ^ 31 \<and> argptr n len s = Ret (Some a) t"
    using argptr_bounds [OF assms] that by blast+
  assume g: "argstr n s = Ret (Some bs) t"
  let ?u = "s\<lparr>cpus := crit s\<rparr>"
  obtain r v where r: "argint n s = Ret r v" using g by (cases "argint n s") (simp_all add: argstr_def)
  have "v = ?u" by (rule argint_state [OF assms(1) r])
  with g r obtain addr where i: "fetchstr addr ?u = Ret (Some bs) t" by (cases r) (simp_all add: argstr_def)
  note q = quiet_crit [OF assms(1)]
  have l: "addr < sz (procs s ! p)" "fetchstr_loop addr (unat (sz (procs s ! p) - addr)) ?u = Ret (Some bs) t"
    using i quietD(4) [OF assms(1)] by (auto simp: fetchstr_def curproc_quiet [OF q] getp_def split: if_splits)
  have ub: "ubyte ?u va = ubyte s va" for va
    using quietD(9) [OF assms(1)] by (simp add: ubyte_def uaddr_def cr3_dir_def crit_def)
  have ubs: "ubytes ?u addr k = ubytes s addr k" for k by (simp add: ubytes_def ub)
  have d: "unat (sz (procs s ! p) - addr) = unat (sz (procs s ! p)) - unat addr"
    using l(1) by (intro unat_sub) simp
  note f = fetchstr_loop_bounds [OF l(2) quietD(1) [OF q], unfolded d ub ubs]
  then have "unat addr + length bs < unat (sz (procs s ! p))" by linarith
  with f show "\<exists>addr. unat addr + length bs < unat (sz (procs s ! p)) \<and> bs = ubytes s addr (length bs) \<and>
      ubyte s (addr + of_nat (length bs)) = 0 \<and> 0 \<notin> set bs" by blast
qed

text \<open>
  A process with one page: the page directory is at physical address 0, the page table at \<open>0x1000\<close>, the page at
  \<open>0x2000\<close>; its first argument is the pointer 16.
\<close>

definition ex_user :: pipe_state where
  "ex_user = ex_pipe\<lparr>mem := (\<lambda>_. 0)(0x80000000 := 7, 0x80000001 := 0x10, 0x80001000 := 7, 0x80001001 := 0x20, 0x80002004 := 16)\<rparr>"

lemma ex_user_quiet: "quiet 0 ex_user"
  using ex_pipe_quiet by (simp add: ex_user_def)

lemma ex_user_proc: "procs ex_user ! 0 = ex_proc RUNNING 1 0" "0 < length (procs ex_user)"
  by (simp_all add: ex_user_def ex_pipe_def con_state.defs ex_con_def fs_state.defs ex_fs_def log_state.defs ex_log_def
      bio_state.defs ex_bio_def sl_state.defs ex_sl_def pstate.defs ex_run_def ex_pstate_def)

lemma ex_user_dir: "cr3_dir ex_user = 0x80000000"
  by (simp add: cr3_dir_def ex_user_def ex_pipe_def con_state.defs ex_con_def fs_state.defs ex_fs_def log_state.defs ex_log_def
      bio_state.defs ex_bio_def sl_state.defs ex_sl_def pstate.defs ex_run_def ex_pstate_def ex_cpu_def this_idx_def P2V_def)

lemma ex_user_mem: "load32 (mem ex_user) 0x80000000 = 0x1007" "load32 (mem ex_user) 0x80001000 = 0x2007"
  "mem ex_user 0x80002004 = 16" "mem ex_user 0x80002005 = 0" "mem ex_user 0x80002006 = 0" "mem ex_user 0x80002007 = 0"
  "mem ex_user 0x80002010 = 0" "load32 (mem ex_user) 0x80500FF8 = 0"
  by (simp_all add: load32_def ex_user_def)

lemma ex_user_page: "va \<in> {4, 5, 6, 7, 16} \<Longrightarrow> uaddr ex_user PTE_P va = Some (0x80002000 + va)"
  by (auto simp: uaddr_def ex_user_dir vtrans_def PDX_def PTX_def PTE_ADDR_def P2V_def ex_user_mem)

lemma ex_user_load:
  "uload8 4 ex_user = Ret 16 ex_user" "uload8 5 ex_user = Ret 0 ex_user" "uload8 6 ex_user = Ret 0 ex_user"
  "uload8 7 ex_user = Ret 0 ex_user" "uload8 16 ex_user = Ret 0 ex_user"
  using uload8_eq [OF quietD(1) [OF ex_user_quiet] ex_user_page] ex_user_mem by (simp_all add: ubyte_def ex_user_page)

lemma ex_user_crit: "ex_user\<lparr>cpus := crit ex_user\<rparr> = ex_user"
  by (simp add: crit_def crit_cpus_def upd_at_def ex_user_def ex_pipe_def con_state.defs ex_con_def fs_state.defs ex_fs_def
      log_state.defs ex_log_def bio_state.defs ex_bio_def sl_state.defs ex_sl_def pstate.defs ex_run_def ex_pstate_def ex_cpu_def
      this_idx_def)

lemma ex_user_fetch: "curproc ex_user = Ret 0 ex_user" "argint 0 ex_user = Ret (Some 16) ex_user"
proof -
  show c: "curproc ex_user = Ret 0 ex_user" using curproc_quiet [OF ex_user_quiet] by (simp add: ex_user_crit)
  have "fetchint 4 ex_user = Ret (Some 16) ex_user"
    using ex_user_proc by (simp add: fetchint_def c getp_def uload32_def ex_user_load ex_proc_def)
  then show "argint 0 ex_user = Ret (Some 16) ex_user"
    using ex_user_proc by (simp add: argint_def c getp_def get_mem32_def ex_user_mem ex_proc_def)
qed

theorem user_arguments_in_bounds_witness:
  "argptr 0 8 ex_user = Ret (Some 16) ex_user \<and> argstr 0 ex_user = Ret (Some []) ex_user \<and>
   unat (16 :: uint) + nat 8 \<le> unat (sz (procs ex_user ! 0))"
proof -
  have z: "sz (procs ex_user ! 0) \<le> 0x80000000" using ex_user_proc by (simp add: ex_proc_def)
  have a: "argptr 0 8 ex_user = Ret (Some 16) ex_user"
    using ex_user_proc by (simp add: argptr_def ex_user_fetch getp_def ex_proc_def)
  have "fetchstr_loop 16 (Suc 4079) ex_user = Ret (Some []) ex_user"
    unfolding fetchstr_loop.simps by (simp add: ex_user_load)
  then have "argstr 0 ex_user = Ret (Some []) ex_user"
    using ex_user_proc by (simp add: argstr_def fetchstr_def ex_user_fetch getp_def ex_proc_def)
  then show ?thesis using user_arguments_in_bounds [OF ex_user_quiet z, of 8 0 16 ex_user] a by simp
qed

end
