(* ===== verification/Waiting.thy ===== *)
theory Waiting
  imports Sysargs
begin

text \<open>
  What \<open>wait\<close>, \<open>waitx\<close> and \<open>join\<close> do when there is no zombie to reap.
\<close>

definition no_zombie :: "(proc \<Rightarrow> bool) \<Rightarrow> 'z pstate_scheme \<Rightarrow> bool" where
  "no_zombie child s \<longleftrightarrow> (\<forall>x \<in> set (procs s). child x \<longrightarrow> state x \<noteq> ZOMBIE)"

lemma wait_scan_none:
  assumes "no_zombie child s" "set ps \<subseteq> {..<length (procs s)}"
  shows "wait_scan child reap ps h s = Ret (Inr (h \<or> (\<exists>i \<in> set ps. child (procs s ! i)))) s"
  using assms
proof (induction ps arbitrary: h)
  case (Cons p ps)
  then have "p < length (procs s)" "child (procs s ! p) \<Longrightarrow> state (procs s ! p) \<noteq> ZOMBIE"
    by (auto simp: no_zombie_def)
  then show ?case using Cons by (auto simp: getp_def)
qed simp

lemma wait_loop_none:
  assumes "quiet p s" "no_zombie (child (procs s ! p)) s"
  shows "if (\<exists>x \<in> set (procs s). child (procs s ! p) x) \<and> \<not> killed (procs s ! p)
    then \<exists>t. wait_loop p child reap (inlock PtableLk s) = Swtch t \<and> sleeping_on (ProcChan p) (procs t ! p)
    else wait_loop p child reap (inlock PtableLk s) = Ret (- 1) (s\<lparr>cpus := crit s\<rparr>)"
proof -
  let ?s = "inlock PtableLk s"
  have pr: "procs ?s = procs s" by (simp add: inlock_def)
  have ex: "(\<exists>i \<in> {..<length (procs s)}. P (procs s ! i)) \<longleftrightarrow> (\<exists>x \<in> set (procs s). P x)" for P
    by (metis in_set_conv_nth lessThan_iff)
  have "wait_scan (child (procs s ! p)) reap [0..<length (procs s)] False ?s = Ret (Inr (\<exists>x \<in> set (procs s). child (procs s ! p) x)) ?s"
    using wait_scan_none [of "child (procs s ! p)" ?s "[0..<length (procs s)]" reap False] assms(2)
    by (simp add: no_zombie_def pr ex atLeast0LessThan)
  then have e: "wait_loop p child reap ?s = (if (\<exists>x \<in> set (procs s). child (procs s ! p) x) \<and> \<not> killed (procs s ! p)
      then sleep_in (ProcChan p) PtableLk ?s else mbind (release PtableLk) (\<lambda>_. ret (- 1)) ?s)"
    using quietD(4) [OF assms(1)] by (auto simp: wait_loop_def getp_def pr)
  obtain t where "sleep (ProcChan p) PtableLk ?s = Swtch t" "sleeping_on (ProcChan p) (procs t ! p)"
    by (rule sleep_quiet [OF assms(1)])
  then show ?thesis using e release_quiet [OF assms(1), of PtableLk] by (auto simp: sleep_in_def)
qed

text \<open>
  C20: waiting when no child has ended. \<open>waitx\<close> returns -1 exactly when the caller has no child or has been killed, and
  sleeps otherwise. \<open>wait\<close> returns -1 only when the caller has been killed: as the caller shares its own address
  space it counts as its own child, and a process without children sleeps where \<open>forktest.c\<close> and
  \<open>usertests.c\<close> require -1. \<open>join\<close> returns -1 when no child
  thread has the given number.
\<close>

theorem wait_without_zombies:
  assumes "quiet p s"
  shows "(no_zombie (wait_child p (procs s ! p)) s \<longrightarrow>
      (if killed (procs s ! p) then \<exists>t. wait s = Ret (- 1) t \<and> procs t = procs s
       else \<exists>t. wait s = Swtch t \<and> sleeping_on (ProcChan p) (procs t ! p))) \<and>
    (no_zombie (\<lambda>x. parent x = Some p) s \<longrightarrow>
      (if killed (procs s ! p) \<or> (\<forall>x \<in> set (procs s). parent x \<noteq> Some p) then \<exists>t. waitx wt rt s = Ret (- 1) t \<and> procs t = procs s
       else \<exists>t. waitx wt rt s = Swtch t \<and> sleeping_on (ProcChan p) (procs t ! p))) \<and>
    (no_zombie (join_child p tid (procs s ! p)) s \<longrightarrow>
      (if killed (procs s ! p) \<or> (\<forall>x \<in> set (procs s). parent x = Some p \<and> pgdir x = pgdir (procs s ! p) \<longrightarrow> pid x \<noteq> tid)
       then \<exists>t. join tid st s = Ret (- 1) t \<and> procs t = procs s
       else \<exists>t. join tid st s = Swtch t \<and> sleeping_on (ProcChan p) (procs t ! p)))"
proof -
  let ?s = "s\<lparr>cpus := crit s\<rparr>"
  have q: "quiet p ?s" by (rule quiet_crit [OF assms])
  have z: "no_zombie f ?s = no_zombie f s" for f by (simp add: no_zombie_def)
  note c = curproc_quiet [OF assms] acquire_quiet [OF q]
  have me: "\<exists>x \<in> set (procs s). wait_child p (procs s ! p) x"
    using quietD(4) [OF assms] by (intro bexI [of _ "procs s ! p"]) (auto simp: wait_child_def)
  have w: "no_zombie (wait_child p (procs s ! p)) s \<Longrightarrow> if \<not> killed (procs s ! p)
      then \<exists>t. wait s = Swtch t \<and> sleeping_on (ProcChan p) (procs t ! p) else \<exists>t. wait s = Ret (- 1) t \<and> procs t = procs s"
    using wait_loop_none [OF q, of "wait_child p" wait_reap] me by (simp add: wait_def c z split: if_splits)
  have x: "no_zombie (\<lambda>x. parent x = Some p) s \<Longrightarrow> if (\<exists>x \<in> set (procs s). parent x = Some p) \<and> \<not> killed (procs s ! p)
      then \<exists>t. waitx wt rt s = Swtch t \<and> sleeping_on (ProcChan p) (procs t ! p) else \<exists>t. waitx wt rt s = Ret (- 1) t \<and> procs t = procs s"
    using wait_loop_none [OF q, of "\<lambda>_ x. parent x = Some p" "waitx_reap wt rt"] by (simp add: waitx_def c z split: if_splits)
  have j: "no_zombie (join_child p tid (procs s ! p)) s \<Longrightarrow> if (\<exists>x \<in> set (procs s). join_child p tid (procs s ! p) x) \<and> \<not> killed (procs s ! p)
      then \<exists>t. join tid st s = Swtch t \<and> sleeping_on (ProcChan p) (procs t ! p) else \<exists>t. join tid st s = Ret (- 1) t \<and> procs t = procs s"
    using wait_loop_none [OF q, of "join_child p tid" "join_reap st"] by (simp add: join_def c z split: if_splits)
  have jc: "(\<forall>x \<in> set (procs s). parent x = Some p \<and> pgdir x = pgdir (procs s ! p) \<longrightarrow> pid x \<noteq> tid) \<longleftrightarrow>
      \<not> (\<exists>x \<in> set (procs s). join_child p tid (procs s ! p) x)" by (auto simp: join_child_def)
  show ?thesis
    using w x j by (auto simp: jc)
qed

text \<open>Two processes without children.\<close>

definition ex_life :: life_state where
  "ex_life = file_state.extend ex_file \<lparr>trapret = 0, forkret_pc = 0, initcode_start = 0, initcode_size = 0, first = False\<rparr>"

lemma ex_life_quiet: "quiet 0 ex_life"
  using ex_file_quiet by (simp add: quiet_def ex_life_def file_state.defs)

lemma ex_life_procs: "procs ex_life = [ex_proc RUNNING 1 0, ex_proc RUNNABLE 2 0]"
  by (simp add: ex_life_def file_state.defs ex_file_def pipe_state.defs ex_pipe_def con_state.defs ex_con_def
      fs_state.defs ex_fs_def log_state.defs ex_log_def bio_state.defs ex_bio_def sl_state.defs ex_sl_def pstate.defs ex_run_def
      ex_pstate_def)

theorem wait_without_zombies_witness:
  "(\<exists>t. wait ex_life = Swtch t \<and> sleeping_on (ProcChan 0) (procs t ! 0)) \<and> (\<exists>t. waitx 0 4 ex_life = Ret (- 1) t \<and> procs t = procs ex_life)"
proof -
  have "no_zombie f ex_life" for f by (simp add: no_zombie_def ex_life_procs ex_proc_def)
  then show ?thesis using wait_without_zombies [OF ex_life_quiet, of 0 4] by (simp add: ex_life_procs ex_proc_def)
qed

end
