(* ===== verification/Exec.thy ===== *)
theory Exec
  imports Sysargs
begin

text \<open>
  Model of \<open>exec.c\<close> and of \<open>loaduvm\<close> of \<open>vm.c\<close>: loading a program from a file into a fresh address space. The
  headers of an ELF file are the byte lists \<open>readi\<close> returns, with their fields at fixed offsets. The argument
  strings are lists of bytes without the NUL.
\<close>

section \<open>Loading a segment\<close>

definition loaduvm :: "uint \<Rightarrow> uint \<Rightarrow> nat \<Rightarrow> uint \<Rightarrow> uint \<Rightarrow> ('z con_state_scheme, int) kfun" where
  "loaduvm d addr ip offset csz =
     (if addr mod PGSIZE \<noteq> 0 then panic ''loaduvm: addr must be page aligned'' else
      mbind (pgloop 0 csz (\<lambda>i.
        mbind (walkpgdir d (addr + i) False) (\<lambda>pte.
        if pte = 0 then panic ''loaduvm: address should exist'' else
        mbind (get_mem32 pte) (\<lambda>e.
        let pa = PTE_ADDR e; n = (if csz - i < PGSIZE then csz - i else PGSIZE) in
        mbind (readi ip (At (P2V pa)) (offset + i) n) (\<lambda>(r, _).
        if word_of_int r \<noteq> n then ret (Inl (-1)) else ret (Inr i)))))) (\<lambda>r.
      case r of Some x \<Rightarrow> ret x | None \<Rightarrow> ret 0))"

section \<open>ELF headers\<close>

abbreviation ELF_MAGIC :: uint where "ELF_MAGIC \<equiv> 0x464C457F"
abbreviation MAXARG :: nat where "MAXARG \<equiv> 32"

definition elf_magic :: "byte list \<Rightarrow> uint" where "elf_magic h = get32 h 0"
definition elf_entry :: "byte list \<Rightarrow> uint" where "elf_entry h = get32 h 24"
definition elf_phoff :: "byte list \<Rightarrow> uint" where "elf_phoff h = get32 h 28"
definition elf_phnum :: "byte list \<Rightarrow> nat" where "elf_phnum h = unat (get16 h 44)"
definition ph_type :: "byte list \<Rightarrow> uint" where "ph_type h = get32 h 0"
definition ph_off :: "byte list \<Rightarrow> uint" where "ph_off h = get32 h 4"
definition ph_vaddr :: "byte list \<Rightarrow> uint" where "ph_vaddr h = get32 h 8"
definition ph_paddr :: "byte list \<Rightarrow> uint" where "ph_paddr h = get32 h 12"
definition ph_filesz :: "byte list \<Rightarrow> uint" where "ph_filesz h = get32 h 16"
definition ph_memsz :: "byte list \<Rightarrow> uint" where "ph_memsz h = get32 h 20"

section \<open>The steps of exec\<close>

text \<open>The loop over the program headers; \<open>None\<close> is \<open>goto bad\<close>, otherwise the result is the new size.\<close>

fun exec_segs :: "nat \<Rightarrow> uint \<Rightarrow> nat \<Rightarrow> uint \<Rightarrow> uint \<Rightarrow> ('z con_state_scheme, uint option) kfun" where
  "exec_segs ip d 0 a csz = ret (Some csz)"
| "exec_segs ip d (Suc n) a csz =
     mbind (readi ip (Local []) a 32) (\<lambda>(r, ph).
     if r \<noteq> 32 then ret None
     else if ph_type ph \<noteq> 1 then exec_segs ip d n (a + 32) csz
     else if ph_memsz ph < ph_filesz ph then ret None
     else if ph_vaddr ph + ph_memsz ph < ph_vaddr ph then ret None
     else
       mbind (allocuvm d csz (ph_vaddr ph + ph_memsz ph)) (\<lambda>csz.
       if csz = 0 then ret None
       else if ph_vaddr ph mod PGSIZE \<noteq> 0 then ret None
       else
         mbind (loaduvm d (ph_vaddr ph) ip (ph_off ph) (ph_filesz ph)) (\<lambda>l.
         if l < 0 then ret None else exec_segs ip d n (a + 32) csz)))"

text \<open>The loop that pushes the argument strings; the result is the stack pointer and their addresses.\<close>

fun exec_args :: "uint \<Rightarrow> byte list list \<Rightarrow> uint list \<Rightarrow> uint \<Rightarrow> ('z vm_state_scheme, (uint \<times> uint list) option) kfun" where
  "exec_args d [] ptrs sp = ret (Some (sp, ptrs))"
| "exec_args d (a # as) ptrs sp =
     (if length ptrs \<ge> MAXARG then ret None else
      let sp = (sp - (of_nat (length a) + 1)) AND NOT 3 in
      mbind (copyout d sp (a @ [0])) (\<lambda>r.
      if r < 0 then ret None else exec_args d as (ptrs @ [sp]) sp))"

definition exec_ustack :: "uint list \<Rightarrow> uint \<Rightarrow> uint list" where
  "exec_ustack ptrs sp = [0xffffffff, of_nat (length ptrs), sp - (of_nat (length ptrs) + 1) * 4] @ ptrs @ [0]"

text \<open>The name of the program: what follows the last slash of the path.\<close>

definition last_elem :: "byte list \<Rightarrow> byte list" where
  "last_elem path = rev (takeWhile (\<lambda>c. c \<noteq> 47) (rev path))"

definition exec_bad :: "uint \<Rightarrow> nat option \<Rightarrow> ('z con_state_scheme, int) kfun" where
  "exec_bad d r =
     mbind (if d \<noteq> 0 then freevm d else ret ()) (\<lambda>_.
     mbind (case r of None \<Rightarrow> ret () | Some ip \<Rightarrow> mbind (iunlockput ip) (\<lambda>_. end_op)) (\<lambda>_.
     ret (-1)))"

text \<open>The part of \<open>exec\<close> after the program has been loaded and the file closed.\<close>

definition exec_finish :: "nat \<Rightarrow> byte list \<Rightarrow> byte list list \<Rightarrow> byte list \<Rightarrow> uint \<Rightarrow> uint \<Rightarrow>
    ('z life_state_scheme, int) kfun" where
  "exec_finish me path argv elf d csz =
     (let csz = PGROUNDUP csz in
      mbind (allocuvm d csz (csz + 2 * PGSIZE)) (\<lambda>csz.
      if csz = 0 then exec_bad d None else
      mbind (clearpteu d (csz - 2 * PGSIZE)) (\<lambda>_.
      mbind (exec_args d argv [] csz) (\<lambda>r. case r of
        None \<Rightarrow> exec_bad d None
      | Some (sp, ptrs) \<Rightarrow>
          let ustack = exec_ustack ptrs sp; sp = sp - (3 + of_nat (length ptrs) + 1) * 4 in
          mbind (copyout d sp (concat (map le32 ustack))) (\<lambda>r.
          if r < 0 then exec_bad d None else
          mbind (upd_proc me (\<lambda>x. x\<lparr>pname := safe_name (last_elem path)\<rparr>)) (\<lambda>_.
          mbind (getp me) (\<lambda>pr.
          mbind (upd_proc me (\<lambda>x. x\<lparr>pgdir := d\<rparr>)) (\<lambda>_.
          mbind (upd_proc me (\<lambda>x. x\<lparr>sz := csz\<rparr>)) (\<lambda>_.
          mbind (put_mem32 (tf pr + tf_eip) (elf_entry elf)) (\<lambda>_.
          mbind (put_mem32 (tf pr + tf_esp) sp) (\<lambda>_.
          mbind (switchuvm me) (\<lambda>_.
          mbind (freevm (pgdir pr)) (\<lambda>_.
          ret 0)))))))))))))"

definition exec :: "byte list \<Rightarrow> byte list list \<Rightarrow> ('z life_state_scheme, int) kfun" where
  "exec path argv =
     mbind curproc (\<lambda>me.
     mbind begin_op (\<lambda>_.
     mbind (namei path) (\<lambda>r. case r of
       None \<Rightarrow>
         mbind end_op (\<lambda>_.
         mbind (cprintf ''exec: fail'' []) (\<lambda>_.
         ret (-1)))
     | Some ip \<Rightarrow>
         mbind (ilock ip) (\<lambda>_.
         mbind (readi ip (Local []) 0 52) (\<lambda>(n, elf).
         if n \<noteq> 52 then exec_bad 0 (Some ip)
         else if elf_magic elf \<noteq> ELF_MAGIC then exec_bad 0 (Some ip)
         else
           mbind setupkvm (\<lambda>d.
           if d = 0 then exec_bad 0 (Some ip) else
           mbind (exec_segs ip d (elf_phnum elf) (elf_phoff elf) 0) (\<lambda>r. case r of
             None \<Rightarrow> exec_bad d (Some ip)
           | Some csz \<Rightarrow>
               mbind (iunlockput ip) (\<lambda>_.
               mbind end_op (\<lambda>_.
               exec_finish me path argv elf d csz)))))))))"

end
