(* ===== verification/Sysfile.thy ===== *)
theory Sysfile
  imports Exec
begin

text \<open>
  Model of \<open>sysfile.c\<close>: the system calls on files. Every call first checks its arguments; all changes of the
  disk happen between \<open>begin_op\<close> and \<open>end_op\<close>.
\<close>

section \<open>Descriptors\<close>

definition argfd :: "nat \<Rightarrow> ('z pstate_scheme, (nat \<times> nat) option) kfun" where
  "argfd n =
     mbind (argint n) (\<lambda>r. case r of
       None \<Rightarrow> ret None
     | Some v \<Rightarrow>
         if sint v < 0 \<or> sint v \<ge> int NOFILE then ret None else
         mbind curproc (\<lambda>me.
         mbind (getp me) (\<lambda>pr.
         ret (map_option (\<lambda>f. (nat (sint v), f)) (ofile pr ! nat (sint v))))))"

definition set_ofile :: "nat \<Rightarrow> nat option \<Rightarrow> ('z pstate_scheme, unit) kfun" where
  "set_ofile fd v = mbind curproc (\<lambda>me. upd_proc me (\<lambda>x. x\<lparr>ofile := (ofile x)[fd := v]\<rparr>))"

definition fdalloc :: "nat \<Rightarrow> ('z pstate_scheme, nat option) kfun" where
  "fdalloc f =
     mbind curproc (\<lambda>me.
     mbind (getp me) (\<lambda>pr. case find_idx (\<lambda>x. x = None) (ofile pr) of
       None \<Rightarrow> ret None
     | Some fd \<Rightarrow>
         mbind (upd_proc me (\<lambda>x. x\<lparr>ofile := (ofile x)[fd := Some f]\<rparr>)) (\<lambda>_.
         ret (Some fd))))"

definition sys_dup :: "('z file_state_scheme, int) kfun" where
  "sys_dup =
     need (argfd 0) (\<lambda>(_, f).
     need (fdalloc f) (\<lambda>fd.
     mbind (filedup f) (\<lambda>_.
     ret (int fd))))"

definition sys_read :: "('z file_state_scheme, int) kfun" where
  "sys_read =
     need (argfd 0) (\<lambda>(_, f).
     need (argint 2) (\<lambda>n.
     need (argptr 1 (sint n)) (\<lambda>p.
     fileread f p (sint n))))"

definition sys_write :: "('z file_state_scheme, int) kfun" where
  "sys_write =
     need (argfd 0) (\<lambda>(_, f).
     need (argint 2) (\<lambda>n.
     need (argptr 1 (sint n)) (\<lambda>p.
     filewrite f p (sint n))))"

definition sys_close :: "('z file_state_scheme, int) kfun" where
  "sys_close =
     need (argfd 0) (\<lambda>(fd, f).
     mbind (set_ofile fd None) (\<lambda>_.
     mbind (fileclose f) (\<lambda>_.
     ret 0)))"

definition sys_fstat :: "('z file_state_scheme, int) kfun" where
  "sys_fstat =
     need (argfd 0) (\<lambda>(_, f).
     need (argptr 1 20) (\<lambda>st.
     filestat f st))"

section \<open>Links\<close>

text \<open>\<open>goto bad\<close> in \<open>sys_link\<close> and in \<open>sys_unlink\<close>, and the end of a failed transaction.\<close>

definition fail_op :: "('z log_state_scheme, int) kfun" where
  "fail_op = mbind end_op (\<lambda>_. ret (-1))"

definition link_bad :: "nat \<Rightarrow> ('z fs_state_scheme, int) kfun" where
  "link_bad ip =
     mbind (ilock ip) (\<lambda>_.
     mbind (updi ip (\<lambda>x. x\<lparr>inlink := inlink x - 1\<rparr>)) (\<lambda>_.
     mbind (iupdate ip) (\<lambda>_.
     mbind (iunlockput ip) (\<lambda>_.
     fail_op))))"

definition sys_link :: "('z con_state_scheme, int) kfun" where
  "sys_link =
     need (argstr 0) (\<lambda>old.
     need (argstr 1) (\<lambda>new.
     mbind begin_op (\<lambda>_.
     mbind (namei old) (\<lambda>r. case r of
       None \<Rightarrow> fail_op
     | Some ip \<Rightarrow>
         mbind (ilock ip) (\<lambda>_.
         mbind (geti ip) (\<lambda>i.
         if itype i = T_DIR then mbind (iunlockput ip) (\<lambda>_. fail_op) else
         mbind (updi ip (\<lambda>x. x\<lparr>inlink := inlink x + 1\<rparr>)) (\<lambda>_.
         mbind (iupdate ip) (\<lambda>_.
         mbind (iunlock ip) (\<lambda>_.
         mbind (nameiparent new) (\<lambda>r. case r of
           None \<Rightarrow> link_bad ip
         | Some (dp, name) \<Rightarrow>
             mbind (ilock dp) (\<lambda>_.
             mbind (geti dp) (\<lambda>d.
             mbind (geti ip) (\<lambda>i.
             mbind (if idev d \<noteq> idev i then ret (-1) else dirlink dp name (inum i)) (\<lambda>r.
             mbind (iunlockput dp) (\<lambda>_.
             if r < 0 then link_bad ip else
             mbind (iput ip) (\<lambda>_.
             mbind end_op (\<lambda>_.
             ret 0)))))))))))))))))"

function isdirempty_loop :: "nat \<Rightarrow> nat \<Rightarrow> ('z con_state_scheme, bool) kfun" where
  "isdirempty_loop dp a =
     mbind (geti dp) (\<lambda>i.
     if a < unat (isize i) then
       mbind (readi dp (Local []) (of_nat a) 16) (\<lambda>(r, de).
       if r \<noteq> 16 then panic ''isdirempty: readi''
       else if de_inum de \<noteq> 0 then ret False
       else isdirempty_loop dp (a + 16))
     else ret True)"
  by pat_completeness auto
termination
proof (relation "measure (\<lambda>(_, a). 2 ^ 32 - a)")
  fix i :: inode and a :: nat
  assume "a < unat (isize i)"
  then have "a < 2 ^ 32" using unat32_lt [of "isize i"] by simp
  then show "((dp, a + 16), dp, a) \<in> measure (\<lambda>(_, a). 2 ^ 32 - a)" for dp :: nat
    by simp
qed simp

declare isdirempty_loop.simps [simp del]

definition isdirempty :: "nat \<Rightarrow> ('z con_state_scheme, bool) kfun" where
  "isdirempty dp = isdirempty_loop dp (2 * 16)"

definition unlink_bad :: "nat \<Rightarrow> ('z fs_state_scheme, int) kfun" where
  "unlink_bad dp = mbind (iunlockput dp) (\<lambda>_. fail_op)"

definition sys_unlink :: "('z con_state_scheme, int) kfun" where
  "sys_unlink =
     need (argstr 0) (\<lambda>path.
     mbind begin_op (\<lambda>_.
     mbind (nameiparent path) (\<lambda>r. case r of
       None \<Rightarrow> fail_op
     | Some (dp, name) \<Rightarrow>
         mbind (ilock dp) (\<lambda>_.
         if namecmp name [46] = 0 \<or> namecmp name [46, 46] = 0 then unlink_bad dp else
         mbind (dirlookup dp name) (\<lambda>r. case r of
           None \<Rightarrow> unlink_bad dp
         | Some (ip, a) \<Rightarrow>
             mbind (ilock ip) (\<lambda>_.
             mbind (geti ip) (\<lambda>i.
             if sint (inlink i) < 1 then panic ''unlink: nlink < 1'' else
             mbind (if itype i = T_DIR then isdirempty ip else ret True) (\<lambda>e.
             if \<not> e then mbind (iunlockput ip) (\<lambda>_. unlink_bad dp) else
             mbind (writei dp (Local (replicate 16 0)) a 16) (\<lambda>w.
             if w \<noteq> 16 then panic ''unlink: writei'' else
             mbind (if itype i = T_DIR then
                      mbind (updi dp (\<lambda>x. x\<lparr>inlink := inlink x - 1\<rparr>)) (\<lambda>_.
                      iupdate dp)
                    else ret ()) (\<lambda>_.
             mbind (iunlockput dp) (\<lambda>_.
             mbind (updi ip (\<lambda>x. x\<lparr>inlink := inlink x - 1\<rparr>)) (\<lambda>_.
             mbind (iupdate ip) (\<lambda>_.
             mbind (iunlockput ip) (\<lambda>_.
             mbind end_op (\<lambda>_.
             ret 0)))))))))))))))"

section \<open>Creating and opening\<close>

definition create :: "byte list \<Rightarrow> ushort \<Rightarrow> ushort \<Rightarrow> ushort \<Rightarrow> ('z con_state_scheme, nat option) kfun" where
  "create path type major minor =
     mbind (nameiparent path) (\<lambda>r. case r of
       None \<Rightarrow> ret None
     | Some (dp, name) \<Rightarrow>
         mbind (ilock dp) (\<lambda>_.
         mbind (dirlookup dp name) (\<lambda>r. case r of
           Some (ip, _) \<Rightarrow>
             mbind (iunlockput dp) (\<lambda>_.
             mbind (ilock ip) (\<lambda>_.
             mbind (geti ip) (\<lambda>i.
             if type = T_FILE \<and> itype i = T_FILE then ret (Some ip) else
             mbind (iunlockput ip) (\<lambda>_.
             ret None))))
         | None \<Rightarrow>
             mbind (geti dp) (\<lambda>d.
             mbind (ialloc (idev d) type) (\<lambda>ip.
             mbind (ilock ip) (\<lambda>_.
             mbind (updi ip (\<lambda>x. x\<lparr>imajor := major, iminor := minor, inlink := 1\<rparr>)) (\<lambda>_.
             mbind (iupdate ip) (\<lambda>_.
             mbind (geti ip) (\<lambda>i.
             mbind (if type = T_DIR then
                 mbind (updi dp (\<lambda>x. x\<lparr>inlink := inlink x + 1\<rparr>)) (\<lambda>_.
                 mbind (iupdate dp) (\<lambda>_.
                 mbind (dirlink ip [46] (inum i)) (\<lambda>r.
                 if r < 0 then panic ''create dots'' else
                 mbind (dirlink ip [46, 46] (inum d)) (\<lambda>r.
                 if r < 0 then panic ''create dots'' else ret ()))))
               else ret ()) (\<lambda>_.
             mbind (dirlink dp name (inum i)) (\<lambda>r.
             if r < 0 then panic ''create: dirlink'' else
             mbind (iunlockput dp) (\<lambda>_.
             ret (Some ip)))))))))))))"

abbreviation O_WRONLY :: uint where "O_WRONLY \<equiv> 1"
abbreviation O_RDWR :: uint where "O_RDWR \<equiv> 2"
abbreviation O_CREATE :: uint where "O_CREATE \<equiv> 0x200"

text \<open>The inode \<open>sys_open\<close> opens, locked; \<open>None\<close> when the call is to fail.\<close>

definition open_inode :: "byte list \<Rightarrow> uint \<Rightarrow> ('z con_state_scheme, nat option) kfun" where
  "open_inode path omode =
     (if omode AND O_CREATE \<noteq> 0 then create path T_FILE 0 0 else
      mbind (namei path) (\<lambda>r. case r of
        None \<Rightarrow> ret None
      | Some ip \<Rightarrow>
          mbind (ilock ip) (\<lambda>_.
          mbind (geti ip) (\<lambda>i.
          if itype i = T_DIR \<and> omode \<noteq> 0 then mbind (iunlockput ip) (\<lambda>_. ret None)
          else ret (Some ip)))))"

definition sys_open :: "('z file_state_scheme, int) kfun" where
  "sys_open =
     need (argstr 0) (\<lambda>path.
     need (argint 1) (\<lambda>omode.
     mbind begin_op (\<lambda>_.
     mbind (open_inode path omode) (\<lambda>r. case r of
       None \<Rightarrow> fail_op
     | Some ip \<Rightarrow>
         mbind filealloc (\<lambda>r. case r of
           None \<Rightarrow> mbind (iunlockput ip) (\<lambda>_. fail_op)
         | Some f \<Rightarrow>
             mbind (fdalloc f) (\<lambda>r. case r of
               None \<Rightarrow>
                 mbind (fileclose f) (\<lambda>_.
                 mbind (iunlockput ip) (\<lambda>_.
                 fail_op))
             | Some fd \<Rightarrow>
                 mbind (iunlock ip) (\<lambda>_.
                 mbind end_op (\<lambda>_.
                 mbind (updf f (\<lambda>x. x\<lparr>ftype := FD_INODE, fip := Some ip, foff := 0,
                          freadable := omode AND O_WRONLY = 0,
                          fwritable := omode AND O_WRONLY \<noteq> 0 \<or> omode AND O_RDWR \<noteq> 0\<rparr>)) (\<lambda>_.
                 ret (int fd))))))))))"

text \<open>The three calls that fetch their path inside the transaction.\<close>

definition need_op :: "('z log_state_scheme, 'a option) kfun \<Rightarrow> ('a \<Rightarrow> ('z log_state_scheme, int) kfun) \<Rightarrow>
    ('z log_state_scheme, int) kfun" where
  "need_op m f = mbind m (\<lambda>r. case r of None \<Rightarrow> fail_op | Some x \<Rightarrow> f x)"

definition sys_mkdir :: "('z con_state_scheme, int) kfun" where
  "sys_mkdir =
     mbind begin_op (\<lambda>_.
     need_op (argstr 0) (\<lambda>path.
     need_op (create path T_DIR 0 0) (\<lambda>ip.
     mbind (iunlockput ip) (\<lambda>_.
     mbind end_op (\<lambda>_.
     ret 0)))))"

definition sys_mknod :: "('z con_state_scheme, int) kfun" where
  "sys_mknod =
     mbind begin_op (\<lambda>_.
     need_op (argstr 0) (\<lambda>path.
     need_op (argint 1) (\<lambda>major.
     need_op (argint 2) (\<lambda>minor.
     need_op (create path T_DEV (ucast major) (ucast minor)) (\<lambda>ip.
     mbind (iunlockput ip) (\<lambda>_.
     mbind end_op (\<lambda>_.
     ret 0)))))))"

definition sys_chdir :: "('z con_state_scheme, int) kfun" where
  "sys_chdir =
     mbind curproc (\<lambda>me.
     mbind begin_op (\<lambda>_.
     need_op (argstr 0) (\<lambda>path.
     need_op (namei path) (\<lambda>ip.
     mbind (ilock ip) (\<lambda>_.
     mbind (geti ip) (\<lambda>i.
     if itype i \<noteq> T_DIR then mbind (iunlockput ip) (\<lambda>_. fail_op) else
     mbind (iunlock ip) (\<lambda>_.
     mbind (getp me) (\<lambda>pr.
     mbind (mbind (deref (cwd pr)) iput) (\<lambda>_.
     mbind end_op (\<lambda>_.
     mbind (upd_proc me (\<lambda>x. x\<lparr>cwd := Some ip\<rparr>)) (\<lambda>_.
     ret 0)))))))))))"

section \<open>Programs and pipes\<close>

text \<open>The loop of \<open>sys_exec\<close> that collects the arguments; \<open>n\<close> entries of \<open>argv\<close> are left.\<close>

fun fetch_argv :: "nat \<Rightarrow> uint \<Rightarrow> ('z pstate_scheme, byte list list option) kfun" where
  "fetch_argv 0 a = ret None"
| "fetch_argv (Suc n) a =
     mbind (fetchint a) (\<lambda>r. case r of
       None \<Rightarrow> ret None
     | Some uarg \<Rightarrow>
         if uarg = 0 then ret (Some []) else
         mbind (fetchstr uarg) (\<lambda>r. case r of
           None \<Rightarrow> ret None
         | Some str \<Rightarrow> mbind (fetch_argv n (a + 4)) (\<lambda>r. ret (map_option (\<lambda>rest. str # rest) r))))"

definition sys_exec :: "('z life_state_scheme, int) kfun" where
  "sys_exec =
     need (argstr 0) (\<lambda>path.
     need (argint 1) (\<lambda>uargv.
     need (fetch_argv MAXARG uargv) (\<lambda>argv.
     exec path argv)))"

definition pipe_undo :: "nat \<Rightarrow> nat \<Rightarrow> ('z file_state_scheme, int) kfun" where
  "pipe_undo rfile wfile =
     mbind (fileclose rfile) (\<lambda>_.
     mbind (fileclose wfile) (\<lambda>_.
     ret (-1)))"

definition sys_pipe :: "('z file_state_scheme, int) kfun" where
  "sys_pipe =
     need (argptr 0 8) (\<lambda>fd.
     need pipealloc (\<lambda>(rfile, wfile).
     mbind (fdalloc rfile) (\<lambda>r. case r of
       None \<Rightarrow> pipe_undo rfile wfile
     | Some fd0 \<Rightarrow>
         mbind (fdalloc wfile) (\<lambda>r. case r of
           None \<Rightarrow>
             mbind (set_ofile fd0 None) (\<lambda>_.
             pipe_undo rfile wfile)
         | Some fd1 \<Rightarrow>
             mbind (ustore32 fd (of_nat fd0)) (\<lambda>_.
             mbind (ustore32 (fd + 4) (of_nat fd1)) (\<lambda>_.
             ret 0))))))"

end
