(* ===== verification/Syscall.thy ===== *)
theory Syscall
  imports Sysfile
begin

text \<open>
  Model of \<open>sysproc.c\<close>, the system calls on processes and threads, and of the second half of \<open>syscall.c\<close>,
  the table of all system calls and their dispatch.
\<close>

section \<open>Processes\<close>

definition sys_fork :: "('z life_state_scheme, int) kfun" where
  "sys_fork = fork"

definition sys_exit :: "('z life_state_scheme, int) kfun" where
  "sys_exit = mbind exit (\<lambda>_. ret 0)"

definition sys_wait :: "('z life_state_scheme, int) kfun" where
  "sys_wait = wait"

definition sys_kill :: "('z life_state_scheme, int) kfun" where
  "sys_kill = need (argint 0) (\<lambda>n. kill (sint n))"

definition sys_getpid :: "('z life_state_scheme, int) kfun" where
  "sys_getpid = mbind curproc (\<lambda>me. mbind (getp me) (\<lambda>pr. ret (tgid pr)))"

definition sys_sbrk :: "('z life_state_scheme, int) kfun" where
  "sys_sbrk =
     need (argint 0) (\<lambda>n.
     mbind curproc (\<lambda>me.
     mbind (getp me) (\<lambda>pr.
     mbind (growproc (sint n)) (\<lambda>r.
     ret (if r < 0 then -1 else sint (sz pr))))))"

text \<open>The loop of \<open>sys_sleep\<close>, run again each time the clock wakes the process. The comparison is unsigned.\<close>

definition sys_sleep_loop :: "uint \<Rightarrow> uint \<Rightarrow> ('z life_state_scheme, int) kfun" where
  "sys_sleep_loop ticks0 n =
     mbind (gets ticks) (\<lambda>now.
     if now - ticks0 < n then
       mbind mykilled (\<lambda>k.
       if k then mbind (release TicksLk) (\<lambda>_. ret (-1))
       else sleep_in TicksChan TicksLk)
     else mbind (release TicksLk) (\<lambda>_. ret 0))"

definition sys_sleep :: "('z life_state_scheme, int) kfun" where
  "sys_sleep =
     need (argint 0) (\<lambda>n.
     mbind (acquire TicksLk) (\<lambda>_.
     mbind (gets ticks) (\<lambda>ticks0.
     sys_sleep_loop ticks0 n)))"

definition sys_sleep_resume :: "nat \<Rightarrow> bool \<Rightarrow> uint \<Rightarrow> uint \<Rightarrow> ('z life_state_scheme, int) kfun" where
  "sys_sleep_resume me ie ticks0 n = mbind (sleep_resume me TicksLk ie) (\<lambda>_. sys_sleep_loop ticks0 n)"

definition sys_uptime :: "('z life_state_scheme, int) kfun" where
  "sys_uptime =
     mbind (acquire TicksLk) (\<lambda>_.
     mbind (gets ticks) (\<lambda>xticks.
     mbind (release TicksLk) (\<lambda>_.
     ret (sint xticks))))"

definition sys_waitx :: "('z life_state_scheme, int) kfun" where
  "sys_waitx =
     need (argptr 0 4) (\<lambda>wtime.
     need (argptr 1 4) (\<lambda>rt.
     waitx wtime rt))"

definition sys_getps :: "('z life_state_scheme, int) kfun" where
  "sys_getps = getps"

definition sys_clone :: "('z life_state_scheme, int) kfun" where
  "sys_clone =
     need (argint 0) (\<lambda>function.
     need (argint 1) (\<lambda>arg.
     need (argint 2) (\<lambda>stack.
     clone function arg stack)))"

definition sys_join :: "('z life_state_scheme, int) kfun" where
  "sys_join =
     need (argint 0) (\<lambda>tid.
     need (argint 1) (\<lambda>stack.
     join (sint tid) stack))"

definition sys_gettid :: "('z life_state_scheme, int) kfun" where
  "sys_gettid = mbind curproc (\<lambda>me. mbind (getp me) (\<lambda>pr. ret (pid pr)))"

section \<open>Dispatch\<close>

text \<open>
  \<open>syscalls[num]\<close>. Number 24 has a name in \<open>syscall.h\<close>, \<open>SYS_set_priority\<close>, but no entry in the table.
\<close>

definition syscalls :: "int \<Rightarrow> ('z life_state_scheme, int) kfun option" where
  "syscalls num =
     (if num = 1 then Some sys_fork
      else if num = 2 then Some sys_exit
      else if num = 3 then Some sys_wait
      else if num = 4 then Some sys_pipe
      else if num = 5 then Some sys_read
      else if num = 6 then Some sys_kill
      else if num = 7 then Some sys_exec
      else if num = 8 then Some sys_fstat
      else if num = 9 then Some sys_chdir
      else if num = 10 then Some sys_dup
      else if num = 11 then Some sys_getpid
      else if num = 12 then Some sys_sbrk
      else if num = 13 then Some sys_sleep
      else if num = 14 then Some sys_uptime
      else if num = 15 then Some sys_open
      else if num = 16 then Some sys_write
      else if num = 17 then Some sys_mknod
      else if num = 18 then Some sys_unlink
      else if num = 19 then Some sys_link
      else if num = 20 then Some sys_mkdir
      else if num = 21 then Some sys_close
      else if num = 22 then Some sys_waitx
      else if num = 23 then Some sys_getps
      else if num = 25 then Some sys_clone
      else if num = 26 then Some sys_join
      else if num = 27 then Some sys_gettid
      else if num = 28 then Some sys_threadinfo
      else None)"

definition syscall :: "('z life_state_scheme, unit) kfun" where
  "syscall =
     mbind curproc (\<lambda>me.
     mbind (getp me) (\<lambda>pr.
     mbind (get_mem32 (tf pr + tf_eax)) (\<lambda>a.
     case syscalls (sint a) of
       Some f \<Rightarrow>
         mbind f (\<lambda>r.
         put_mem32 (tf pr + tf_eax) (word_of_int r))
     | None \<Rightarrow>
         mbind (cprintf ''%d %s: unknown sys call %d'' [Num (pid pr), Str (pname pr), Num (sint a)]) (\<lambda>_.
         put_mem32 (tf pr + tf_eax) (-1)))))"

end
