(* ===== verification/Trap.thy ===== *)
theory Trap
  imports Syscall
begin

text \<open>
  Model of \<open>trap.c\<close>: the interrupt descriptor table, and \<open>trap\<close>, which every system call, exception and
  interrupt goes through; and of the segment descriptors of \<open>vm.c\<close> and \<open>mmu.h\<close>. The trap frame is at address
  \<open>t\<close> of the modelled memory. \<open>cr2\<close> is the processor's fault address register, \<open>vectors\<close> the entry points
  generated by \<open>vectors.pl\<close>. The disk interrupt is that of \<open>memide.c\<close>, which does nothing. \<open>k\<close> bounds the number
  of characters a console interrupt may deliver.
\<close>

section \<open>Descriptors\<close>

record gatedesc =
  off_15_0 :: "16 word"
  g_cs :: "16 word"
  g_args :: "5 word"
  g_rsv1 :: "3 word"
  g_type :: "4 word"
  g_s :: "1 word"
  g_dpl :: "2 word"
  g_p :: "1 word"
  off_31_16 :: "16 word"

record segdesc =
  lim_15_0 :: "16 word"
  base_15_0 :: "16 word"
  base_23_16 :: "8 word"
  sd_type :: "4 word"
  sd_s :: "1 word"
  sd_dpl :: "2 word"
  sd_p :: "1 word"
  lim_19_16 :: "4 word"
  avl :: "1 word"
  sd_rsv1 :: "1 word"
  db :: "1 word"
  sd_g :: "1 word"
  base_31_24 :: "8 word"

record trap_state = life_state +
  cr2 :: uint
  vectors :: "nat \<Rightarrow> uint"
  idt :: "gatedesc list"
  gdts :: "segdesc list list"
  wakeup_ps :: int

definition SETGATE :: "bool \<Rightarrow> ushort \<Rightarrow> uint \<Rightarrow> 2 word \<Rightarrow> gatedesc" where
  "SETGATE istrap sel ofs d =
     \<lparr>off_15_0 = ucast (ofs AND 0xffff), g_cs = sel, g_args = 0, g_rsv1 = 0, g_type = (if istrap then 0xF else 0xE),
      g_s = 0, g_dpl = d, g_p = 1, off_31_16 = ucast (drop_bit 16 ofs)\<rparr>"

definition SEG :: "4 word \<Rightarrow> uint \<Rightarrow> uint \<Rightarrow> 2 word \<Rightarrow> segdesc" where
  "SEG type base lim dpl =
     \<lparr>lim_15_0 = ucast (drop_bit 12 lim AND 0xffff), base_15_0 = ucast (base AND 0xffff),
      base_23_16 = ucast (drop_bit 16 base AND 0xff), sd_type = type, sd_s = 1, sd_dpl = dpl, sd_p = 1,
      lim_19_16 = ucast (drop_bit 28 lim), avl = 0, sd_rsv1 = 0, db = 1, sd_g = 1, base_31_24 = ucast (drop_bit 24 base)\<rparr>"

text \<open>
  The table has 256 gates; \<open>SEG_KCODE << 3\<close> is 8. Only the gate for system calls is a trap gate a user program
  may invoke.
\<close>

definition tvinit :: "('z trap_state_scheme, unit) kfun" where
  "tvinit =
     mbind (modify (\<lambda>s. s\<lparr>idt := map (\<lambda>i. SETGATE False 8 (vectors s i) 0) [0..<256]\<rparr>)) (\<lambda>_.
     mbind (modify (\<lambda>s. s\<lparr>idt := (idt s)[64 := SETGATE True 8 (vectors s 64) 3]\<rparr>)) (\<lambda>_.
     initlock TicksLk ''time''))"

definition seginit :: "('z trap_state_scheme, unit) kfun" where
  "seginit =
     mbind cpuid (\<lambda>i.
     modify (\<lambda>s. s\<lparr>gdts := upd_at i (\<lambda>g. g[1 := SEG 0xA 0 0xffffffff 0, 2 := SEG 0x2 0 0xffffffff 0,
       3 := SEG 0xA 0 0xffffffff 3, 4 := SEG 0x2 0 0xffffffff 3]) (gdts s)\<rparr>))"

section \<open>Traps\<close>

definition ideintr_mem :: "('z bio_state_scheme, unit) kfun" where
  "ideintr_mem = ret ()"

definition q_ticks_max :: "int list" where
  "q_ticks_max = [2, 4, 8, 16, 32]"

abbreviation T_SYSCALL :: uint where "T_SYSCALL \<equiv> 64"
abbreviation TICKS_LIMIT :: int where "TICKS_LIMIT \<equiv> 500"

definition get_mem16 :: "uint \<Rightarrow> ('z kmem_state_scheme, ushort) kfun" where
  "get_mem16 a = gets (\<lambda>s. ucast (mem s a) OR push_bit 8 (ucast (mem s (a + 1))))"

text \<open>\<open>if(myproc() && myproc()->killed && (tf->cs&3) == DPL_USER) exit();\<close>\<close>

definition exit_if_killed :: "uint \<Rightarrow> ('z trap_state_scheme, unit) kfun" where
  "exit_if_killed t =
     mbind myproc (\<lambda>r. case r of
       None \<Rightarrow> ret ()
     | Some p \<Rightarrow>
         mbind (getp p) (\<lambda>pr.
         mbind (get_mem16 (t + tf_cs)) (\<lambda>cs.
         if killed pr \<and> cs AND 3 = 3 then exit else ret ())))"

definition timer_tick :: "('z trap_state_scheme, unit) kfun" where
  "timer_tick =
     mbind (acquire TicksLk) (\<lambda>_.
     mbind (modify (\<lambda>s. s\<lparr>ticks := ticks s + 1\<rparr>)) (\<lambda>_.
     mbind (wakeup TicksChan) (\<lambda>_.
     mbind (release TicksLk) (\<lambda>_.
     ticking))))"

text \<open>The default case: a fault in the kernel is fatal, one in a user program kills the process.\<close>

definition trap_fault :: "uint \<Rightarrow> ('z trap_state_scheme, unit) kfun" where
  "trap_fault t =
     mbind myproc (\<lambda>r.
     mbind (get_mem16 (t + tf_cs)) (\<lambda>cs.
     mbind (get_mem32 (t + tf_trapno)) (\<lambda>no.
     mbind (get_mem32 (t + tf_eip)) (\<lambda>eip.
     mbind (get_mem32 (t + tf_err)) (\<lambda>er.
     mbind cpuid (\<lambda>i.
     mbind (gets cr2) (\<lambda>c2.
     if r = None \<or> cs AND 3 = 0 then
       mbind (cprintf ''unexpected trap %d from cpu %d eip %x (cr2=0x%x)''
                [Num (sint no), Num (int i), Num (uint eip), Num (uint c2)]) (\<lambda>_.
       panic ''trap'')
     else
       mbind (deref r) (\<lambda>p.
       mbind (getp p) (\<lambda>pr.
       mbind (cprintf ''pid %d %s: trap %d err %d on cpu %d eip 0x%x addr 0x%x--kill proc''
                [Num (pid pr), Str (pname pr), Num (sint no), Num (sint er), Num (int i), Num (uint eip), Num (uint c2)]) (\<lambda>_.
       upd_proc p (\<lambda>x. x\<lparr>killed := True\<rparr>)))))))))))"

definition trap_dispatch :: "nat \<Rightarrow> uint \<Rightarrow> ('z trap_state_scheme, unit) kfun" where
  "trap_dispatch k t =
     mbind (get_mem32 (t + tf_trapno)) (\<lambda>no.
     if no = T_IRQ0 + IRQ_TIMER then
       mbind cpuid (\<lambda>i.
       mbind (if i = 0 then timer_tick else ret ()) (\<lambda>_.
       lift_io lapiceoi))
     else if no = T_IRQ0 + IRQ_IDE then mbind ideintr_mem (\<lambda>_. lift_io lapiceoi)
     else if no = T_IRQ0 + IRQ_IDE + 1 then ret ()
     else if no = T_IRQ0 + IRQ_KBD then mbind (kbdintr k) (\<lambda>_. lift_io lapiceoi)
     else if no = T_IRQ0 + IRQ_COM1 then mbind (uartintr k) (\<lambda>_. lift_io lapiceoi)
     else if no = T_IRQ0 + 7 \<or> no = T_IRQ0 + IRQ_SPURIOUS then
       mbind cpuid (\<lambda>i.
       mbind (get_mem16 (t + tf_cs)) (\<lambda>cs.
       mbind (get_mem32 (t + tf_eip)) (\<lambda>eip.
       mbind (cprintf ''cpu%d: spurious interrupt at %x:%x'' [Num (int i), Num (uint cs), Num (uint eip)]) (\<lambda>_.
       lift_io lapiceoi))))
     else trap_fault t)"

text \<open>What happens to the running process at a clock interrupt, under each scheduling policy.\<close>

definition preempt :: "uint \<Rightarrow> ('z trap_state_scheme, unit) kfun" where
  "preempt t =
     mbind myproc (\<lambda>r. case r of
       None \<Rightarrow> ret ()
     | Some p \<Rightarrow>
         mbind (getp p) (\<lambda>pr.
         mbind (get_mem32 (t + tf_trapno)) (\<lambda>no.
         if state pr = RUNNING \<and> no = T_IRQ0 + IRQ_TIMER then
           mbind (gets policy) (\<lambda>pol. case pol of
             RR \<Rightarrow> yield
           | FCFS \<Rightarrow>
               mbind (gets wakeup_ps) (\<lambda>w.
               if pticks pr > TICKS_LIMIT \<or> w > 0 then
                 if pticks pr > TICKS_LIMIT then mbind (kill (pid pr)) (\<lambda>_. ret ())
                 else mbind (modify (\<lambda>s. s\<lparr>wakeup_ps := 0\<rparr>)) (\<lambda>_. yield)
               else ret ())
           | MLFQ \<Rightarrow>
               if pqueue pr < 0 \<or> nat (pqueue pr) \<ge> length q_ticks_max then undef ''q_ticks_max index''
               else if curr_ticks pr \<ge> q_ticks_max ! nat (pqueue pr) then
                 mbind (change_q_flag p) (\<lambda>_. yield)
               else incr_curr_ticks p)
         else ret ())))"

definition trap :: "nat \<Rightarrow> uint \<Rightarrow> ('z trap_state_scheme, unit) kfun" where
  "trap k t =
     mbind (get_mem32 (t + tf_trapno)) (\<lambda>no.
     if no = T_SYSCALL then
       mbind mykilled (\<lambda>b.
       mbind (if b then exit else ret ()) (\<lambda>_.
       mbind curproc (\<lambda>me.
       mbind (upd_proc me (\<lambda>x. x\<lparr>tf := t\<rparr>)) (\<lambda>_.
       mbind syscall (\<lambda>_.
       mbind mykilled (\<lambda>b.
       if b then exit else ret ()))))))
     else
       mbind (trap_dispatch k t) (\<lambda>_.
       mbind (exit_if_killed t) (\<lambda>_.
       mbind (preempt t) (\<lambda>_.
       exit_if_killed t))))"

text \<open>What a process that yielded in \<open>trap\<close> does when it runs again.\<close>

definition trap_resume :: "bool \<Rightarrow> uint \<Rightarrow> ('z trap_state_scheme, unit) kfun" where
  "trap_resume ie t = mbind (yield_resume ie) (\<lambda>_. exit_if_killed t)"

section \<open>The clock interrupt\<close>

text \<open>The part of \<open>quiet\<close> that does not speak of the queues.\<close>

definition running :: "nat \<Rightarrow> 'z pstate_scheme \<Rightarrow> bool" where
  "running p s \<longleftrightarrow> mwf s \<and> ncli (cpus s ! this_cpu s) = 0 \<and> cproc (cpus s ! this_cpu s) = Some p \<and>
     p < length (procs s) \<and> (\<forall>lk. spinfree (spin s lk))"

lemma runningD:
  assumes "running p s"
  shows "mwf s" "ncli (cpus s ! this_cpu s) = 0" "cproc (cpus s ! this_cpu s) = Some p" "p < length (procs s)"
    "spinfree (spin s lk)" "this_cpu s < length (cpus s)"
  using assms this_idx_in_range [of "cpus s" "lapicid s" "hw_if s"] by (simp_all add: running_def)

lemma quiet_running: "quiet p s \<Longrightarrow> running p s"
  by (simp add: quiet_def running_def)

lemma running_procs: "running p s \<Longrightarrow> length ps = length (procs s) \<Longrightarrow> running p (s\<lparr>procs := ps\<rparr>)"
  by (simp add: running_def)

lemma running_io [simp]: "running p (s\<lparr>io := x\<rparr>) = running p s"
  by (simp add: running_def)

lemma running_crit: "running p s \<Longrightarrow> running p (s\<lparr>cpus := crit s\<rparr>)"
  using this_idx_in_range [of "cpus s" "lapicid s" "hw_if s"]
  by (simp add: running_def crit_def) (simp add: crit_cpus_def)

lemma acquire_running: "running p s \<Longrightarrow> acquire lk s = Ret () (inlock lk s)"
  by (simp add: inlock_def runningD)

lemma release_running: "running p s \<Longrightarrow> release lk (inlock lk s) = Ret () (s\<lparr>cpus := crit s\<rparr>)"
  by (simp add: inlock_def crit_def runningD)

lemma procs_inlock [simp]: "procs (inlock lk s) = procs s"
  by (simp add: inlock_def)

lemma upd_procs_inlock [simp]: "(inlock lk s)\<lparr>procs := ps\<rparr> = inlock lk (s\<lparr>procs := ps\<rparr>)"
  by (simp add: inlock_def)

lemma getp_inlock: "p < length (procs s) \<Longrightarrow> getp p (inlock lk s) = Ret (procs s ! p) (inlock lk s)"
  by (simp add: getp_def)

lemma myproc_running: "running p s \<Longrightarrow> myproc s = Ret (Some p) (s\<lparr>cpus := crit s\<rparr>)"
  using runningD [of p s] by (simp add: crit_def)

lemma change_q_flag_eq:
  assumes "running p s"
  shows "\<exists>u. change_q_flag p s = Ret () u \<and> running p u \<and> procs u = upd_at p (\<lambda>x. x\<lparr>change_q := True\<rparr>) (procs s) \<and> ticks u = ticks s"
proof -
  let ?u = "s\<lparr>procs := upd_at p (\<lambda>x. x\<lparr>change_q := True\<rparr>) (procs s)\<rparr>"
  have r: "running p ?u" by (rule running_procs [OF assms]) simp
  have "change_q_flag p s = Ret () (?u\<lparr>cpus := crit ?u\<rparr>)"
    by (simp add: change_q_flag_def acquire_running [OF assms] release_running [OF r])
  then show ?thesis using running_crit [OF r] by simp
qed

lemma incr_curr_ticks_eq:
  assumes "running p s" "0 \<le> pqueue (procs s ! p)" "nat (pqueue (procs s ! p)) < length (qticks (procs s ! p))"
  shows "\<exists>u x. incr_curr_ticks p s = Ret () u \<and> running p u \<and> ticks u = ticks s \<and> procs u = (procs s)[p := x] \<and>
    curr_ticks x = curr_ticks (procs s ! p) + 1 \<and> state x = state (procs s ! p) \<and> killed x = killed (procs s ! p) \<and> mem u = mem s"
proof -
  let ?f = "\<lambda>x. x\<lparr>curr_ticks := curr_ticks x + 1\<rparr>"
  let ?g = "\<lambda>x. x\<lparr>qticks := (qticks x)[nat (pqueue x) := qticks x ! nat (pqueue x) + 1]\<rparr>"
  let ?u = "s\<lparr>procs := upd_at p (\<lambda>x. ?g (?f x)) (procs s)\<rparr>"
  have r: "running p ?u" by (rule running_procs [OF assms(1)]) simp
  have "incr_curr_ticks p s = Ret () (?u\<lparr>cpus := crit ?u\<rparr>)"
    using assms(2,3) runningD(4) [OF assms(1)] release_running [OF r, of PtableLk]
    by (simp add: incr_curr_ticks_def acquire_running [OF assms(1)] getp_inlock)
  then show ?thesis using running_crit [OF r]
    by (intro exI [of _ "?u\<lparr>cpus := crit ?u\<rparr>"] exI [of _ "?g (?f (procs s ! p))"]) (use runningD(4) [OF assms(1)] in \<open>simp add: upd_at_def\<close>)
qed

lemma yield_running:
  assumes "running p s"
  shows "\<exists>t. yield s = Swtch t \<and> procs t = upd_at p (\<lambda>x. x\<lparr>state := RUNNABLE\<rparr>) (procs s) \<and> ticks t = ticks s"
proof -
  let ?t = "inlock PtableLk (s\<lparr>procs := upd_at p (\<lambda>x. x\<lparr>state := RUNNABLE\<rparr>) (procs s)\<rparr>)"
  note r = runningD [OF assms]
  have ht: "holds_only PtableLk (spin s) p ?t"
    using r by (auto simp: holds_only_def inlock_def intro!: exI [of _ "cpus s"] exI [of _ "hw_if s"])
  have "myproc (inlock PtableLk s) = Ret (Some p) (inlock PtableLk s)"
  proof -
    have "mwf (inlock PtableLk s)" "cproc (cpus (inlock PtableLk s) ! this_cpu s) = Some p" "this_cpu (inlock PtableLk s) = this_cpu s"
      using r by (simp_all add: inlock_def)
    moreover have "crit (inlock PtableLk s) = cpus (inlock PtableLk s)" using r by (simp add: crit_def inlock_def)
    ultimately show ?thesis by (simp add: crit_def)
  qed
  moreover have "sched ?t = Swtch ?t" by (rule sched_eq [OF ht]) (use r(4) in simp)
  ultimately have "yield s = Swtch ?t" by (simp add: yield_def acquire_running [OF assms] deref_def)
  then show ?thesis by (auto simp: inlock_def)
qed

lemma preempt_timer:
  assumes "running p s" "policy s = MLFQ" "load32 (mem s) (t + tf_trapno) = 32" "state (procs s ! p) = RUNNING"
    "0 \<le> pqueue (procs s ! p)" "pqueue (procs s ! p) < 5" "length (qticks (procs s ! p)) = 5"
  shows "if curr_ticks (procs s ! p) < q_ticks_max ! nat (pqueue (procs s ! p)) then
      \<exists>u x. preempt t s = Ret () u \<and> running p u \<and> ticks u = ticks s \<and> procs u = (procs s)[p := x] \<and> mem u = mem s \<and>
        curr_ticks x = curr_ticks (procs s ! p) + 1 \<and> state x = RUNNING \<and> killed x = killed (procs s ! p)
    else \<exists>u. preempt t s = Swtch u \<and> ticks u = ticks s \<and>
        procs u = upd_at p (\<lambda>x. x\<lparr>change_q := True, state := RUNNABLE\<rparr>) (procs s)"
proof -
  let ?v = "s\<lparr>cpus := crit s\<rparr>"
  note r = running_crit [OF assms(1)]
  have len: "length q_ticks_max = 5" by (simp add: q_ticks_max_def)
  have e: "preempt t s = (if curr_ticks (procs s ! p) \<ge> q_ticks_max ! nat (pqueue (procs s ! p))
      then mbind (change_q_flag p) (\<lambda>_. yield) ?v else incr_curr_ticks p ?v)"
    using assms(2-7) runningD(4) [OF assms(1)] len
    by (auto simp: preempt_def myproc_running [OF assms(1)] getp_def get_mem32_def)
  show ?thesis
  proof (cases "curr_ticks (procs s ! p) < q_ticks_max ! nat (pqueue (procs s ! p))")
    case True
    have "nat (pqueue (procs s ! p)) < length (qticks (procs s ! p))" using assms(5-7) by simp
    with incr_curr_ticks_eq [OF r] assms(4,5) True show ?thesis unfolding e by auto
  next
    case False
    obtain u where u: "change_q_flag p ?v = Ret () u" "running p u" "procs u = upd_at p (\<lambda>x. x\<lparr>change_q := True\<rparr>) (procs s)"
      "ticks u = ticks s" using change_q_flag_eq [OF r] by auto
    then show ?thesis using e False yield_running [OF u(2)] by auto
  qed
qed

lemma quiet_ticks [simp]: "quiet p (s\<lparr>ticks := n\<rparr>) = quiet p s"
  by (simp add: quiet_def)

definition tick_proc :: "proc \<Rightarrow> proc" where
  "tick_proc x = (if state x = RUNNING then x\<lparr>rtime := rtime x + 1\<rparr>
     else if state x = SLEEPING then x\<lparr>iotime := iotime x + 1\<rparr> else x)"

text \<open>The state after the counting part of the interrupt; it is \<open>s\<close> but for the listed fields.\<close>

definition ticked :: "'z fs_state_scheme \<Rightarrow> 'z fs_state_scheme \<Rightarrow> bool" where
  "ticked s t \<longleftrightarrow> t = s\<lparr>ticks := ticks s + 1, cpus := cpus t, queue := queue t, q_tail := q_tail t, io := io t,
     procs := map (\<lambda>x. tick_proc (woken_proc (ticks s + 1) TicksChan x)) (procs s)\<rparr>"

lemma timer_tick_eq:
  assumes "quiet p s"
  shows "\<exists>t. timer_tick s = Ret () t \<and> running p t \<and> ticked s t"
proof -
  let ?u = "s\<lparr>ticks := ticks s + 1\<rparr>"
  have qu: "quiet p ?u" using assms by simp
  obtain v where v: "wakeup TicksChan (inlock TicksLk ?u) = Ret () (inlock TicksLk v)" "calm p ?u v"
    "procs v = map (woken_proc (ticks ?u) TicksChan) (procs ?u)"
    by (rule wakeup_quiet [OF qu, of TicksLk TicksChan]) auto
  let ?w = "v\<lparr>cpus := crit v\<rparr>"
  let ?t = "?w\<lparr>procs := map tick_proc (procs v)\<rparr>"
  have i: "(inlock TicksLk s)\<lparr>ticks := ticks (inlock TicksLk s) + 1\<rparr> = inlock TicksLk ?u" by (simp add: inlock_def)
  have "timer_tick s = ticking ?w"
    using v(1) release_quiet [OF calmD(1) [OF v(2)], of TicksLk]
    by (simp add: timer_tick_def acquire_quiet [OF assms] i)
  also have "\<dots> = Ret () ?t" by (simp add: ticking_def tick_proc_def [abs_def])
  finally have "timer_tick s = Ret () ?t" .
  moreover have "running p ?t"
    using running_procs [OF running_crit [OF quiet_running [OF calmD(1) [OF v(2)]]]] by simp
  moreover have "ticked s ?t"
  proof -
    have "v = ?u\<lparr>cpus := cpus v, procs := procs v, queue := queue v, q_tail := q_tail v\<rparr>" by (rule calmD(3) [OF v(2)])
    moreover have "procs v = map (woken_proc (ticks s + 1) TicksChan) (procs s)" using v(3) by simp
    ultimately show ?thesis unfolding ticked_def by (cases s; cases v) (simp add: o_def)
  qed
  ultimately show ?thesis by blast
qed

lemma lift_lapiceoi: "\<exists>x. lift_io lapiceoi s = Ret () (s\<lparr>io := x\<rparr>)"
proof (cases "lapic (io s) = 0")
  case True
  then have "lift_io lapiceoi s = Ret () (s\<lparr>io := io s\<rparr>)" by (simp add: lift_io_def lapiceoi_def)
  then show ?thesis by blast
next
  case False
  then show ?thesis
    by (simp add: lift_io_def lapiceoi_def lapicw_def mmio_write_def lapic_get_def mmio_read_def) (rule exI, rule refl)
qed

lemma exit_if_killed_alive:
  assumes "running p s" "\<not> killed (procs s ! p)"
  shows "exit_if_killed t s = Ret () (s\<lparr>cpus := crit s\<rparr>)"
  using runningD(4) [OF assms(1)] assms(2)
  by (simp add: exit_if_killed_def myproc_running [OF assms(1)] getp_def get_mem16_def)

definition tock_proc :: "uint \<Rightarrow> proc \<Rightarrow> proc" where
  "tock_proc now x = tick_proc (woken_proc now TicksChan x)"

lemma tock_proc_running:
  assumes "state x = RUNNING"
  shows "tock_proc now x = x\<lparr>rtime := rtime x + 1\<rparr>"
  using assms by (simp add: tock_proc_def tick_proc_def woken_proc_def sleeping_on_def)

lemma tickedD:
  assumes "ticked s v"
  shows "ticks v = ticks s + 1" "mem v = mem s" "policy v = policy s" "procs v = map (tock_proc (ticks s + 1)) (procs s)"
  using arg_cong [OF assms [unfolded ticked_def], of ticks] arg_cong [OF assms [unfolded ticked_def], of mem]
    arg_cong [OF assms [unfolded ticked_def], of policy] arg_cong [OF assms [unfolded ticked_def], of procs]
  by (simp_all add: tock_proc_def [abs_def])

lemma dispatch_timer:
  assumes "quiet p s" "\<not> hw_if s (lapicid s)" "this_cpu s = 0" "load32 (mem s) (t + tf_trapno) = 32"
  shows "\<exists>u. trap_dispatch k t s = Ret () u \<and> running p u \<and> ticks u = ticks s + 1 \<and> mem u = mem s \<and> policy u = policy s \<and>
    procs u = map (tock_proc (ticks s + 1)) (procs s)"
proof -
  obtain v where v: "timer_tick s = Ret () v" "running p v" "ticked s v" using timer_tick_eq [OF assms(1)] by blast
  obtain x where x: "lift_io lapiceoi v = Ret () (v\<lparr>io := x\<rparr>)" using lift_lapiceoi by blast
  have c: "cpuid s = Ret 0 s" using assms(2,3) quietD(1) [OF assms(1)] by (simp add: cpuid_def mycpu_eq)
  have e: "ticks v = ticks s + 1" "mem v = mem s" "policy v = policy s" "procs v = map (tock_proc (ticks s + 1)) (procs s)"
    using tickedD [OF v(3)] by simp_all
  have "trap_dispatch k t s = Ret () (v\<lparr>io := x\<rparr>)"
    using assms(4) by (simp add: trap_dispatch_def get_mem32_def c v(1) x)
  then show ?thesis using v(2) e by (intro exI [of _ "v\<lparr>io := x\<rparr>"]) simp
qed

text \<open>
  C8: a clock interrupt on processor 0 advances the clock by one, makes every process that sleeps on the clock
  runnable and counts the tick for every other process as running or sleeping time. The interrupted process either goes
  on with one more tick of its slice, exactly when the slice of its queue is not used up, or gives up the processor as
  runnable and marked for the next lower queue.
\<close>

theorem timer_interrupt:
  assumes "quiet p s" "\<not> hw_if s (lapicid s)" "this_cpu s = 0" "load32 (mem s) (t + tf_trapno) = 32"
    and "\<not> killed (procs s ! p)" "0 \<le> pqueue (procs s ! p)" "pqueue (procs s ! p) < 5" "length (qticks (procs s ! p)) = 5"
  shows "\<exists>u. ticks u = ticks s + 1 \<and> length (procs u) = length (procs s) \<and>
    (\<forall>i < length (procs s). i \<noteq> p \<longrightarrow> procs u ! i = tock_proc (ticks s + 1) (procs s ! i)) \<and>
    (if curr_ticks (procs s ! p) < q_ticks_max ! nat (pqueue (procs s ! p))
     then trap k t s = Ret () u \<and> state (procs u ! p) = RUNNING \<and> curr_ticks (procs u ! p) = curr_ticks (procs s ! p) + 1
     else trap k t s = Swtch u \<and> procs u ! p = (procs s ! p)\<lparr>rtime := rtime (procs s ! p) + 1, change_q := True, state := RUNNABLE\<rparr>)"
proof -
  obtain a where a: "trap_dispatch k t s = Ret () a" "running p a" "ticks a = ticks s + 1" "mem a = mem s" "policy a = policy s"
    "procs a = map (tock_proc (ticks s + 1)) (procs s)"
    using dispatch_timer [OF assms(1-4)] by blast
  let ?b = "a\<lparr>cpus := crit a\<rparr>"
  have p: "p < length (procs s)" and st: "state (procs s ! p) = RUNNING" using quietD [OF assms(1)] by auto
  have ap: "procs ?b ! p = (procs s ! p)\<lparr>rtime := rtime (procs s ! p) + 1\<rparr>"
    using p by (simp add: a(6) tock_proc_running [OF st])
  have k1: "exit_if_killed t a = Ret () ?b" by (rule exit_if_killed_alive [OF a(2)]) (use ap assms(5) in simp)
  have tr: "trap k t s = mbind (preempt t) (\<lambda>_. exit_if_killed t) ?b"
    using assms(4) by (simp add: trap_def get_mem32_def a(1) k1)
  note pre = preempt_timer [OF running_crit [OF a(2)], of t, unfolded ap]
  have pr: "if curr_ticks (procs s ! p) < q_ticks_max ! nat (pqueue (procs s ! p)) then
      \<exists>u x. preempt t ?b = Ret () u \<and> running p u \<and> ticks u = ticks ?b \<and> procs u = (procs ?b)[p := x] \<and> mem u = mem ?b \<and>
        curr_ticks x = curr_ticks (procs s ! p) + 1 \<and> state x = RUNNING \<and> killed x = killed (procs s ! p)
    else \<exists>u. preempt t ?b = Swtch u \<and> ticks u = ticks ?b \<and>
        procs u = upd_at p (\<lambda>x. x\<lparr>change_q := True, state := RUNNABLE\<rparr>) (procs ?b)"
    using pre assms(4-8) st quietD(7) [OF assms(1)] a(4,5) by (simp cong: if_cong)
  show ?thesis
  proof (cases "curr_ticks (procs s ! p) < q_ticks_max ! nat (pqueue (procs s ! p))")
    case True
    then obtain u x where u: "preempt t ?b = Ret () u" "running p u" "ticks u = ticks ?b" "procs u = (procs ?b)[p := x]"
      "curr_ticks x = curr_ticks (procs s ! p) + 1" "state x = RUNNING" "killed x = killed (procs s ! p)"
      using pr by auto
    have up: "procs u ! p = x" using u(4) p by (simp add: a(6))
    have "exit_if_killed t u = Ret () (u\<lparr>cpus := crit u\<rparr>)"
      by (rule exit_if_killed_alive [OF u(2)]) (use u(7) up assms(5) in simp)
    then have "trap k t s = Ret () (u\<lparr>cpus := crit u\<rparr>)" by (simp add: tr u(1))
    then show ?thesis using True u(3,5,6) up
      by (intro exI [of _ "u\<lparr>cpus := crit u\<rparr>"]) (simp add: a(3,6) u(4))
  next
    case False
    then obtain u where u: "preempt t ?b = Swtch u" "ticks u = ticks ?b"
        "procs u = upd_at p (\<lambda>x. x\<lparr>change_q := True, state := RUNNABLE\<rparr>) (procs ?b)" using pr by auto
    have "trap k t s = Swtch u" by (simp add: tr u(1))
    then show ?thesis using False u(2) ap p by (intro exI [of _ u]) (simp add: u(3) a(3,6) upd_at_def)
  qed
qed

definition ex_trap :: trap_state where
  "ex_trap = life_state.extend (file_state.extend (ex_file\<lparr>mem := (\<lambda>_. 0)(48 := 32)\<rparr>)
      \<lparr>trapret = 0, forkret_pc = 0, initcode_start = 0, initcode_size = 0, first = False\<rparr>)
    \<lparr>cr2 = 0, vectors = (\<lambda>_. 0), idt = [], gdts = [], wakeup_ps = 0\<rparr>"

lemma ex_trap_quiet: "quiet 0 ex_trap"
  using ex_file_quiet by (simp add: quiet_def ex_trap_def life_state.defs file_state.defs)

lemma ex_trap_state: "\<not> hw_if ex_trap (lapicid ex_trap)" "this_cpu ex_trap = 0" "load32 (mem ex_trap) (0 + tf_trapno) = 32"
  "procs ex_trap ! 0 = ex_proc RUNNING 1 0" "ticks ex_trap = 100"
  by (simp_all add: ex_trap_def life_state.defs file_state.defs ex_file_def pipe_state.defs ex_pipe_def con_state.defs ex_con_def
      fs_state.defs ex_fs_def log_state.defs ex_log_def bio_state.defs ex_bio_def sl_state.defs ex_sl_def pstate.defs ex_run_def
      ex_pstate_def ex_cpu_def this_idx_def load32_def)

theorem timer_interrupt_witness:
  "\<exists>u. trap 1 0 ex_trap = Ret () u \<and> ticks u = 101 \<and> state (procs u ! 0) = RUNNING \<and> curr_ticks (procs u ! 0) = 1"
  using timer_interrupt [OF ex_trap_quiet ex_trap_state(1-3), of 1] by (auto simp: ex_trap_state ex_proc_def q_ticks_max_def)

end
