(* ===== verification/Mp.thy ===== *)
theory Mp
  imports Kalloc
begin

text \<open>
  Model of \<open>mp.c\<close>: the search for the tables in which the firmware describes the processors, and the walk over
  the entries of the configuration table. The structures of \<open>mp.h\<close> are read from memory at fixed offsets.
\<close>

section \<open>Finding the tables\<close>

definition mp_sum :: "mem \<Rightarrow> uint \<Rightarrow> nat \<Rightarrow> byte" where
  "mp_sum m addr len = sum_list (map (\<lambda>i. m (addr + of_nat i)) [0..<len])"

definition sig_at :: "mem \<Rightarrow> uint \<Rightarrow> string \<Rightarrow> bool" where
  "sig_at m a cs \<longleftrightarrow> map (\<lambda>i. m (a + of_nat i)) [0..<length cs] = map of_char cs"

text \<open>\<open>n\<close> is the number of 16-byte slots left to look at.\<close>

fun mpsearch1_loop :: "mem \<Rightarrow> uint \<Rightarrow> nat \<Rightarrow> uint option" where
  "mpsearch1_loop m p 0 = None"
| "mpsearch1_loop m p (Suc n) =
     (if sig_at m p ''_MP_'' \<and> mp_sum m p 16 = 0 then Some p else mpsearch1_loop m (p + 16) n)"

definition mpsearch1 :: "mem \<Rightarrow> uint \<Rightarrow> nat \<Rightarrow> uint option" where
  "mpsearch1 m a len = mpsearch1_loop m (P2V a) ((len + 15) div 16)"

definition word_at :: "mem \<Rightarrow> uint \<Rightarrow> uint" where
  "word_at m a = push_bit 8 (ucast (m (a + 1))) OR ucast (m a)"

definition mpsearch :: "mem \<Rightarrow> uint option" where
  "mpsearch m =
     (let bda = P2V 0x400; p = push_bit 4 (word_at m (bda + 0x0E)) in
      case (if p \<noteq> 0 then mpsearch1 m p 1024
            else mpsearch1 m (word_at m (bda + 0x13) * 1024 - 1024) 1024) of
        Some mp \<Rightarrow> Some mp
      | None \<Rightarrow> mpsearch1 m 0xF0000 0x10000)"

text \<open>The result: the floating pointer structure and the configuration table.\<close>

definition mpconfig :: "mem \<Rightarrow> (uint \<times> uint) option" where
  "mpconfig m =
     (case mpsearch m of
        None \<Rightarrow> None
      | Some mp \<Rightarrow>
          if load32 m (mp + 4) = 0 then None else
          let conf = P2V (load32 m (mp + 4)) in
          if \<not> sig_at m conf ''PCMP'' then None
          else if m (conf + 6) \<noteq> 1 \<and> m (conf + 6) \<noteq> 4 then None
          else if mp_sum m conf (unat (word_at m (conf + 4))) \<noteq> 0 then None
          else Some (mp, conf))"

section \<open>The entries\<close>

record mpscan =
  apicids :: "byte list"
  ioapic_no :: byte
  ismp :: bool

abbreviation NCPU :: nat where "NCPU \<equiv> 8"

text \<open>
  The loop of \<open>mpinit\<close>. The \<open>break\<close> of its default case leaves the \<open>switch\<close>, not the loop, and does not advance
  \<open>p\<close>; so the loop may run forever, and \<open>None\<close> is the result of a run that does.
\<close>

partial_function (option) mp_entries :: "mem \<Rightarrow> uint \<Rightarrow> uint \<Rightarrow> mpscan \<Rightarrow> mpscan option" where
  "mp_entries m p e r =
     (if p < e then
        if m p = 0 then
          mp_entries m (p + 20) e (if length (apicids r) < NCPU then r\<lparr>apicids := apicids r @ [m (p + 1)]\<rparr> else r)
        else if m p = 2 then mp_entries m (p + 8) e (r\<lparr>ioapic_no := m (p + 1)\<rparr>)
        else if m p = 1 \<or> m p = 3 \<or> m p = 4 then mp_entries m (p + 8) e r
        else mp_entries m p e (r\<lparr>ismp := False\<rparr>)
      else Some r)"

section \<open>Well-formed and ill-formed tables\<close>

text \<open>
  The entries from \<open>p\<close> up to \<open>q\<close> as the loop sees them: each starts below the end \<open>e\<close> of the table and has a known
  type. \<open>mp_entry\<close> is the effect of one of them.
\<close>

definition entry_size :: "byte \<Rightarrow> uint" where
  "entry_size t = (if t = 0 then 20 else 8)"

definition mp_entry :: "mem \<Rightarrow> uint \<Rightarrow> mpscan \<Rightarrow> mpscan" where
  "mp_entry m p r =
     (if m p = 0 then (if length (apicids r) < NCPU then r\<lparr>apicids := apicids r @ [m (p + 1)]\<rparr> else r)
      else if m p = 2 then r\<lparr>ioapic_no := m (p + 1)\<rparr> else r)"

fun laid_out :: "mem \<Rightarrow> uint \<Rightarrow> uint \<Rightarrow> uint list \<Rightarrow> uint \<Rightarrow> bool" where
  "laid_out m e p [] q \<longleftrightarrow> q = p"
| "laid_out m e p (a # as) q \<longleftrightarrow> a = p \<and> p < e \<and> m p \<in> {0, 1, 2, 3, 4} \<and> laid_out m e (p + entry_size (m p)) as q"

lemma mp_entries_known:
  "laid_out m e p as q \<Longrightarrow> mp_entries m p e r = mp_entries m q e (fold (mp_entry m) as r)"
proof (induction as arbitrary: p r)
  case (Cons a as)
  then have "mp_entries m p e r = mp_entries m (p + entry_size (m p)) e (mp_entry m p r)"
    by (subst mp_entries.simps) (auto simp: mp_entry_def entry_size_def)
  with Cons show ?case by auto
qed simp

lemma mp_entries_unknown: "p < e \<Longrightarrow> m p \<notin> {0, 1, 2, 3, 4} \<Longrightarrow> mp_entries m p e r = None"
proof (rule ccontr)
  assume p: "p < e" "m p \<notin> {0, 1, 2, 3, 4}" and "mp_entries m p e r \<noteq> None"
  then obtain y where y: "mp_entries m p e r = Some y" by blast
  have "\<not> (p < e \<and> m p \<notin> {0, 1, 2, 3, 4})"
    by (rule mp_entries.raw_induct [OF _ y]) (auto split: if_splits, blast)
  with p show False by blast
qed

text \<open>
  C35: the walk over the configuration table. If the table consists of entries of known types, the loop ends
  and has noted the APIC ids of the first eight processors and the id of the I/O APIC, in the order of the
  entries. If it meets an entry of an unknown type it never ends: the code means to leave the loop and panic
  with \<open>Didn't find a suitable machine\<close>, but its \<open>break\<close> only leaves the \<open>switch\<close>.
\<close>

theorem mp_entries_outcome:
  assumes "laid_out m e p as q"
  shows "(if e \<le> q then mp_entries m p e r = Some (fold (mp_entry m) as r)
          else if m q \<notin> {0, 1, 2, 3, 4} then mp_entries m p e r = None else True)"
proof -
  have "mp_entries m q e y = Some y" if "e \<le> q" for y
    using leD [OF that] by (subst mp_entries.simps) simp
  then show ?thesis
    using mp_entries_known [OF assms, of r] mp_entries_unknown [of q e m "fold (mp_entry m) as r"] by simp
qed

text \<open>A table with one processor and an entry of type 9.\<close>

theorem mp_entries_outcome_witness:
  "let m = (\<lambda>a. if a = 1 then 5 else if a = 20 then 9 else 0); r = \<lparr>apicids = [], ioapic_no = 0, ismp = True\<rparr> in
   mp_entries m 0 20 r = Some (r\<lparr>apicids := [5]\<rparr>) \<and> mp_entries m 0 21 r = None"
proof -
  let ?m = "\<lambda>a :: uint. if a = 1 then 5 else if a = 20 then 9 else 0 :: byte"
  let ?r = "\<lparr>apicids = [], ioapic_no = 0, ismp = True\<rparr>"
  have "laid_out ?m 20 0 [0] 20" "laid_out ?m 21 0 [0] 20" by (simp_all add: entry_size_def)
  from mp_entries_outcome [OF this(1), of ?r] mp_entries_outcome [OF this(2), of ?r]
  show ?thesis by (simp add: mp_entry_def Let_def)
qed

end
