(* ===== verification/Boot.thy ===== *)
theory Boot
  imports Trap Mp
begin

text \<open>
  Start-up of the machine: \<open>mpinit\<close> of \<open>mp.c\<close>, \<open>ioapicinit\<close> of \<open>ioapic.c\<close>, \<open>lapicstartap\<close> of \<open>lapic.c\<close> and
  all of \<open>main.c\<close>. Before \<open>mpinit\<close> the array \<open>cpus\<close> is zero and \<open>ncpu\<close> is 0, which is the
  empty list.
\<close>

record boot_kernel = trap_state +
  ioapicid :: byte
  entryother_start :: uint
  entryother_size :: uint
  mpenter_pc :: uint
  entrypgdir_addr :: uint
  fs_img :: "block list"
  idtr :: "byte \<Rightarrow> bool"
  cpu_started :: "nat \<Rightarrow> bool"

definition new_cpu :: "byte \<Rightarrow> cpu" where
  "new_cpu a = \<lparr>apicid = a, ncli = 0, intena = False, cproc = None, cr3 = 0, ts_esp0 = 0\<rparr>"

definition mpinit :: "('z boot_kernel_scheme, unit) kfun" where
  "mpinit =
     mbind (gets (\<lambda>s. mpconfig (mem s))) (\<lambda>r. case r of
       None \<Rightarrow> panic ''Expect to run on an SMP''
     | Some (mp, conf) \<Rightarrow>
         mbind (get_mem32 (conf + 36)) (\<lambda>l.
         mbind (lift_io (modify (\<lambda>s. s\<lparr>lapic := l\<rparr>))) (\<lambda>_.
         mbind (gets (\<lambda>s. mp_entries (mem s) (conf + 44) (conf + word_at (mem s) (conf + 4))
                   \<lparr>apicids = [], ioapic_no = ioapicid s, ismp = True\<rparr>)) (\<lambda>r. case r of
           None \<Rightarrow> stuck
         | Some r \<Rightarrow>
             mbind (modify (\<lambda>s. s\<lparr>cpus := map new_cpu (apicids r), ioapicid := ioapic_no r\<rparr>)) (\<lambda>_.
             if \<not> ismp r then panic ''Didn't find a suitable machine'' else
             mbind (gets (\<lambda>s. mem s (mp + 12))) (\<lambda>imcrp.
             if imcrp \<noteq> 0 then
               mbind (lift_io (outb 0x22 0x70)) (\<lambda>_.
               mbind (lift_io (inb 0x23)) (\<lambda>b.
               lift_io (outb 0x23 (b OR 1))))
             else ret ()))))))"

definition ioapicinit :: "('z boot_kernel_scheme, unit) kfun" where
  "ioapicinit =
     mbind (lift_io (ioapicread REG_VER)) (\<lambda>v.
     let maxintr = drop_bit 16 v AND 0xFF in
     mbind (lift_io (ioapicread REG_ID)) (\<lambda>r.
     mbind (gets ioapicid) (\<lambda>i.
     mbind (if drop_bit 24 r \<noteq> ucast i
            then cprintf ''ioapicinit: id isn't equal to ioapicid; not a MP'' [] else ret ()) (\<lambda>_.
     lift_io (ioapic_mask_all maxintr)))))"

definition lapicstartap :: "byte \<Rightarrow> uint \<Rightarrow> ('z boot_kernel_scheme, unit) kfun" where
  "lapicstartap apic addr =
     mbind (lift_io (outb CMOS_PORT 0xF)) (\<lambda>_.
     mbind (lift_io (outb (CMOS_PORT + 1) 0x0A)) (\<lambda>_.
     let wrv = P2V (push_bit 4 0x40 OR 0x67) in
     mbind (put_mem16 wrv 0) (\<lambda>_.
     mbind (put_mem16 (wrv + 2) (ucast (drop_bit 4 addr))) (\<lambda>_.
     lift_io (lapicstartap_ipi apic addr)))))"

text \<open>
  \<open>started c\<close> reads \<open>cpus[c].started\<close>, which processor \<open>c\<close> sets when it runs; \<open>k\<close> bounds how often it is read.
\<close>

definition startothers :: "(nat \<Rightarrow> ('z boot_kernel_scheme, bool) kfun) \<Rightarrow> nat \<Rightarrow> ('z boot_kernel_scheme, unit) kfun" where
  "startothers started k =
     (let code = P2V 0x7000 in
      mbind (modify (\<lambda>s. s\<lparr>mem := memmove (mem s) code (entryother_start s) (entryother_size s)\<rparr>)) (\<lambda>_.
      mbind (gets (\<lambda>s. length (cpus s))) (\<lambda>ncpu.
      mforeach [0..<ncpu] (\<lambda>c.
        mbind mycpu (\<lambda>me.
        if c = me then ret () else
        mbind kalloc (\<lambda>stack.
        mbind (put_mem32 (code - 4) (stack + KSTACKSIZE)) (\<lambda>_.
        mbind (mbind (gets mpenter_pc) (put_mem32 (code - 8))) (\<lambda>_.
        mbind (mbind (gets entrypgdir_addr) (\<lambda>d. put_mem32 (code - 12) (V2P d))) (\<lambda>_.
        mbind (gets (\<lambda>s. apicid (cpus s ! c))) (\<lambda>a.
        mbind (lapicstartap a (V2P code)) (\<lambda>_.
        poll k (started c))))))))))))"

text \<open>
  \<open>idtr\<close> tells which processors have loaded the interrupt table. \<open>ideinit\<close> is that of \<open>memide.c\<close>: the disk becomes the
  image linked into the kernel.
\<close>

definition idtinit :: "('z boot_kernel_scheme, unit) kfun" where
  "idtinit = modify (\<lambda>s. s\<lparr>idtr := (idtr s)(lapicid s := True)\<rparr>)"

definition ideinit_mem :: "('z boot_kernel_scheme, unit) kfun" where
  "ideinit_mem = modify (\<lambda>s. s\<lparr>disk := fs_img s\<rparr>)"

text \<open>The processor then runs the turns of the scheduler's loop forever, as the processor \<open>mpmain\<close> returns.\<close>

definition mpmain :: "('z boot_kernel_scheme, nat) kfun" where
  "mpmain =
     mbind cpuid (\<lambda>i.
     mbind cpuid (\<lambda>j.
     mbind (cprintf ''cpu%d: starting %d'' [Num (int i), Num (int j)]) (\<lambda>_.
     mbind idtinit (\<lambda>_.
     mbind mycpu (\<lambda>c.
     mbind (modify (\<lambda>s. s\<lparr>cpu_started := (cpu_started s)(c := True)\<rparr>)) (\<lambda>_.
     scheduler_start))))))"

definition mpenter :: "nat \<Rightarrow> ('z boot_kernel_scheme, nat) kfun" where
  "mpenter k =
     mbind switchkvm (\<lambda>_.
     mbind seginit (\<lambda>_.
     mbind (lift_io (lapicinit k)) (\<lambda>_.
     mpmain)))"

definition main :: "(nat \<Rightarrow> ('z boot_kernel_scheme, bool) kfun) \<Rightarrow> nat \<Rightarrow> ('z boot_kernel_scheme, nat) kfun" where
  "main started k =
     mbind (gets kend) (\<lambda>e.
     mbind (kinit1 e (P2V (4 * 1024 * 1024))) (\<lambda>_.
     mbind kvmalloc (\<lambda>_.
     mbind mpinit (\<lambda>_.
     mbind (lift_io (lapicinit k)) (\<lambda>_.
     mbind seginit (\<lambda>_.
     mbind (lift_io picinit) (\<lambda>_.
     mbind ioapicinit (\<lambda>_.
     mbind consoleinit (\<lambda>_.
     mbind (lift_io uartinit) (\<lambda>_.
     mbind pinit (\<lambda>_.
     mbind tvinit (\<lambda>_.
     mbind binit (\<lambda>_.
     mbind fileinit (\<lambda>_.
     mbind ideinit_mem (\<lambda>_.
     mbind (startothers started k) (\<lambda>_.
     mbind (kinit2 (P2V (4 * 1024 * 1024)) (P2V PHYSTOP)) (\<lambda>_.
     mbind userinit (\<lambda>_.
     mpmain))))))))))))))))))"

text \<open>The boot page table: two 4 MB pages, \<open>PTE_PS\<close> being \<open>0x80\<close>.\<close>

definition entrypgdir :: "uint list" where
  "entrypgdir = (replicate 1024 0)[0 := PTE_P OR PTE_W OR 0x80, 512 := PTE_P OR PTE_W OR 0x80]"

end
