(* ===== verification/Bootmain.thy ===== *)
theory Bootmain
  imports Ports
begin

text \<open>
  Model of \<open>bootmain.c\<close>, the boot loader: it reads the kernel's ELF image from the disk, sector by sector, into
  physical memory. \<open>k\<close> bounds the number of status reads of one \<open>waitdisk\<close>.
\<close>

record boot_state = io_state +
  bmem :: mem

definition waitdisk :: "nat \<Rightarrow> ('z boot_state_scheme, unit) kfun" where
  "waitdisk k = poll k (mbind (inb 0x1F7) (\<lambda>r. ret (r AND 0xC0 = 0x40)))"

fun store_words :: "mem \<Rightarrow> uint \<Rightarrow> uint list \<Rightarrow> mem" where
  "store_words m a [] = m"
| "store_words m a (w # ws) = store_words (store32 m a w) (a + 4) ws"

definition readsect :: "nat \<Rightarrow> uint \<Rightarrow> uint \<Rightarrow> ('z boot_state_scheme, unit) kfun" where
  "readsect k dst offset =
     mbind (waitdisk k) (\<lambda>_.
     mbind (outb 0x1F2 1) (\<lambda>_.
     mbind (outb 0x1F3 (ucast offset)) (\<lambda>_.
     mbind (outb 0x1F4 (ucast (drop_bit 8 offset))) (\<lambda>_.
     mbind (outb 0x1F5 (ucast (drop_bit 16 offset))) (\<lambda>_.
     mbind (outb 0x1F6 (ucast (drop_bit 24 offset) OR 0xE0)) (\<lambda>_.
     mbind (outb 0x1F7 0x20) (\<lambda>_.
     mbind (waitdisk k) (\<lambda>_.
     mbind (insl 0x1F0 128) (\<lambda>ws.
     modify (\<lambda>s. s\<lparr>bmem := store_words (bmem s) dst ws\<rparr>))))))))))"

text \<open>
  The loop of \<open>readseg\<close>. Addresses are below \<open>epa\<close>, so \<open>pa\<close> can wrap around only in the last turn, where the
  code's loop would start again at address 0; the model makes this an error.
\<close>

function readseg_loop :: "nat \<Rightarrow> uint \<Rightarrow> uint \<Rightarrow> uint \<Rightarrow> ('z boot_state_scheme, unit) kfun" where
  "readseg_loop k pa epa offset =
     (if pa < epa then
        mbind (readsect k pa offset) (\<lambda>_.
        if pa + 512 \<le> pa then undef ''address wrap''
        else readseg_loop k (pa + 512) epa (offset + 1))
      else ret ())"
  by pat_completeness auto
termination
  by (relation "measure (\<lambda>(_, pa, _, _). 2 ^ 32 - unat pa)")
    (auto simp: not_le word_less_nat_alt intro!: diff_less_mono2 order_less_le_trans [OF unat32_lt])

declare readseg_loop.simps [simp del]

definition readseg :: "nat \<Rightarrow> uint \<Rightarrow> uint \<Rightarrow> uint \<Rightarrow> ('z boot_state_scheme, unit) kfun" where
  "readseg k pa count offset =
     (let epa = pa + count; pa = pa - offset mod 512; offset = offset div 512 + 1 in
      readseg_loop k pa epa offset)"

text \<open>The loop over the program headers; fields as in \<open>elf.h\<close>.\<close>

fun load_segments :: "nat \<Rightarrow> uint \<Rightarrow> nat \<Rightarrow> ('z boot_state_scheme, unit) kfun" where
  "load_segments k ph 0 = ret ()"
| "load_segments k ph (Suc n) =
     mbind (gets (\<lambda>s. (load32 (bmem s) (ph + 12), load32 (bmem s) (ph + 16), load32 (bmem s) (ph + 20),
                       load32 (bmem s) (ph + 4)))) (\<lambda>(pa, filesz, memsz, ofs).
     mbind (readseg k pa filesz ofs) (\<lambda>_.
     mbind (if memsz > filesz then
              modify (\<lambda>s. s\<lparr>bmem := stosb (bmem s) (pa + filesz) 0 (unat (memsz - filesz))\<rparr>)
            else ret ()) (\<lambda>_.
     load_segments k (ph + 32) n)))"

text \<open>The result is the address \<open>bootmain\<close> jumps to, or \<open>None\<close> when it returns because there is no ELF image.\<close>

definition bootmain :: "nat \<Rightarrow> ('z boot_state_scheme, uint option) kfun" where
  "bootmain k =
     (let elf = 0x10000 in
      mbind (readseg k elf 4096 0) (\<lambda>_.
      mbind (gets (\<lambda>s. load32 (bmem s) elf)) (\<lambda>magic.
      if magic \<noteq> 0x464C457F then ret None else
      mbind (gets (\<lambda>s. load32 (bmem s) (elf + 28))) (\<lambda>phoff.
      mbind (gets (\<lambda>s. unat (bmem s (elf + 44)) + 256 * unat (bmem s (elf + 45)))) (\<lambda>phnum.
      mbind (load_segments k (elf + phoff) phnum) (\<lambda>_.
      mbind (gets (\<lambda>s. load32 (bmem s) (elf + 24))) (\<lambda>entry.
      ret (Some entry))))))))"

end
