(* ===== verification/Ide.thy ===== *)
theory Ide
  imports Bio Uart
begin

text \<open>
  Model of \<open>ide.c\<close>, the interrupt-driven disk driver the ordinary kernel image is linked with (\<open>memide.c\<close>,
  used by the rest of this development, takes its place in the \<open>kernelmemfs\<close> image). Requests wait in a list
  linked through \<open>qnext\<close>, whose head is being served by the disk. \<open>k\<close> bounds the number of times the status
  port is read in \<open>idewait\<close>.
\<close>

section \<open>State\<close>

record ide_state = bio_state +
  idequeue :: "nat option"
  havedisk1 :: bool
  ide_io :: io_state

definition on_io :: "(io_state, 'a) kfun \<Rightarrow> ('z ide_state_scheme, 'a) kfun" where
  "on_io m = (\<lambda>s. case m (ide_io s) of
       Ret x t \<Rightarrow> Ret x (s\<lparr>ide_io := t\<rparr>)
     | Swtch t \<Rightarrow> Swtch (s\<lparr>ide_io := t\<rparr>)
     | Spin lk t \<Rightarrow> Spin lk (s\<lparr>ide_io := t\<rparr>)
     | Stop e \<Rightarrow> Stop e)"

section \<open>Operations\<close>

text \<open>\<open>(r & (IDE_BSY|IDE_DRDY)) == IDE_DRDY\<close>, and the errors \<open>IDE_DF|IDE_ERR\<close>.\<close>

fun idewait :: "nat \<Rightarrow> bool \<Rightarrow> ('z io_state_scheme, int) kfun" where
  "idewait 0 checkerr = stuck"
| "idewait (Suc k) checkerr =
     mbind (inb 0x1f7) (\<lambda>r.
     if r AND 0xC0 \<noteq> 0x40 then idewait k checkerr
     else ret (if checkerr \<and> r AND 0x21 \<noteq> 0 then -1 else 0))"

fun probe_disk1 :: "nat \<Rightarrow> ('z io_state_scheme, bool) kfun" where
  "probe_disk1 0 = ret False"
| "probe_disk1 (Suc n) = mbind (inb 0x1f7) (\<lambda>r. if r \<noteq> 0 then ret True else probe_disk1 n)"

definition ideinit :: "nat \<Rightarrow> ('z ide_state_scheme, unit) kfun" where
  "ideinit k =
     mbind (initlock IdeLk ''ide'') (\<lambda>_.
     mbind (gets (\<lambda>s. of_nat (length (cpus s)))) (\<lambda>ncpu.
     mbind (on_io (ioapicenable IRQ_IDE (ncpu - 1))) (\<lambda>_.
     mbind (on_io (idewait k False)) (\<lambda>_.
     mbind (on_io (outb 0x1f6 (0xe0 OR push_bit 4 1))) (\<lambda>_.
     mbind (on_io (probe_disk1 1000)) (\<lambda>b.
     mbind (if b then modify (\<lambda>s. s\<lparr>havedisk1 := True\<rparr>) else ret ()) (\<lambda>_.
     on_io (outb 0x1f6 (0xe0 OR push_bit 4 0)))))))))"

abbreviation FSSIZE :: uint where "FSSIZE \<equiv> 1000"

definition block_words :: "block \<Rightarrow> uint list" where
  "block_words d = get32s 0 128 d"

definition words_block :: "uint list \<Rightarrow> block" where
  "words_block ws = concat (map le32 ws)"

text \<open>A block is one sector, so the commands are those for single sectors.\<close>

definition idestart :: "nat \<Rightarrow> nat option \<Rightarrow> ('z ide_state_scheme, unit) kfun" where
  "idestart k r = (case r of
     None \<Rightarrow> panic ''idestart''
   | Some b \<Rightarrow>
       mbind (getb b) (\<lambda>x.
       if blockno x \<ge> FSSIZE then panic ''incorrect blockno'' else
       let sector = blockno x in
       mbind (on_io (idewait k False)) (\<lambda>_.
       mbind (on_io (outb 0x3f6 0)) (\<lambda>_.
       mbind (on_io (outb 0x1f2 1)) (\<lambda>_.
       mbind (on_io (outb 0x1f3 (ucast sector))) (\<lambda>_.
       mbind (on_io (outb 0x1f4 (ucast (drop_bit 8 sector)))) (\<lambda>_.
       mbind (on_io (outb 0x1f5 (ucast (drop_bit 16 sector)))) (\<lambda>_.
       mbind (on_io (outb 0x1f6 (0xe0 OR push_bit 4 (ucast (bdev x AND 1)) OR ucast (drop_bit 24 sector AND 0x0f)))) (\<lambda>_.
       if bflags x AND B_DIRTY \<noteq> 0 then
         mbind (on_io (outb 0x1f7 0x30)) (\<lambda>_.
         on_io (outsl 0x1f0 (block_words (bdata x))))
       else on_io (outb 0x1f7 0x20))))))))))"

text \<open>The data of a finished read; after an error the buffer keeps what it had.\<close>

definition ideintr_read :: "nat \<Rightarrow> nat \<Rightarrow> buf \<Rightarrow> ('z ide_state_scheme, unit) kfun" where
  "ideintr_read k b x =
     (if bflags x AND B_DIRTY = 0 then
        mbind (on_io (idewait k True)) (\<lambda>r.
        if r \<ge> 0 then
          mbind (on_io (insl 0x1f0 128)) (\<lambda>ws.
          updb b (\<lambda>y. y\<lparr>bdata := words_block ws\<rparr>))
        else ret ())
      else ret ())"

definition ideintr :: "nat \<Rightarrow> ('z ide_state_scheme, unit) kfun" where
  "ideintr k =
     mbind (acquire IdeLk) (\<lambda>_.
     mbind (gets idequeue) (\<lambda>q. case q of
       None \<Rightarrow> release IdeLk
     | Some b \<Rightarrow>
         mbind (getb b) (\<lambda>x.
         mbind (modify (\<lambda>s. s\<lparr>idequeue := qnext x\<rparr>)) (\<lambda>_.
         mbind (ideintr_read k b x) (\<lambda>_.
         mbind (updb b (\<lambda>y. y\<lparr>bflags := bflags y OR B_VALID\<rparr>)) (\<lambda>_.
         mbind (updb b (\<lambda>y. y\<lparr>bflags := bflags y AND NOT B_DIRTY\<rparr>)) (\<lambda>_.
         mbind (wakeup (BufChan b)) (\<lambda>_.
         mbind (gets idequeue) (\<lambda>q.
         mbind (if q \<noteq> None then idestart k q else ret ()) (\<lambda>_.
         release IdeLk))))))))))"

text \<open>The end of the queue: the last buffer in it, or \<open>None\<close> when it is empty. It has at most \<open>n\<close> entries.\<close>

fun queue_last :: "nat \<Rightarrow> nat option \<Rightarrow> nat option \<Rightarrow> ('z ide_state_scheme, nat option) kfun" where
  "queue_last n None prev = ret prev"
| "queue_last 0 (Some b) prev = undef ''disk queue is circular''"
| "queue_last (Suc n) (Some b) prev = mbind (getb b) (\<lambda>x. queue_last n (qnext x) (Some b))"

text \<open>The loop that waits for the request to be finished, run again after each wakeup.\<close>

definition iderw_wait :: "nat \<Rightarrow> ('z ide_state_scheme, unit) kfun" where
  "iderw_wait b =
     mbind (getb b) (\<lambda>x.
     if bflags x AND (B_VALID OR B_DIRTY) \<noteq> B_VALID then sleep (BufChan b) IdeLk
     else release IdeLk)"

definition iderw_ide :: "nat \<Rightarrow> nat \<Rightarrow> ('z ide_state_scheme, unit) kfun" where
  "iderw_ide k b =
     mbind (holdingsleep (BufSl b)) (\<lambda>h.
     if \<not> h then panic ''iderw: buf not locked'' else
     mbind (getb b) (\<lambda>x.
     if bflags x AND (B_VALID OR B_DIRTY) = B_VALID then panic ''iderw: nothing to do'' else
     mbind (gets havedisk1) (\<lambda>d1.
     if bdev x \<noteq> 0 \<and> \<not> d1 then panic ''iderw: ide disk 1 not present'' else
     mbind (acquire IdeLk) (\<lambda>_.
     mbind (updb b (\<lambda>y. y\<lparr>qnext := None\<rparr>)) (\<lambda>_.
     mbind (gets (\<lambda>s. (length (bufs s), idequeue s))) (\<lambda>(n, q).
     mbind (queue_last n q None) (\<lambda>l.
     mbind (case l of
              None \<Rightarrow> modify (\<lambda>s. s\<lparr>idequeue := Some b\<rparr>)
            | Some e \<Rightarrow> updb e (\<lambda>y. y\<lparr>qnext := Some b\<rparr>)) (\<lambda>_.
     mbind (gets idequeue) (\<lambda>q.
     mbind (if q = Some b then idestart k (Some b) else ret ()) (\<lambda>_.
     iderw_wait b))))))))))"

definition iderw_resume :: "nat \<Rightarrow> bool \<Rightarrow> nat \<Rightarrow> ('z ide_state_scheme, unit) kfun" where
  "iderw_resume p ie b = mbind (sleep_resume p IdeLk ie) (\<lambda>_. iderw_wait b)"

section \<open>The queue of requests\<close>

fun linked :: "buf list \<Rightarrow> nat option \<Rightarrow> nat list \<Rightarrow> bool" where
  "linked bs q [] \<longleftrightarrow> q = None"
| "linked bs q (b # l) \<longleftrightarrow> q = Some b \<and> b < length bs \<and> linked bs (qnext (bs ! b)) l"

lemma linked_range: "linked bs q l \<Longrightarrow> set l \<subseteq> {..<length bs}"
  by (induction l arbitrary: q) auto

lemma linked_length:
  assumes "linked bs q l" "distinct l"
  shows "length l \<le> length bs"
  using card_mono [OF _ linked_range [OF assms(1)]] distinct_card [OF assms(2)] by simp

lemma linked_cong:
  assumes "linked bs q l" "\<forall>b \<in> set l. qnext (cs ! b) = qnext (bs ! b)" "length cs = length bs"
  shows "linked cs q l"
  using assms by (induction l arbitrary: q) auto

lemma linked_snoc:
  assumes "linked bs q l" "distinct (l @ [b])" "b < length bs" "qnext (bs ! b) = None"
  shows "if l = [] then linked bs (Some b) [b] else linked (upd_at (last l) (\<lambda>y. y\<lparr>qnext := Some b\<rparr>) bs) q (l @ [b])"
  using assms
proof (induction l arbitrary: q)
  case (Cons x xs)
  then have x: "q = Some x" "x < length bs" "linked bs (qnext (bs ! x)) xs" "x \<noteq> b" by auto
  show ?case
  proof (cases "xs = []")
    case True
    then show ?thesis using x Cons.prems by (simp add: upd_at_def)
  next
    case False
    then have "x \<noteq> last xs" using Cons.prems(2) by auto
    then show ?thesis using Cons.IH [OF x(3)] Cons.prems False x by (auto simp: upd_at_def split: if_splits)
  qed
qed simp

lemma queue_last_eq:
  "linked (bufs s) q l \<Longrightarrow> length l \<le> n \<Longrightarrow> queue_last n q prev s = Ret (if l = [] then prev else Some (last l)) s"
proof (induction l arbitrary: q n prev)
  case (Cons b l)
  then show ?case by (cases n) (auto simp: getb_def)
qed simp

section \<open>The disk\<close>

definition disk_ready :: "'z io_state_scheme \<Rightarrow> bool" where
  "disk_ready s \<longleftrightarrow> (\<forall>n. in_port s 0x1f7 n AND 0xC0 = 0x40)"

definition disk_error :: "'z io_state_scheme \<Rightarrow> bool" where
  "disk_error s \<longleftrightarrow> in_port s 0x1f7 0 AND 0x21 \<noteq> 0"

definition ide_command :: "buf \<Rightarrow> out_event list" where
  "ide_command x =
     [Outb 0x3f6 0, Outb 0x1f2 1, Outb 0x1f3 (ucast (blockno x)), Outb 0x1f4 (ucast (drop_bit 8 (blockno x))),
      Outb 0x1f5 (ucast (drop_bit 16 (blockno x))),
      Outb 0x1f6 (0xe0 OR push_bit 4 (ucast (bdev x AND 1)) OR ucast (drop_bit 24 (blockno x) AND 0x0f))] @
     (if bflags x AND B_DIRTY \<noteq> 0 then Outb 0x1f7 0x30 # map (Outl 0x1f0) (block_words (bdata x)) else [Outb 0x1f7 0x20])"

lemma idewait_ready:
  assumes "disk_ready s"
  shows "idewait (Suc k) c s = Ret (if c \<and> disk_error s then - 1 else 0) (s\<lparr>in_port := (in_port s)(0x1f7 := \<lambda>n. in_port s 0x1f7 (Suc n))\<rparr>)"
  using assms by (simp add: inb_def disk_ready_def disk_error_def)

lemma disk_ready_next: "disk_ready s \<Longrightarrow> disk_ready (s\<lparr>in_port := (in_port s)(0x1f7 := \<lambda>n. in_port s 0x1f7 (Suc n))\<rparr>)"
  by (simp add: disk_ready_def)

lemma insl_eq:
  "\<exists>t. insl port n s = Ret (map (in_word s port) [0..<n]) t \<and> in_port t = in_port s \<and> outs t = outs s"
proof (induction n arbitrary: s)
  case (Suc n)
  let ?u = "s\<lparr>in_word := (in_word s)(port := \<lambda>n. in_word s port (Suc n))\<rparr>"
  obtain t where t: "insl port n ?u = Ret (map (in_word ?u port) [0..<n]) t" "in_port t = in_port ?u" "outs t = outs ?u"
    using Suc.IH by blast
  have "map (in_word s port) [0..<Suc n] = in_word s port 0 # map (in_word ?u port) [0..<n]"
    by (simp add: map_upt_Suc del: upt_Suc)
  then show ?case using t by simp
qed simp

lemma idestart_eq:
  assumes "disk_ready (ide_io s)" "b < length (bufs s)" "blockno (bufs s ! b) < FSSIZE"
  shows "\<exists>x. idestart (Suc k) (Some b) s = Ret () (s\<lparr>ide_io := x\<rparr>) \<and> disk_ready x \<and> outs x = outs (ide_io s) @ ide_command (bufs s ! b)"
proof -
  have n: "\<not> FSSIZE \<le> blockno (bufs s ! b)" using assms(3) by simp
  show ?thesis
    using assms(2) n disk_ready_next [OF assms(1)]
    by (simp add: idestart_def getb_def on_io_def idewait_ready [OF assms(1)] outb_def outsl_def ide_command_def Let_def del: idewait.simps)
       (auto simp: disk_ready_def)
qed

section \<open>Under the driver's lock\<close>

lemma quiet_idequeue [simp]: "quiet p (s\<lparr>idequeue := q\<rparr>) = quiet p s"
  by (simp add: quiet_def)

lemma quiet_ide_io [simp]: "quiet p (s\<lparr>ide_io := x\<rparr>) = quiet p s"
  by (simp add: quiet_def)

lemma quiet_ide_bufs [simp]: "quiet p (s\<lparr>bufs := bs\<rparr>) = quiet p s"
  by (simp add: quiet_def)

lemma ide_inlock [simp]:
  "idequeue (inlock lk s) = idequeue s" "bufs (inlock lk s) = bufs s" "ide_io (inlock lk s) = ide_io s"
  "(inlock lk s)\<lparr>idequeue := q\<rparr> = inlock lk (s\<lparr>idequeue := q\<rparr>)" "(inlock lk s)\<lparr>bufs := bs\<rparr> = inlock lk (s\<lparr>bufs := bs\<rparr>)"
  "(inlock lk s)\<lparr>ide_io := x\<rparr> = inlock lk (s\<lparr>ide_io := x\<rparr>)"
  by (simp_all add: inlock_def)

definition enqueued :: "nat \<Rightarrow> nat list \<Rightarrow> buf list \<Rightarrow> buf list" where
  "enqueued b l bs = (let bs = upd_at b (\<lambda>y. y\<lparr>qnext := None\<rparr>) bs in
     if l = [] then bs else upd_at (last l) (\<lambda>y. y\<lparr>qnext := Some b\<rparr>) bs)"

lemma enqueued_linked:
  assumes "linked bs q l" "distinct l" "b \<notin> set l" "b < length bs"
  shows "linked (enqueued b l bs) (if l = [] then Some b else q) (l @ [b])"
proof -
  let ?bs = "upd_at b (\<lambda>y. y\<lparr>qnext := None\<rparr>) bs"
  have "linked ?bs q l" by (rule linked_cong [OF assms(1)]) (use assms(3) in \<open>auto simp: upd_at_def nth_list_update\<close>)
  then have "if l = [] then linked ?bs (Some b) [b] else linked (upd_at (last l) (\<lambda>y. y\<lparr>qnext := Some b\<rparr>) ?bs) q (l @ [b])"
    by (rule linked_snoc) (use assms in \<open>auto simp: upd_at_def\<close>)
  then show ?thesis by (auto simp: enqueued_def Let_def split: if_splits)
qed

lemma enqueued_nth:
  assumes "b < length bs" "b \<notin> set l"
  shows "\<exists>n. enqueued b l bs ! b = (bs ! b)\<lparr>qnext := n\<rparr>" "length (enqueued b l bs) = length bs"
  using assms by (auto simp: enqueued_def Let_def upd_at_def nth_list_update)

lemma ide_command_qnext [simp]: "ide_command (x\<lparr>qnext := n\<rparr>) = ide_command x"
  by (simp add: ide_command_def)

lemma iderw_enqueues:
  assumes q: "quiet p s" and l: "linked (bufs s) (idequeue s) l" "distinct l" "b \<notin> set l"
    and b: "b < length (bufs s)" "blockno (bufs s ! b) < FSSIZE" "bdev (bufs s ! b) = 0 \<or> havedisk1 s"
    and f: "bflags (bufs s ! b) AND (B_VALID OR B_DIRTY) \<noteq> B_VALID"
    and h: "slocked (slk s (BufSl b))" "spid (slk s (BufSl b)) = pid (procs s ! p)" and d: "disk_ready (ide_io s)"
  shows "\<exists>t. iderw_ide (Suc k) b s = Swtch t \<and> linked (bufs t) (idequeue t) (l @ [b]) \<and> sleeping_on (BufChan b) (procs t ! p) \<and>
    outs (ide_io t) = outs (ide_io s) @ (if l = [] then ide_command (bufs s ! b) else [])"
proof -
  let ?q = "if l = [] then Some b else idequeue s"
  let ?u = "s\<lparr>cpus := crit s, bufs := enqueued b l (bufs s), idequeue := ?q\<rparr>"
  note e = enqueued_nth [OF b(1) l(3)]
  obtain n where n: "enqueued b l (bufs s) ! b = (bufs s ! b)\<lparr>qnext := n\<rparr>" using e(1) by blast
  have qu: "quiet p (s\<lparr>cpus := crit s\<rparr>)" by (rule quiet_crit [OF q])
  have "\<exists>x. (if ?q = Some b then idestart (Suc k) (Some b) else ret ()) (inlock IdeLk ?u) = Ret () (inlock IdeLk (?u\<lparr>ide_io := x\<rparr>)) \<and>
      outs x = outs (ide_io s) @ (if l = [] then ide_command (bufs s ! b) else [])"
  proof (cases "l = []")
    case True
    then show ?thesis using idestart_eq [of "inlock IdeLk ?u" b k] d b e n by auto
  next
    case False
    then have "idequeue s \<noteq> Some b" using l(1,3) by (cases l) auto
    then show ?thesis using False by (intro exI [of _ "ide_io s"]) simp
  qed
  then obtain x where x: "(if ?q = Some b then idestart (Suc k) (Some b) else ret ()) (inlock IdeLk ?u) = Ret () (inlock IdeLk (?u\<lparr>ide_io := x\<rparr>))"
    "outs x = outs (ide_io s) @ (if l = [] then ide_command (bufs s ! b) else [])" by blast
  let ?v = "?u\<lparr>ide_io := x\<rparr>"
  have qv: "quiet p ?v" using qu by simp
  obtain t where t: "sleep (BufChan b) IdeLk (inlock IdeLk ?v) = Swtch t" "sleeping_on (BufChan b) (procs t ! p)"
    "t = ?v\<lparr>cpus := cpus t, hw_if := hw_if t, spin := spin t, procs := upd_at p (\<lambda>x. x\<lparr>chan := Some (BufChan b), state := SLEEPING\<rparr>) (procs ?v)\<rparr>"
    by (rule sleep_quiet [OF qv])
  have w: "iderw_wait b (inlock IdeLk ?v) = Swtch t" using t(1) f b(1) e n by (simp add: iderw_wait_def getb_def)
  let ?a = "inlock IdeLk (s\<lparr>cpus := crit s, bufs := upd_at b (\<lambda>y. y\<lparr>qnext := None\<rparr>) (bufs s)\<rparr>)"
  have la: "linked (bufs ?a) (idequeue s) l" by (simp, rule linked_cong [OF l(1)]) (use l(3) in \<open>auto simp: upd_at_def nth_list_update\<close>)
  have ql: "queue_last (length (bufs s)) (idequeue s) None ?a = Ret (if l = [] then None else Some (last l)) ?a"
    by (rule queue_last_eq [OF la linked_length [OF l(1,2)]])
  have c: "(case if l = [] then None else Some (last l) of None \<Rightarrow> modify (\<lambda>s. s\<lparr>idequeue := Some b\<rparr>)
      | Some e \<Rightarrow> updb e (\<lambda>y. y\<lparr>qnext := Some b\<rparr>)) ?a = Ret () (inlock IdeLk ?u)"
    by (simp add: updb_def enqueued_def Let_def)
  have "iderw_ide (Suc k) b s = Swtch t"
    using b f h w x(1) ql c
    by (cases "bdev (bufs s ! b) = 0") (simp_all add: iderw_ide_def holdingsleep_eq [OF q] getb_def acquire_quiet [OF qu] updb_def)
  moreover have "bufs t = enqueued b l (bufs s)" "idequeue t = ?q" "ide_io t = x"
    using arg_cong [OF t(3), of bufs] arg_cong [OF t(3), of idequeue] arg_cong [OF t(3), of ide_io] by simp_all
  ultimately show ?thesis using t(2) x(2) enqueued_linked [OF l b(1)] by auto
qed

definition transferred :: "io_state \<Rightarrow> uint \<Rightarrow> block \<Rightarrow> block" where
  "transferred d f c = (if f AND B_DIRTY = 0 \<and> \<not> disk_error d then words_block (map (in_word d 0x1f0) [0..<128]) else c)"

definition finished :: "io_state \<Rightarrow> buf \<Rightarrow> buf" where
  "finished d x = x\<lparr>bdata := transferred d (bflags x) (bdata x), bflags := (bflags x OR B_VALID) AND NOT B_DIRTY\<rparr>"

lemma upd_at_noop [simp]: "upd_at i (\<lambda>y. y) xs = xs"
  by (simp add: upd_at_def)

lemma ide_read:
  assumes "disk_ready (ide_io s)"
  shows "\<exists>d. ideintr_read (Suc k) b x s =
      Ret () (s\<lparr>ide_io := d, bufs := upd_at b (\<lambda>y. y\<lparr>bdata := transferred (ide_io s) (bflags x) (bdata y)\<rparr>) (bufs s)\<rparr>) \<and>
     disk_ready d \<and> outs d = outs (ide_io s)"
proof -
  let ?d = "(ide_io s)\<lparr>in_port := (in_port (ide_io s))(0x1f7 := \<lambda>n. in_port (ide_io s) 0x1f7 (Suc n))\<rparr>"
  obtain e where e: "insl 0x1f0 128 ?d = Ret (map (in_word (ide_io s) 0x1f0) [0..<128]) e" "in_port e = in_port ?d" "outs e = outs ?d"
    using insl_eq [of "0x1f0" 128 ?d] by auto
  have re: "disk_ready e" using disk_ready_next [OF assms] by (simp add: disk_ready_def e(2))
  consider "bflags x AND B_DIRTY \<noteq> 0" | "bflags x AND B_DIRTY = 0" "disk_error (ide_io s)" | "bflags x AND B_DIRTY = 0" "\<not> disk_error (ide_io s)"
    by blast
  then show ?thesis
  proof cases
    case 1
    then show ?thesis using assms by (intro exI [of _ "ide_io s"]) (simp add: transferred_def ideintr_read_def)
  next
    case 2
    then show ?thesis using disk_ready_next [OF assms]
      by (intro exI [of _ ?d]) (simp add: transferred_def ideintr_read_def on_io_def idewait_ready [OF assms] del: idewait.simps)
  next
    case 3
    then show ?thesis using re e(1,3)
      by (intro exI [of _ e]) (simp add: transferred_def ideintr_read_def on_io_def idewait_ready [OF assms] updb_def del: idewait.simps insl.simps upt_Suc)
  qed
qed

lemma ideintr_dequeues:
  assumes q: "quiet p s" and l: "linked (bufs s) (idequeue s) (b # r)" "distinct (b # r)"
    and n: "\<forall>i \<in> set r. blockno (bufs s ! i) < FSSIZE" and d: "disk_ready (ide_io s)"
  shows "\<exists>t. ideintr (Suc k) s = Ret () t \<and> linked (bufs t) (idequeue t) r \<and> bufs t ! b = finished (ide_io s) (bufs s ! b) \<and>
    procs t = map (woken_proc (ticks s) (BufChan b)) (procs s) \<and>
    outs (ide_io t) = outs (ide_io s) @ (if r = [] then [] else ide_command (bufs s ! hd r))"
proof -
  let ?x = "bufs s ! b"
  let ?bs = "upd_at b (finished (ide_io s)) (bufs s)"
  have b: "b < length (bufs s)" "idequeue s = Some b" "linked (bufs s) (qnext ?x) r" "b \<notin> set r" using l by auto
  let ?a = "inlock IdeLk (s\<lparr>idequeue := qnext ?x\<rparr>)"
  have "disk_ready (ide_io ?a)" using d by simp
  then obtain y where y: "disk_ready y" "outs y = outs (ide_io s)" "ideintr_read (Suc k) b ?x ?a =
      Ret () (?a\<lparr>ide_io := y, bufs := upd_at b (\<lambda>y. y\<lparr>bdata := transferred (ide_io s) (bflags ?x) (bdata y)\<rparr>) (bufs s)\<rparr>)"
    using ide_read [of ?a k b ?x] by auto
  let ?u = "s\<lparr>idequeue := qnext ?x, ide_io := y, bufs := ?bs\<rparr>"
  have qu: "quiet p ?u" using q by simp
  obtain v where v: "wakeup (BufChan b) (inlock IdeLk ?u) = Ret () (inlock IdeLk v)" "calm p ?u v"
    "procs v = map (woken_proc (ticks ?u) (BufChan b)) (procs ?u)"
    by (rule wakeup_quiet [OF qu, of IdeLk "BufChan b"]) auto
  note cv = arg_cong [OF calmD(3) [OF v(2)]]
  have fv: "bufs v = ?bs" "idequeue v = qnext ?x" "ide_io v = y"
    using cv [of bufs] cv [of idequeue] cv [of ide_io] by simp_all
  have lv: "linked ?bs (qnext ?x) r"
    by (rule linked_cong [OF b(3)]) (use b(4) in \<open>auto simp: upd_at_def nth_list_update\<close>)
  have "\<exists>z. (if qnext ?x \<noteq> None then idestart (Suc k) (qnext ?x) else ret ()) (inlock IdeLk v) = Ret () (inlock IdeLk (v\<lparr>ide_io := z\<rparr>)) \<and>
     outs z = outs (ide_io s) @ (if r = [] then [] else ide_command (bufs s ! hd r))"
  proof (cases r)
    case Nil
    have "outs (ide_io v) = outs (ide_io s)" using y(2) fv(3) by simp
    then show ?thesis using Nil b(3) by (intro exI [of _ "ide_io v"]) simp
  next
    case (Cons c r')
    then show ?thesis using idestart_eq [of "inlock IdeLk v" c k] b(3,4) n y fv by auto
  qed
  then obtain z where z: "(if qnext ?x \<noteq> None then idestart (Suc k) (qnext ?x) else ret ()) (inlock IdeLk v) = Ret () (inlock IdeLk (v\<lparr>ide_io := z\<rparr>))"
     "outs z = outs (ide_io s) @ (if r = [] then [] else ide_command (bufs s ! hd r))" by blast
  let ?t = "v\<lparr>ide_io := z\<rparr>"
  have qt: "quiet p ?t" using calmD(1) [OF v(2)] by simp
  have bs: "upd_at b (\<lambda>y. y\<lparr>bdata := transferred (ide_io s) (bflags ?x) (bdata y), bflags := (bflags y OR B_VALID) AND NOT B_DIRTY\<rparr>) (bufs s) = ?bs"
    by (simp add: upd_at_def finished_def)
  have "ideintr (Suc k) s = Ret () (?t\<lparr>cpus := crit ?t\<rparr>)"
    using b(1,2) y(3) v(1) z(1) fv(2) bs
    by (simp add: ideintr_def acquire_quiet [OF q] getb_def updb_def release_quiet [OF qt])
  then show ?thesis using fv v(3) z(2) lv b(1) by (intro exI [of _ "?t\<lparr>cpus := crit ?t\<rparr>"]) simp
qed

text \<open>The guards of \<open>iderw\<close>, in the order of the code.\<close>

lemma iderw_refuses:
  assumes "quiet p s" "b < length (bufs s)"
  shows "\<not> (slocked (slk s (BufSl b)) \<and> spid (slk s (BufSl b)) = pid (procs s ! p)) \<Longrightarrow>
      iderw_ide k b s = Stop (Panic ''iderw: buf not locked'')"
    "slocked (slk s (BufSl b)) \<and> spid (slk s (BufSl b)) = pid (procs s ! p) \<Longrightarrow> bflags (bufs s ! b) AND (B_VALID OR B_DIRTY) = B_VALID \<Longrightarrow>
      iderw_ide k b s = Stop (Panic ''iderw: nothing to do'')"
    "slocked (slk s (BufSl b)) \<and> spid (slk s (BufSl b)) = pid (procs s ! p) \<Longrightarrow> bflags (bufs s ! b) AND (B_VALID OR B_DIRTY) \<noteq> B_VALID \<Longrightarrow>
      bdev (bufs s ! b) \<noteq> 0 \<and> \<not> havedisk1 s \<Longrightarrow> iderw_ide k b s = Stop (Panic ''iderw: ide disk 1 not present'')"
  using assms(2) by (auto simp: iderw_ide_def holdingsleep_eq [OF assms(1)] getb_def panic_def)

section \<open>Properties\<close>

text \<open>
  C10: the requests of the disk driver form a queue that is served in order. \<open>iderw\<close> panics for a buffer whose lock
  the caller does not hold, for one that is valid and clean, and for one of a disk other than 0 that was not found when
  the driver was set up. Otherwise, while the disk is ready, it puts the buffer at the end of the queue, sends its
  command to the disk when no other request is waiting, and leaves the caller
  asleep on the buffer. An interrupt finishes the request at the head: the buffer becomes valid and clean, with
  the data of the disk after a read without error, its sleepers are woken, and the command of the next request is sent.
\<close>

theorem ide_requests_in_order:
  assumes "quiet p s" "linked (bufs s) (idequeue s) l" "distinct l" "disk_ready (ide_io s)"
    "\<forall>i < length (bufs s). blockno (bufs s ! i) < FSSIZE"
  shows "(\<forall>b < length (bufs s). b \<notin> set l \<longrightarrow>
      (if \<not> (slocked (slk s (BufSl b)) \<and> spid (slk s (BufSl b)) = pid (procs s ! p))
       then iderw_ide (Suc k) b s = Stop (Panic ''iderw: buf not locked'')
       else if bflags (bufs s ! b) AND (B_VALID OR B_DIRTY) = B_VALID then iderw_ide (Suc k) b s = Stop (Panic ''iderw: nothing to do'')
       else if bdev (bufs s ! b) \<noteq> 0 \<and> \<not> havedisk1 s then iderw_ide (Suc k) b s = Stop (Panic ''iderw: ide disk 1 not present'')
       else \<exists>t. iderw_ide (Suc k) b s = Swtch t \<and> linked (bufs t) (idequeue t) (l @ [b]) \<and> sleeping_on (BufChan b) (procs t ! p) \<and>
         outs (ide_io t) = outs (ide_io s) @ (if l = [] then ide_command (bufs s ! b) else []))) \<and>
    (\<forall>b r. l = b # r \<longrightarrow>
      (\<exists>t. ideintr (Suc k) s = Ret () t \<and> linked (bufs t) (idequeue t) r \<and> bufs t ! b = finished (ide_io s) (bufs s ! b) \<and>
        procs t = map (woken_proc (ticks s) (BufChan b)) (procs s) \<and>
        outs (ide_io t) = outs (ide_io s) @ (if r = [] then [] else ide_command (bufs s ! hd r))))"
proof (intro conjI allI impI, goal_cases)
  case (1 b)
  note no = iderw_refuses [OF assms(1) 1(1), of "Suc k"]
  have yes: "slocked (slk s (BufSl b)) \<and> spid (slk s (BufSl b)) = pid (procs s ! p) \<Longrightarrow> bflags (bufs s ! b) AND (B_VALID OR B_DIRTY) \<noteq> B_VALID \<Longrightarrow>
      \<not> (bdev (bufs s ! b) \<noteq> 0 \<and> \<not> havedisk1 s) \<Longrightarrow>
      \<exists>t. iderw_ide (Suc k) b s = Swtch t \<and> linked (bufs t) (idequeue t) (l @ [b]) \<and> sleeping_on (BufChan b) (procs t ! p) \<and>
         outs (ide_io t) = outs (ide_io s) @ (if l = [] then ide_command (bufs s ! b) else [])"
    by (rule iderw_enqueues [OF assms(1-3)]) (use 1 assms(4,5) in auto)
  show ?case unfolding if_bool_eq_conj not_not by (intro conjI impI no yes) (assumption | simp)+
next
  case (2 b r)
  have "\<forall>i \<in> set r. blockno (bufs s ! i) < FSSIZE" using 2 assms(5) linked_range [OF assms(2)] by auto
  then show ?case using ideintr_dequeues [OF assms(1), of b r k] assms(2-4) 2 by blast
qed

text \<open>A request for the file system's disk, disk 1, while another one is waiting, and the end of that one.\<close>

definition ex_ide :: ide_state where
  "ex_ide = bio_state.extend (ex_bio\<lparr>bufs := [(ex_buf (Some 1) None)\<lparr>bdev := 1\<rparr>, (ex_buf None (Some 0))\<lparr>bdev := 1\<rparr>],
       slk := \<lambda>_. \<lparr>slocked = True, slname = [], spid = 1\<rparr>\<rparr>)
     \<lparr>idequeue = Some 1, havedisk1 = True, ide_io = ex_io\<lparr>in_port := \<lambda>_ _. 0x40\<rparr>\<rparr>"

lemma ex_ide_quiet: "quiet 0 ex_ide"
  using ex_bio_quiet by (simp add: quiet_def ex_ide_def bio_state.defs)

theorem ide_requests_in_order_witness:
  "(\<exists>t. iderw_ide 1 0 ex_ide = Swtch t \<and> linked (bufs t) (idequeue t) [1, 0]) \<and>
   (\<exists>t. ideintr 1 ex_ide = Ret () t \<and> linked (bufs t) (idequeue t) [] \<and> bflags (bufs t ! 1) = B_VALID)"
proof -
  have f: "bufs ex_ide = [(ex_buf (Some 1) None)\<lparr>bdev := 1\<rparr>, (ex_buf None (Some 0))\<lparr>bdev := 1\<rparr>]"
    "slk ex_ide = (\<lambda>_. \<lparr>slocked = True, slname = [], spid = 1\<rparr>)" "havedisk1 ex_ide"
    "pid (procs ex_ide ! 0) = 1" "idequeue ex_ide = Some 1" "ide_io ex_ide = ex_io\<lparr>in_port := \<lambda>_ _. 0x40\<rparr>"
    by (simp_all add: ex_ide_def bio_state.defs ex_bio_def sl_state.defs ex_sl_def pstate.defs ex_run_def ex_pstate_def ex_proc_def)
  have "linked (bufs ex_ide) (idequeue ex_ide) [1]" "disk_ready (ide_io ex_ide)" "\<forall>i < length (bufs ex_ide). blockno (bufs ex_ide ! i) < FSSIZE"
    by (simp_all add: f ex_buf_def disk_ready_def less_Suc_eq)
  note h = ide_requests_in_order [OF ex_ide_quiet this(1) _ this(2,3), of 0]
  have "\<exists>t. iderw_ide 1 0 ex_ide = Swtch t \<and> linked (bufs t) (idequeue t) [1, 0]"
    using conjunct1 [OF h, THEN spec, of 0] by (auto simp: f ex_buf_def)
  moreover have "\<exists>t. ideintr 1 ex_ide = Ret () t \<and> linked (bufs t) (idequeue t) [] \<and> bflags (bufs t ! 1) = B_VALID"
    using conjunct2 [OF h] by (auto simp: f ex_buf_def finished_def)
  ultimately show ?thesis ..
qed

end
