(* ===== verification/Userland.thy ===== *)
theory Userland
  imports Digits Memory Split
begin

text \<open>
  User programs and their library. A program sees the kernel only through system calls; these are the fields
  of the record \<open>os\<close>, an argument of every program, over an arbitrary state of the outside world. A call of
  \<open>exit\<close> ends the program: it is the result \<open>False\<close> of a routine that otherwise returns \<open>True\<close>.

  Strings are lists of bytes without the NUL, as in \<open>Fs\<close>; buffers that may hold a NUL are cut there, which
  \<open>cstr\<close> does. A loop that reads until the end of a file has a bound \<open>k\<close> on its turns.
  The counters of \<open>wc\<close> are unbounded, where the \<open>int\<close> variables of \<open>wc.c\<close> overflow at \<open>2^31\<close>.
\<close>

section \<open>System calls\<close>

record ustat =
  us_type :: int
  us_ino :: int
  us_size :: int

record 'w os =
  u_read :: "int \<Rightarrow> nat \<Rightarrow> ('w, int \<times> byte list) kfun"
  u_write :: "int \<Rightarrow> byte list \<Rightarrow> ('w, int) kfun"
  u_open :: "byte list \<Rightarrow> uint \<Rightarrow> ('w, int) kfun"
  u_close :: "int \<Rightarrow> ('w, int) kfun"
  u_fstat :: "int \<Rightarrow> ('w, ustat option) kfun"
  u_kill :: "int \<Rightarrow> ('w, int) kfun"
  u_link :: "byte list \<Rightarrow> byte list \<Rightarrow> ('w, int) kfun"
  u_mkdir :: "byte list \<Rightarrow> ('w, int) kfun"
  u_unlink :: "byte list \<Rightarrow> ('w, int) kfun"
  u_getps :: "('w, int) kfun"

definition lit :: "string \<Rightarrow> byte list" where
  "lit cs = map of_char cs"

abbreviation NL :: string where "NL \<equiv> [CHR 0x0A]"

definition cstr :: "byte list \<Rightarrow> byte list" where
  "cstr xs = takeWhile (\<lambda>b. b \<noteq> 0) xs"

section \<open>ulib.c\<close>

text \<open>\<open>strcpy\<close> and \<open>memmove\<close> on the memory of the process; \<open>strcpy\<close> runs until it has copied a NUL.\<close>

partial_function (option) strcpy :: "mem \<Rightarrow> uint \<Rightarrow> uint \<Rightarrow> mem option" where
  "strcpy m s t = (let m' = m(s := m t) in if m t \<noteq> 0 then strcpy m' (s + 1) (t + 1) else Some m')"

partial_function (option) strcmp :: "mem \<Rightarrow> uint \<Rightarrow> uint \<Rightarrow> int option" where
  "strcmp m p q =
     (if m p \<noteq> 0 \<and> m p = m q then strcmp m (p + 1) (q + 1) else Some (uint (m p) - uint (m q)))"

definition umemset :: "mem \<Rightarrow> uint \<Rightarrow> byte \<Rightarrow> nat \<Rightarrow> mem" where
  "umemset m dst c n = stosb m dst c n"

definition umemmove :: "mem \<Rightarrow> uint \<Rightarrow> uint \<Rightarrow> int \<Rightarrow> mem" where
  "umemmove m dst src n = copy_up m dst src (nat n)"

text \<open>\<open>strchr\<close> on a list: the index of the first occurrence, if it comes before any NUL.\<close>

definition strchr :: "byte list \<Rightarrow> byte \<Rightarrow> nat option" where
  "strchr s c = find_idx (\<lambda>b. b = c) (cstr s)"

fun gets_loop :: "('w, 'x) os_scheme \<Rightarrow> nat \<Rightarrow> ('w, byte list) kfun" where
  "gets_loop sys 0 = ret []"
| "gets_loop sys (Suc n) =
     mbind (u_read sys 0 1) (\<lambda>(cc, bs).
     if cc < 1 then ret [] else
     let c = hd bs in
     if c = 10 \<or> c = 13 then ret [c] else
     mbind (gets_loop sys n) (\<lambda>rest. ret (c # rest)))"

definition ugets :: "('w, 'x) os_scheme \<Rightarrow> int \<Rightarrow> ('w, byte list) kfun" where
  "ugets sys m = gets_loop sys (nat (m - 1))"

definition ustat_of :: "('w, 'x) os_scheme \<Rightarrow> byte list \<Rightarrow> ('w, ustat option) kfun" where
  "ustat_of sys name =
     mbind (u_open sys name 0) (\<lambda>fd.
     if fd < 0 then ret None else
     mbind (u_fstat sys fd) (\<lambda>r.
     mbind (u_close sys fd) (\<lambda>_.
     ret r)))"

section \<open>printf.c\<close>

datatype uarg = UNum uint | UStr "byte list"

definition putc :: "('w, 'x) os_scheme \<Rightarrow> int \<Rightarrow> byte \<Rightarrow> ('w, unit) kfun" where
  "putc sys fd c = mbind (u_write sys fd [c]) (\<lambda>_. ret ())"

text \<open>
  The characters \<open>printf\<close> prints, as a function of its format and arguments; \<open>None\<close> when an argument is
  missing or of the wrong kind. \<open>pct\<close> is the variable \<open>state\<close>: whether the last character was a percent sign.
\<close>

fun format :: "bool \<Rightarrow> byte list \<Rightarrow> uarg list \<Rightarrow> byte list option" where
  "format pct [] args = Some []"
| "format False (c # fmt) args =
     (if c = 37 then format True fmt args else map_option (\<lambda>r. c # r) (format False fmt args))"
| "format True (c # fmt) args =
     (if c = 100 then
        (case args of UNum n # as \<Rightarrow> map_option (\<lambda>r. printint_chars digits_upper n 10 True @ r) (format False fmt as)
                    | _ \<Rightarrow> None)
      else if c = 120 \<or> c = 112 then
        (case args of UNum n # as \<Rightarrow> map_option (\<lambda>r. printint_chars digits_upper n 16 False @ r) (format False fmt as)
                    | _ \<Rightarrow> None)
      else if c = 115 then
        (case args of UStr t # as \<Rightarrow> map_option (\<lambda>r. t @ r) (format False fmt as)
                    | UNum n # as \<Rightarrow> if n = 0 then map_option (\<lambda>r. lit ''(null)'' @ r) (format False fmt as) else None
                    | [] \<Rightarrow> None)
      else if c = 99 then
        (case args of UNum n # as \<Rightarrow> map_option (\<lambda>r. ucast n # r) (format False fmt as) | _ \<Rightarrow> None)
      else if c = 37 then map_option (\<lambda>r. c # r) (format False fmt args)
      else map_option (\<lambda>r. 37 # c # r) (format False fmt args))"

definition printf :: "('w, 'x) os_scheme \<Rightarrow> int \<Rightarrow> string \<Rightarrow> uarg list \<Rightarrow> ('w, unit) kfun" where
  "printf sys fd fmt args =
     (case format False (lit fmt) args of
        None \<Rightarrow> undef ''printf argument''
      | Some cs \<Rightarrow> mforeach cs (putc sys fd))"

section \<open>Programs\<close>

text \<open>Opening each file named on the command line in turn, in \<open>cat\<close>, \<open>wc\<close> and \<open>grep\<close>.\<close>

fun each_file :: "('w, 'x) os_scheme \<Rightarrow> string \<Rightarrow> (int \<Rightarrow> byte list \<Rightarrow> ('w, bool) kfun) \<Rightarrow> byte list list \<Rightarrow> ('w, unit) kfun" where
  "each_file sys msg body [] = ret ()"
| "each_file sys msg body (a # as) =
     mbind (u_open sys a 0) (\<lambda>fd.
     if fd < 0 then printf sys 1 msg [UStr a] else
     mbind (body fd a) (\<lambda>ok.
     if \<not> ok then ret () else
     mbind (u_close sys fd) (\<lambda>_.
     each_file sys msg body as)))"

fun cat :: "('w, 'x) os_scheme \<Rightarrow> nat \<Rightarrow> int \<Rightarrow> ('w, bool) kfun" where
  "cat sys 0 fd = stuck"
| "cat sys (Suc k) fd =
     mbind (u_read sys fd 512) (\<lambda>(n, bs).
     if n > 0 then
       mbind (u_write sys 1 bs) (\<lambda>w.
       if w \<noteq> n then mbind (printf sys 1 (''cat: write error'' @ NL) []) (\<lambda>_. ret False)
       else cat sys k fd)
     else if n < 0 then mbind (printf sys 1 (''cat: read error'' @ NL) []) (\<lambda>_. ret False)
     else ret True)"

definition cat_main :: "('w, 'x) os_scheme \<Rightarrow> nat \<Rightarrow> byte list list \<Rightarrow> ('w, unit) kfun" where
  "cat_main sys k argv =
     (if length argv \<le> 1 then mbind (cat sys k 0) (\<lambda>_. ret ())
      else each_file sys (''cat: cannot open %s'' @ NL) (\<lambda>fd _. cat sys k fd) (tl argv))"

text \<open>The body of the loop of \<open>wc\<close> for one character, with the counters \<open>l\<close>, \<open>w\<close>, \<open>c\<close> and the flag \<open>inword\<close>.\<close>

definition wc_space :: "byte \<Rightarrow> bool" where
  "wc_space b \<longleftrightarrow> b \<in> {32, 13, 9, 10, 11}"

definition wc_step :: "int \<times> int \<times> int \<times> bool \<Rightarrow> byte \<Rightarrow> int \<times> int \<times> int \<times> bool" where
  "wc_step = (\<lambda>(l, w, c, inword) b.
     let c = c + 1; l = (if b = 10 then l + 1 else l) in
     if wc_space b then (l, w, c, False)
     else if \<not> inword then (l, w + 1, c, True)
     else (l, w, c, inword))"

fun wc_loop :: "('w, 'x) os_scheme \<Rightarrow> nat \<Rightarrow> int \<Rightarrow> int \<times> int \<times> int \<times> bool \<Rightarrow> ('w, (int \<times> int \<times> int) option) kfun" where
  "wc_loop sys 0 fd st = stuck"
| "wc_loop sys (Suc k) fd st =
     mbind (u_read sys fd 512) (\<lambda>(n, bs).
     if n > 0 then wc_loop sys k fd (foldl wc_step st bs)
     else if n < 0 then ret None
     else ret (Some (fst st, fst (snd st), fst (snd (snd st)))))"

definition wc :: "('w, 'x) os_scheme \<Rightarrow> nat \<Rightarrow> int \<Rightarrow> byte list \<Rightarrow> ('w, bool) kfun" where
  "wc sys k fd name =
     mbind (wc_loop sys k fd (0, 0, 0, False)) (\<lambda>r. case r of
       None \<Rightarrow> mbind (printf sys 1 (''wc: read error'' @ NL) []) (\<lambda>_. ret False)
     | Some (l, w, c) \<Rightarrow>
         mbind (printf sys 1 (''%d %d %d %s'' @ NL) [UNum (word_of_int l), UNum (word_of_int w), UNum (word_of_int c), UStr name]) (\<lambda>_.
         ret True))"

definition wc_main :: "('w, 'x) os_scheme \<Rightarrow> nat \<Rightarrow> byte list list \<Rightarrow> ('w, unit) kfun" where
  "wc_main sys k argv =
     (if length argv \<le> 1 then mbind (wc sys k 0 []) (\<lambda>_. ret ())
      else each_file sys (''wc: cannot open %s'' @ NL) (wc sys k) (tl argv))"

definition echo_main :: "('w, 'x) os_scheme \<Rightarrow> byte list list \<Rightarrow> ('w, unit) kfun" where
  "echo_main sys argv =
     mforeach [1..<length argv] (\<lambda>i.
       printf sys 1 ''%s%s'' [UStr (argv ! i), UStr (if i + 1 < length argv then [32] else [10])])"

definition kill_main :: "('w, 'x) os_scheme \<Rightarrow> byte list list \<Rightarrow> ('w, unit) kfun" where
  "kill_main sys argv =
     (if length argv < 2 then printf sys 2 (''usage: kill pid...'' @ NL) []
      else mforeach (tl argv) (\<lambda>a. case atoi a of
             None \<Rightarrow> undef ''int overflow''
           | Some n \<Rightarrow> mbind (u_kill sys n) (\<lambda>_. ret ())))"

definition ln_main :: "('w, 'x) os_scheme \<Rightarrow> byte list list \<Rightarrow> ('w, unit) kfun" where
  "ln_main sys argv =
     (if length argv \<noteq> 3 then printf sys 2 (''Usage: ln old new'' @ NL) []
      else mbind (u_link sys (argv ! 1) (argv ! 2)) (\<lambda>r.
           if r < 0 then printf sys 2 (''link %s %s: failed'' @ NL) [UStr (argv ! 1), UStr (argv ! 2)] else ret ()))"

text \<open>The loop of \<open>mkdir\<close> and \<open>rm\<close>: it stops at the first failure.\<close>

fun until_fail :: "('w, 'x) os_scheme \<Rightarrow> (byte list \<Rightarrow> ('w, int) kfun) \<Rightarrow> string \<Rightarrow> byte list list \<Rightarrow> ('w, unit) kfun" where
  "until_fail sys call msg [] = ret ()"
| "until_fail sys call msg (a # as) =
     mbind (call a) (\<lambda>r.
     if r < 0 then printf sys 2 msg [UStr a] else until_fail sys call msg as)"

definition mkdir_main :: "('w, 'x) os_scheme \<Rightarrow> byte list list \<Rightarrow> ('w, unit) kfun" where
  "mkdir_main sys argv =
     (if length argv < 2 then printf sys 2 (''Usage: mkdir files...'' @ NL) []
      else until_fail sys (u_mkdir sys) (''mkdir: %s failed to create'' @ NL) (tl argv))"

definition rm_main :: "('w, 'x) os_scheme \<Rightarrow> byte list list \<Rightarrow> ('w, unit) kfun" where
  "rm_main sys argv =
     (if length argv < 2 then printf sys 2 (''Usage: rm files...'' @ NL) []
      else until_fail sys (u_unlink sys) (''rm: %s failed to delete'' @ NL) (tl argv))"

definition ps_main :: "('w, 'x) os_scheme \<Rightarrow> byte list list \<Rightarrow> ('w, unit) kfun" where
  "ps_main sys argv =
     (if length argv = 1 then mbind (u_getps sys) (\<lambda>_. ret ())
      else if length argv > 1 then printf sys 1 (''ERROR : ps : too many arguments'' @ NL) []
      else printf sys 1 (''ERROR : ps : too less arguments'' @ NL) [])"

section \<open>ls\<close>

text \<open>\<open>fmtname\<close>: what follows the last slash, padded with blanks to \<open>DIRSIZ\<close> characters.\<close>

definition fmtname :: "byte list \<Rightarrow> byte list" where
  "fmtname path =
     (let p = rev (takeWhile (\<lambda>c. c \<noteq> 47) (rev path)) in
      if length p \<ge> 14 then p else p @ replicate (14 - length p) 32)"

definition ls_line :: "('w, 'x) os_scheme \<Rightarrow> byte list \<Rightarrow> ustat \<Rightarrow> ('w, unit) kfun" where
  "ls_line sys path st =
     printf sys 1 (''%s %d %d %d'' @ NL) [UStr (fmtname path), UNum (word_of_int (us_type st)),
       UNum (word_of_int (us_ino st)), UNum (word_of_int (us_size st))]"

fun ls_dir :: "('w, 'x) os_scheme \<Rightarrow> nat \<Rightarrow> int \<Rightarrow> byte list \<Rightarrow> ('w, unit) kfun" where
  "ls_dir sys 0 fd buf = stuck"
| "ls_dir sys (Suc k) fd buf =
     mbind (u_read sys fd 16) (\<lambda>(n, de).
     if n \<noteq> 16 then ret ()
     else if de ! 0 = 0 \<and> de ! 1 = 0 then ls_dir sys k fd buf
     else
       let name = buf @ cstr (drop 2 de) in
       mbind (ustat_of sys name) (\<lambda>r.
       mbind (case r of
                None \<Rightarrow> printf sys 1 (''ls: cannot stat %s'' @ NL) [UStr name]
              | Some st \<Rightarrow> ls_line sys name st) (\<lambda>_.
       ls_dir sys k fd buf)))"

definition ls :: "('w, 'x) os_scheme \<Rightarrow> nat \<Rightarrow> byte list \<Rightarrow> ('w, unit) kfun" where
  "ls sys k path =
     mbind (u_open sys path 0) (\<lambda>fd.
     if fd < 0 then printf sys 2 (''ls: cannot open %s'' @ NL) [UStr path] else
     mbind (u_fstat sys fd) (\<lambda>r. case r of
       None \<Rightarrow>
         mbind (printf sys 2 (''ls: cannot stat %s'' @ NL) [UStr path]) (\<lambda>_.
         mbind (u_close sys fd) (\<lambda>_.
         ret ()))
     | Some st \<Rightarrow>
         mbind (if us_type st = 2 then ls_line sys path st
                else if us_type st = 1 then
                  (if length path + 1 + 14 + 1 > 512 then printf sys 1 (''ls: path too long'' @ NL) []
                   else ls_dir sys k fd (path @ [47]))
                else ret ()) (\<lambda>_.
         mbind (u_close sys fd) (\<lambda>_.
         ret ()))))"

definition ls_main :: "('w, 'x) os_scheme \<Rightarrow> nat \<Rightarrow> byte list list \<Rightarrow> ('w, unit) kfun" where
  "ls_main sys k argv = (if length argv < 2 then ls sys k [46] else mforeach (tl argv) (ls sys k))"

section \<open>What wc counts\<close>

text \<open>
  \<open>delivers sys fd w k bs w'\<close>: from the state \<open>w\<close> of the world on, reading the descriptor \<open>fd\<close> gives the bytes \<open>bs\<close>, in
  pieces of any sizes, and then the end of the file, with the \<open>k\<close>-th call.
\<close>

inductive delivers :: "('w, 'x) os_scheme \<Rightarrow> int \<Rightarrow> 'w \<Rightarrow> nat \<Rightarrow> byte list \<Rightarrow> 'w \<Rightarrow> bool"
  for sys :: "('w, 'x) os_scheme" and fd :: int where
  eof: "u_read sys fd 512 w = Ret (0, []) w' \<Longrightarrow> delivers sys fd w (Suc 0) [] w'"
| piece: "u_read sys fd 512 w = Ret (int (length c), c) v \<Longrightarrow> c \<noteq> [] \<Longrightarrow> delivers sys fd v k bs w' \<Longrightarrow>
    delivers sys fd w (Suc k) (c @ bs) w'"

definition starts :: "byte list \<Rightarrow> bool" where
  "starts bs \<longleftrightarrow> bs \<noteq> [] \<and> \<not> wc_space (hd bs)"

lemma wc_fold:
  "foldl wc_step (l, w, c, inword) bs =
     (l + int (count_list bs 10), w + int (length (parts wc_space bs)) - (if inword \<and> starts bs then 1 else 0),
      c + int (length bs), if bs = [] then inword else \<not> wc_space (last bs))"
proof (induction bs arbitrary: l w c inword)
  case (Cons b bs)
  have "wc_space 10" by (simp add: wc_space_def)
  moreover have "bs = [] \<or> starts bs \<or> wc_space (hd bs)" by (auto simp: starts_def)
  ultimately show ?case using Cons.IH
    by (auto simp: wc_step_def Let_def length_parts starts_def)
qed (simp add: starts_def)

lemma wc_loop_eq:
  assumes "delivers sys fd w k bs w'"
  shows "wc_loop sys k fd st w = Ret (case foldl wc_step st bs of (l, n, c, _) \<Rightarrow> Some (l, n, c)) w'"
  using assms
proof (induction arbitrary: st rule: delivers.induct)
  case (eof w w')
  then show ?case by (simp add: split_beta)
next
  case (piece w c v k bs w')
  then show ?case by simp
qed

text \<open>
  C39: \<open>wc\<close> counts correctly, however the file is cut into pieces by \<open>read\<close>. If reading the descriptor gives the
  bytes \<open>bs\<close> and then the end of the file, the loop ends, and its counters are the number of newlines, of words
  and of bytes; a word is a non-empty part between white space, also when it lies across two pieces.
\<close>

theorem wc_counts:
  assumes "delivers sys fd w k bs w'"
  shows "wc_loop sys k fd (0, 0, 0, False) w =
    Ret (Some (int (count_list bs 10), int (length (parts wc_space bs)), int (length bs))) w'"
  using wc_loop_eq [OF assms, of "(0, 0, 0, False)"] by (simp add: wc_fold)

text \<open>A world that is the list of the pieces to come.\<close>

definition ex_os :: "byte list list os" where
  "ex_os = \<lparr>u_read = (\<lambda>_ _ w. case w of [] \<Rightarrow> Ret (0, []) [] | c # cs \<Rightarrow> Ret (int (length c), c) cs),
     u_write = (\<lambda>_ bs. ret (int (length bs))), u_open = (\<lambda>_ _. ret 3), u_close = (\<lambda>_. ret 0), u_fstat = (\<lambda>_. ret None),
     u_kill = (\<lambda>_. ret 0), u_link = (\<lambda>_ _. ret 0), u_mkdir = (\<lambda>_. ret 0), u_unlink = (\<lambda>_. ret 0), u_getps = ret 0\<rparr>"

theorem wc_counts_witness: "wc_loop ex_os 3 0 (0, 0, 0, False) [lit ''to b'', lit ''e or'' @ [10]] = Ret (Some (1, 3, 9)) []"
proof -
  have "delivers ex_os 0 [lit ''to b'', lit ''e or'' @ [10]] (Suc (Suc (Suc 0))) (lit ''to b'' @ (lit ''e or'' @ [10]) @ []) []"
    by (rule delivers.intros | simp add: ex_os_def lit_def)+
  note wc_counts [OF this]
  moreover have "count_list (lit ''to b'' @ (lit ''e or'' @ [10]) @ []) 10 = 1"
    "length (parts wc_space (lit ''to b'' @ (lit ''e or'' @ [10]) @ [])) = 3" by code_simp+
  ultimately show ?thesis by (simp add: numeral_3_eq_3 lit_def)
qed

end
