(* ===== verification/Grep.thy ===== *)
theory Grep
  imports Userland
begin

text \<open>
  Model of \<open>grep.c\<close>: a matcher for regular expressions with the operators \<open>^ . * $\<close>, and the loop that applies
  it to the lines of a file. The matcher is proved equal to a set-theoretic meaning of the expressions.
\<close>

section \<open>The matcher\<close>

function matchhere :: "byte list \<Rightarrow> byte list \<Rightarrow> bool"
  and matchstar :: "byte \<Rightarrow> byte list \<Rightarrow> byte list \<Rightarrow> bool" where
  "matchhere re text =
     (case re of
        [] \<Rightarrow> True
      | c # re' \<Rightarrow>
          if re' \<noteq> [] \<and> hd re' = 42 then matchstar c (tl re') text
          else if c = 36 \<and> re' = [] then text = []
          else (case text of [] \<Rightarrow> False | b # text' \<Rightarrow> (c = 46 \<or> c = b) \<and> matchhere re' text'))"
| "matchstar c re text =
     (if matchhere re text then True
      else case text of [] \<Rightarrow> False | b # text' \<Rightarrow> (b = c \<or> c = 46) \<and> matchstar c re text')"
  by pat_completeness auto
termination
proof (relation "measures [case_sum (\<lambda>(re, text). length re + length text) (\<lambda>(c, re, text). length re + length text),
    case_sum (\<lambda>_. 0) (\<lambda>_. 1)]", goal_cases)
  case (2 re tx c re')
  then show ?case by (cases re') auto
qed auto

declare matchhere.simps [simp del] matchstar.simps [simp del]

fun match_any :: "byte list \<Rightarrow> byte list \<Rightarrow> bool" where
  "match_any re text =
     (if matchhere re text then True else case text of [] \<Rightarrow> False | _ # text' \<Rightarrow> match_any re text')"

declare match_any.simps [simp del]

definition match :: "byte list \<Rightarrow> byte list \<Rightarrow> bool" where
  "match re text = (if re \<noteq> [] \<and> hd re = 94 then matchhere (tl re) text else match_any re text)"

section \<open>What an expression means\<close>

text \<open>
  An expression is a sequence of items: a character, or a character with a star. \<open>lang\<close> is the set of the
  strings the items describe; \<open>ends_dollar\<close> tells whether the expression ends in a dollar sign of its own.
\<close>

datatype item = One byte | Many byte

definition sat :: "byte \<Rightarrow> byte \<Rightarrow> bool" where
  "sat c b \<longleftrightarrow> c = 46 \<or> c = b"

fun items :: "byte list \<Rightarrow> item list" where
  "items [] = []"
| "items [c] = (if c = 36 then [] else [One c])"
| "items (c # d # re) = (if d = 42 then Many c # items re else One c # items (d # re))"

fun ends_dollar :: "byte list \<Rightarrow> bool" where
  "ends_dollar [] \<longleftrightarrow> False"
| "ends_dollar [c] \<longleftrightarrow> c = 36"
| "ends_dollar (c # d # re) \<longleftrightarrow> (if d = 42 then ends_dollar re else ends_dollar (d # re))"

fun lang :: "item list \<Rightarrow> byte list set" where
  "lang [] = {[]}"
| "lang (One c # is) = {b # w | b w. sat c b \<and> w \<in> lang is}"
| "lang (Many c # is) = {u @ w | u w. list_all (sat c) u \<and> w \<in> lang is}"

text \<open>A prefix of the text is in the language; it is the whole text if a dollar sign asks for that.\<close>

definition prefix_in :: "byte list \<Rightarrow> byte list \<Rightarrow> bool" where
  "prefix_in re tx \<longleftrightarrow>
     (\<exists>mid post. tx = mid @ post \<and> mid \<in> lang (items re) \<and> (if ends_dollar re then post = [] else True))"

lemma prefix_in_Nil [simp]: "prefix_in [] tx"
  by (simp add: prefix_in_def)

lemma prefix_in_end [simp]: "prefix_in [36] tx \<longleftrightarrow> tx = []"
  by (simp add: prefix_in_def)

lemma split_one:
  "(\<exists>mid post. tx = mid @ post \<and> mid \<in> {b # w | b w. P b \<and> w \<in> L} \<and> Q post) \<longleftrightarrow>
     (\<exists>b tx'. tx = b # tx' \<and> P b \<and> (\<exists>mid post. tx' = mid @ post \<and> mid \<in> L \<and> Q post))"
  by (cases tx) (auto simp: Cons_eq_append_conv)

lemma split_many:
  "(\<exists>mid post. tx = mid @ post \<and> mid \<in> {u @ w | u w. P u \<and> w \<in> L} \<and> Q post) \<longleftrightarrow>
     (\<exists>u tx'. tx = u @ tx' \<and> P u \<and> (\<exists>mid post. tx' = mid @ post \<and> mid \<in> L \<and> Q post))"
  (is "?L \<longleftrightarrow> ?R")
proof
  assume ?L
  then obtain u w post where "tx = (u @ w) @ post" "P u" "w \<in> L" "Q post" by blast
  then show ?R by (intro exI [of _ u] exI [of _ "w @ post"]) auto
next
  assume ?R
  then obtain u w post where "tx = (u @ w) @ post" "P u" "w \<in> L" "Q post" by auto
  then show ?L by blast
qed

lemma prefix_in_one:
  assumes "c \<noteq> 36 \<or> re \<noteq> []" "re = [] \<or> hd re \<noteq> 42"
  shows "prefix_in (c # re) tx \<longleftrightarrow> (\<exists>b tx'. tx = b # tx' \<and> sat c b \<and> prefix_in re tx')"
proof -
  have "items (c # re) = One c # items re" "ends_dollar (c # re) = ends_dollar re"
    using assms by (cases re; simp)+
  then show ?thesis by (simp only: prefix_in_def lang.simps split_one)
qed

lemma prefix_in_many:
  "prefix_in (c # 42 # re) tx \<longleftrightarrow> (\<exists>u tx'. tx = u @ tx' \<and> list_all (sat c) u \<and> prefix_in re tx')"
  by (simp only: prefix_in_def items.simps ends_dollar.simps lang.simps split_many refl if_True)

lemma many_unfold:
  "(\<exists>u tx'. tx = u @ tx' \<and> list_all (sat c) u \<and> P tx') \<longleftrightarrow>
     P tx \<or> (\<exists>b tx'. tx = b # tx' \<and> sat c b \<and> (\<exists>u t. tx' = u @ t \<and> list_all (sat c) u \<and> P t))"
  (is "?L \<longleftrightarrow> ?R")
proof
  assume ?L
  then obtain u t where "tx = u @ t" "list_all (sat c) u" "P t" by blast
  then show ?R by (cases u) auto
next
  assume ?R
  then consider "P tx" | b u t where "tx = (b # u) @ t" "list_all (sat c) (b # u)" "P t" by auto
  then show ?L
  proof cases
    case 1
    then have "tx = [] @ tx \<and> list_all (sat c) [] \<and> P tx" by simp
    then show ?L by blast
  qed blast
qed

lemma matchhere_meaning:
  "matchhere re tx = prefix_in re tx"
  "matchstar c re tx = (\<exists>u tx'. tx = u @ tx' \<and> list_all (sat c) u \<and> prefix_in re tx')"
proof (induction re tx and c re tx rule: matchhere_matchstar.induct)
  case (1 re tx)
  show ?case
  proof (cases re)
    case (Cons c re')
    consider (star) r where "re' = 42 # r" | (dollar) "c = 36" "re' = []"
      | (char) "c \<noteq> 36 \<or> re' \<noteq> []" "re' = [] \<or> hd re' \<noteq> 42" by (cases re') auto
    then show ?thesis
    proof cases
      case star
      then show ?thesis
        using 1(1) [OF Cons] Cons by (subst matchhere.simps) (simp add: prefix_in_many)
    next
      case dollar
      then show ?thesis using Cons by (subst matchhere.simps) simp
    next
      case char
      then show ?thesis using 1(2) [OF Cons] Cons
        by (subst matchhere.simps) (auto simp: prefix_in_one sat_def split: list.split)
    qed
  qed (simp add: matchhere.simps)
next
  case (2 c re tx)
  have fold: "(b = c \<or> c = 46) = sat c b" for b by (auto simp: sat_def)
  show ?case
  proof (cases tx)
    case (Cons b tx')
    then show ?thesis using 2
      by (subst matchstar.simps, subst many_unfold) (auto simp: fold)
  qed (use 2 in \<open>auto simp: matchstar.simps\<close>)
qed

lemma match_any_meaning: "match_any re tx \<longleftrightarrow> (\<exists>pre tx'. tx = pre @ tx' \<and> prefix_in re tx')"
proof (induction tx)
  case Nil
  then show ?case by (simp add: match_any.simps matchhere_meaning)
next
  case (Cons b tx)
  show ?case
    by (subst match_any.simps) (auto simp: matchhere_meaning Cons.IH Cons_eq_append_conv)
qed

text \<open>
  C19: the matcher of \<open>grep\<close> decides the language of the expression. A text matches if some part \<open>mid\<close> of it is
  in the language of the items; with a leading caret the part starts the text, with a closing dollar sign it
  ends it. The recursion of \<open>matchhere\<close> and \<open>matchstar\<close> finds such a part whenever there is one.
\<close>

theorem match_decides_language:
  "match re tx \<longleftrightarrow>
     (let anchored = re \<noteq> [] \<and> hd re = 94; body = (if anchored then tl re else re) in
      \<exists>pre mid post. tx = pre @ mid @ post \<and> mid \<in> lang (items body) \<and>
        (if anchored then pre = [] else True) \<and> (if ends_dollar body then post = [] else True))"
  by (auto simp: match_def matchhere_meaning match_any_meaning prefix_in_def Let_def)

theorem match_decides_language_witness:
  "match (lit ''^ab*.$'') (lit ''abbc'') \<and> \<not> match (lit ''b$'') (lit ''abbc'') \<and>
   (\<exists>pre mid post. lit ''abbc'' = pre @ mid @ post \<and> mid \<in> lang (items (lit ''ab*.$'')) \<and> pre = [] \<and> post = [])"
proof -
  have "match (lit ''^ab*.$'') (lit ''abbc'')" "\<not> match (lit ''b$'') (lit ''abbc'')" by code_simp+
  then show ?thesis using match_decides_language [of "lit ''^ab*.$''" "lit ''abbc''"] by (simp add: lit_def)
qed

section \<open>Applying it to a file\<close>

text \<open>
  One turn of the outer loop on the contents of \<open>buf\<close>: \<open>grep_lines\<close> returns the lines it writes and what
  follows the last newline. \<open>n\<close> bounds the number of lines, and the length of the buffer is enough.
\<close>

fun grep_lines :: "nat \<Rightarrow> byte list \<Rightarrow> byte list \<Rightarrow> byte list list \<times> byte list" where
  "grep_lines 0 pattern p = ([], p)"
| "grep_lines (Suc n) pattern p =
     (case strchr p 10 of
        None \<Rightarrow> ([], p)
      | Some q \<Rightarrow>
          let (out, rest) = grep_lines n pattern (drop (q + 1) p) in
          ((if match pattern (take q p) then [take (q + 1) p] else []) @ out, rest))"

text \<open>What stays in the buffer: nothing when it had no complete line, otherwise what follows the last one.\<close>

definition grep_keep :: "byte list \<Rightarrow> byte list \<Rightarrow> byte list" where
  "grep_keep buf rest = (if length rest = length buf then [] else rest)"

definition grep_turn :: "byte list \<Rightarrow> byte list \<Rightarrow> byte list list \<times> byte list" where
  "grep_turn pattern buf =
     (let (out, rest) = grep_lines (length buf) pattern buf in (out, grep_keep buf rest))"

fun grep :: "('w, 'x) os_scheme \<Rightarrow> nat \<Rightarrow> byte list \<Rightarrow> int \<Rightarrow> byte list \<Rightarrow> ('w, unit) kfun" where
  "grep sys 0 pattern fd held = stuck"
| "grep sys (Suc k) pattern fd held =
     mbind (u_read sys fd (1024 - length held - 1)) (\<lambda>(n, bs).
     if n > 0 then
       let (out, held) = grep_turn pattern (held @ bs) in
       mbind (mforeach out (\<lambda>line. mbind (u_write sys 1 line) (\<lambda>_. ret ()))) (\<lambda>_.
       grep sys k pattern fd held)
     else ret ())"

definition grep_main :: "('w, 'x) os_scheme \<Rightarrow> nat \<Rightarrow> byte list list \<Rightarrow> ('w, unit) kfun" where
  "grep_main sys k argv =
     (if length argv \<le> 1 then printf sys 2 (''usage: grep pattern [file ...]'' @ NL) []
      else
        let pattern = argv ! 1 in
        if length argv \<le> 2 then grep sys k pattern 0 []
        else each_file sys (''grep: cannot open %s'' @ NL)
               (\<lambda>fd _. mbind (grep sys k pattern fd []) (\<lambda>_. ret True)) (drop 2 argv))"

section \<open>The lines that are printed\<close>

definition plain :: "byte list \<Rightarrow> bool" where
  "plain l \<longleftrightarrow> 10 \<notin> set l \<and> 0 \<notin> set l"

definition unlines :: "byte list list \<Rightarrow> byte list" where
  "unlines lines = concat (map (\<lambda>l. l @ [10]) lines)"

lemma unlines_simps [simp]:
  "unlines [] = []"
  "unlines (l # lines) = l @ 10 # unlines lines"
  by (simp_all add: unlines_def)

lemma strchr_line: "plain l \<Longrightarrow> strchr (l @ 10 # r) 10 = Some (length l)"
  by (induction l) (auto simp: strchr_def cstr_def plain_def)

lemma strchr_rest: "plain l \<Longrightarrow> strchr l 10 = None"
  by (induction l) (auto simp: strchr_def cstr_def plain_def)

lemma grep_lines_all:
  assumes "length lines \<le> n" "list_all plain lines" "plain rest"
  shows "grep_lines n pattern (unlines lines @ rest) = (map (\<lambda>l. l @ [10]) (filter (match pattern) lines), rest)"
  using assms
proof (induction lines arbitrary: n)
  case Nil
  then show ?case by (cases n) (simp_all add: strchr_rest)
next
  case (Cons l lines)
  then show ?case by (cases n) (simp_all add: strchr_line)
qed

lemma length_unlines: "length lines \<le> length (unlines lines)"
  by (induction lines) simp_all

text \<open>
  C38: one turn of the loop of \<open>grep\<close>. When the buffer holds the lines \<open>lines\<close>, each with its newline, and then the
  beginning \<open>rest\<close> of a further line, the turn writes exactly the lines that match, in their order and with
  their newlines. It keeps the beginning of the further line for the next turn, except when the buffer has no
  complete line: then it throws the bytes away.
\<close>

theorem grep_turn_prints_matching_lines:
  assumes "list_all plain lines" "plain rest"
  shows "grep_turn pattern (unlines lines @ rest) =
    (map (\<lambda>l. l @ [10]) (filter (match pattern) lines), if lines = [] then [] else rest)"
proof -
  have "grep_lines (length (unlines lines @ rest)) pattern (unlines lines @ rest) =
      (map (\<lambda>l. l @ [10]) (filter (match pattern) lines), rest)"
    by (rule grep_lines_all) (use assms length_unlines [of lines] in auto)
  moreover have "length rest = length (unlines lines @ rest) \<longleftrightarrow> lines = []" by (cases lines) auto
  ultimately show ?thesis by (simp add: grep_turn_def grep_keep_def)
qed

theorem grep_turn_prints_matching_lines_witness:
  "grep_turn (lit ''b'') (unlines [lit ''ab'', lit ''cd''] @ lit ''x'') = ([lit ''ab'' @ [10]], lit ''x'') \<and>
   grep_turn (lit ''b'') (unlines [] @ lit ''ab'') = ([], [])"
proof -
  have "match (lit ''b'') (lit ''ab'')" "\<not> match (lit ''b'') (lit ''cd'')" by code_simp+
  then show ?thesis
    using grep_turn_prints_matching_lines [of "[lit ''ab'', lit ''cd'']" "lit ''x''" "lit ''b''"]
      grep_turn_prints_matching_lines [of "[]" "lit ''ab''" "lit ''b''"]
    by (simp add: plain_def lit_def)
qed

end
