(* ===== verification/Sh.thy ===== *)
theory Sh
  imports Userland
begin

text \<open>
  Model of the parser of \<open>sh.c\<close>. The command line is a list of bytes \<open>s\<close> without the NUL; a \<open>char *\<close> into it is
  a position, and reading at its end gives the NUL. A word is the pair of positions \<open>q\<close>, \<open>eq\<close> the parser stores;
  \<open>nulterminate\<close> later writes a NUL at each \<open>eq\<close>. A call of \<open>panic\<close> is the error \<open>Inl\<close>. The theory
  \<open>Runcmd\<close> has the rest of the shell.

  The parsing functions call each other on the rest of the line; the depth of the calls has a bound \<open>k\<close>,
  which is proved not to be reached for the bound \<open>parsecmd\<close> starts with.
\<close>

section \<open>Commands\<close>

datatype cmd =
    EXEC "(nat \<times> nat) list"
  | REDIR cmd nat nat uint nat
  | PIPE cmd cmd
  | LIST cmd cmd
  | BACK cmd

abbreviation MAXARGS :: nat where "MAXARGS \<equiv> 10"

text \<open>\<open>Leftovers\<close> is the panic of \<open>parsecmd\<close>, which prints the rest of the line first.\<close>

datatype perr = Syntax string | Leftovers "byte list" | Deep

section \<open>Tokens\<close>

definition char_at :: "byte list \<Rightarrow> nat \<Rightarrow> byte" where
  "char_at s i = (if i < length s then s ! i else 0)"

definition whitespace :: "byte \<Rightarrow> bool" where
  "whitespace c \<longleftrightarrow> c \<in> {32, 9, 13, 10, 11}"

definition symbols :: "byte \<Rightarrow> bool" where
  "symbols c \<longleftrightarrow> c \<in> set (lit ''<|>&;()'')"

text \<open>The first position from \<open>i\<close> on, below the end, whose character does not satisfy \<open>P\<close>.\<close>

definition skip :: "(byte \<Rightarrow> bool) \<Rightarrow> byte list \<Rightarrow> nat \<Rightarrow> nat" where
  "skip P s i = i + length (takeWhile P (drop i s))"

text \<open>\<open>gettoken\<close> returns the kind of token, the bounds of its text, and the new position.\<close>

definition gettoken :: "byte list \<Rightarrow> nat \<Rightarrow> byte \<times> nat \<times> nat \<times> nat" where
  "gettoken s ps =
     (let q = skip whitespace s ps; c = char_at s q;
          (r, eq) =
            (if c = 0 then (0, q)
             else if c \<in> set (lit ''|();&<'') then (c, q + 1)
             else if c = 62 then (if char_at s (q + 1) = 62 then (43, q + 2) else (62, q + 1))
             else (97, skip (\<lambda>c. \<not> whitespace c \<and> \<not> symbols c) s q))
      in (r, q, eq, skip whitespace s eq))"

text \<open>\<open>peek\<close> skips blanks and tells whether the next character is one of \<open>toks\<close>.\<close>

definition peek :: "byte list \<Rightarrow> nat \<Rightarrow> string \<Rightarrow> bool \<times> nat" where
  "peek s ps toks = (let p = skip whitespace s ps; c = char_at s p in (c \<noteq> 0 \<and> c \<in> set (lit toks), p))"

definition next_pos :: "byte list \<Rightarrow> nat \<Rightarrow> nat" where
  "next_pos s ps = (case gettoken s ps of (_, _, _, p) \<Rightarrow> p)"

section \<open>The parser\<close>

text \<open>The loop of \<open>parseredirs\<close>.\<close>

fun parseredirs :: "nat \<Rightarrow> byte list \<Rightarrow> cmd \<Rightarrow> nat \<Rightarrow> perr + (cmd \<times> nat)" where
  "parseredirs 0 s c ps = Inl Deep"
| "parseredirs (Suc k) s c ps =
     (let (b, ps) = peek s ps ''<>'' in
      if \<not> b then Inr (c, ps) else
      let (tok, _, _, ps) = gettoken s ps; (r, q, eq, ps) = gettoken s ps in
      if r \<noteq> 97 then Inl (Syntax ''missing file for redirection'') else
      parseredirs k s (if tok = 60 then REDIR c q eq 0 0 else REDIR c q eq 0x201 1) ps)"

text \<open>
  The redirections of a simple command wrap the command that is being filled with arguments: \<open>c\<close> holds the
  redirections around an empty command, which \<open>wrap_of\<close> replaces by the filled one.
\<close>

fun wrap_of :: "cmd \<Rightarrow> cmd \<Rightarrow> cmd" where
  "wrap_of (REDIR c q eq m fd) e = REDIR (wrap_of c e) q eq m fd"
| "wrap_of _ e = e"

text \<open>The loop of \<open>parseexec\<close>; \<open>c\<close> collects the redirections, \<open>args\<close> the arguments.\<close>

fun parseargs :: "nat \<Rightarrow> byte list \<Rightarrow> cmd \<Rightarrow> (nat \<times> nat) list \<Rightarrow> nat \<Rightarrow> perr + (cmd \<times> nat)" where
  "parseargs 0 s c args ps = Inl Deep"
| "parseargs (Suc k) s c args ps =
     (let (b, ps) = peek s ps ''|)&;'' in
      if b then Inr (wrap_of c (EXEC args), ps) else
      let (tok, q, eq, ps) = gettoken s ps in
      if tok = 0 then Inr (wrap_of c (EXEC args), ps)
      else if tok \<noteq> 97 then Inl (Syntax ''syntax'')
      else if length args + 1 \<ge> MAXARGS then Inl (Syntax ''too many args'')
      else case parseredirs k s c ps of
        Inl e \<Rightarrow> Inl e
      | Inr (c, ps) \<Rightarrow> parseargs k s c (args @ [(q, eq)]) ps)"

text \<open>The loop of \<open>parseline\<close> that takes the ampersands.\<close>

fun parseback :: "nat \<Rightarrow> byte list \<Rightarrow> cmd \<Rightarrow> nat \<Rightarrow> perr + (cmd \<times> nat)" where
  "parseback 0 s c ps = Inl Deep"
| "parseback (Suc k) s c ps =
     (let (b, ps) = peek s ps ''&'' in
      if b then parseback k s (BACK c) (next_pos s ps) else Inr (c, ps))"

fun parseline :: "nat \<Rightarrow> byte list \<Rightarrow> nat \<Rightarrow> perr + (cmd \<times> nat)"
  and parsepipe :: "nat \<Rightarrow> byte list \<Rightarrow> nat \<Rightarrow> perr + (cmd \<times> nat)"
  and parseexec :: "nat \<Rightarrow> byte list \<Rightarrow> nat \<Rightarrow> perr + (cmd \<times> nat)"
  and parseblock :: "nat \<Rightarrow> byte list \<Rightarrow> nat \<Rightarrow> perr + (cmd \<times> nat)" where
  "parseline 0 s ps = Inl Deep"
| "parseline (Suc k) s ps =
     (case parsepipe k s ps of
        Inl e \<Rightarrow> Inl e
      | Inr (c, ps) \<Rightarrow>
          (case parseback k s c ps of
             Inl e \<Rightarrow> Inl e
           | Inr (c, ps) \<Rightarrow>
               let (b, ps) = peek s ps '';'' in
               if b then
                 (case parseline k s (next_pos s ps) of
                    Inl e \<Rightarrow> Inl e
                  | Inr (d, ps) \<Rightarrow> Inr (LIST c d, ps))
               else Inr (c, ps)))"
| "parsepipe 0 s ps = Inl Deep"
| "parsepipe (Suc k) s ps =
     (case parseexec k s ps of
        Inl e \<Rightarrow> Inl e
      | Inr (c, ps) \<Rightarrow>
          let (b, ps) = peek s ps ''|'' in
          if b then
            (case parsepipe k s (next_pos s ps) of
               Inl e \<Rightarrow> Inl e
             | Inr (d, ps) \<Rightarrow> Inr (PIPE c d, ps))
          else Inr (c, ps))"
| "parseexec 0 s ps = Inl Deep"
| "parseexec (Suc k) s ps =
     (let (b, ps) = peek s ps ''('' in
      if b then parseblock k s ps else
      case parseredirs k s (EXEC []) ps of
        Inl e \<Rightarrow> Inl e
      | Inr (c, ps) \<Rightarrow> parseargs k s c [] ps)"
| "parseblock 0 s ps = Inl Deep"
| "parseblock (Suc k) s ps =
     (let (b, ps) = peek s ps ''('' in
      if \<not> b then Inl (Syntax ''parseblock'') else
      case parseline k s (next_pos s ps) of
        Inl e \<Rightarrow> Inl e
      | Inr (c, ps) \<Rightarrow>
          let (b, ps) = peek s ps '')'' in
          if \<not> b then Inl (Syntax ''syntax - missing )'') else
          parseredirs k s c (next_pos s ps))"

text \<open>The positions at which \<open>nulterminate\<close> writes a NUL, in its order, and the line after it has run.\<close>

fun nul_positions :: "cmd \<Rightarrow> nat list" where
  "nul_positions (EXEC args) = map snd args"
| "nul_positions (REDIR c q eq m fd) = nul_positions c @ [eq]"
| "nul_positions (PIPE c d) = nul_positions c @ nul_positions d"
| "nul_positions (LIST c d) = nul_positions c @ nul_positions d"
| "nul_positions (BACK c) = nul_positions c"

definition nulterminate :: "cmd \<Rightarrow> byte list \<Rightarrow> byte list" where
  "nulterminate c s = fold (\<lambda>i s. s[i := 0]) (nul_positions c) s"

definition parse_bound :: "byte list \<Rightarrow> nat" where
  "parse_bound s = 4 * length s + 4"

definition parsecmd :: "byte list \<Rightarrow> perr + (cmd \<times> byte list)" where
  "parsecmd s =
     (case parseline (parse_bound s) s 0 of
        Inl e \<Rightarrow> Inl e
      | Inr (c, ps) \<Rightarrow>
          let (_, ps) = peek s ps [] in
          if ps \<noteq> length s then Inl (Leftovers (drop ps s)) else Inr (c, nulterminate c (s @ [0])))"

section \<open>The bound on the depth is enough\<close>

lemma skip_ge [simp]: "i \<le> skip P s i"
  by (simp add: skip_def)

lemma skip_le: "i \<le> length s \<Longrightarrow> skip P s i \<le> length s"
  using length_takeWhile_le [of P "drop i s"] by (simp add: skip_def del: length_drop) simp

lemma skip_stop: "i \<le> length s \<Longrightarrow> skip P s i < length s \<Longrightarrow> \<not> P (s ! skip P s i)"
  using nth_length_takeWhile [of P "drop i s"] by (auto simp: skip_def)

lemma skip_all:
  assumes "i \<le> j" "j < skip P s i"
  shows "P (s ! j)"
proof -
  have j: "j - i < length (takeWhile P (drop i s))" using assms by (simp add: skip_def)
  have "i \<le> length s" using length_takeWhile_le [of P "drop i s"] j by (cases "i \<le> length s") auto
  then have "takeWhile P (drop i s) ! (j - i) = s ! j" using takeWhile_nth [OF j] assms(1) by simp
  then show ?thesis using nth_mem [OF j] set_takeWhileD by metis
qed

definition wordc :: "byte \<Rightarrow> bool" where
  "wordc c \<longleftrightarrow> \<not> whitespace c \<and> \<not> symbols c"

text \<open>The bytes from \<open>q\<close> to \<open>eq\<close> are a word of the line, and the word ends there.\<close>

definition is_word :: "byte list \<Rightarrow> nat \<Rightarrow> nat \<Rightarrow> bool" where
  "is_word s q eq \<longleftrightarrow> q < eq \<and> eq \<le> length s \<and> (\<forall>i. q \<le> i \<longrightarrow> i < eq \<longrightarrow> wordc (s ! i)) \<and>
     (eq < length s \<longrightarrow> \<not> wordc (s ! eq))"

text \<open>
  A position after \<open>peek\<close> or \<open>gettoken\<close> is in the line and not before the old one, and moves on if there was a
  token.
\<close>

lemma char_at_nonzero: "char_at s q \<noteq> 0 \<Longrightarrow> q < length s \<and> char_at s q = s ! q"
  by (auto simp: char_at_def split: if_splits)

lemma peek_pos:
  assumes "peek s ps toks = (b, p)" "ps \<le> length s"
  shows "ps \<le> p" "p \<le> length s" "b \<Longrightarrow> p < length s \<and> s ! p \<in> set (lit toks) \<and> s ! p \<noteq> 0 \<and> \<not> whitespace (s ! p)"
  using assms skip_le [of ps s whitespace] skip_stop [of ps s whitespace] char_at_nonzero [of s "skip whitespace s ps"]
  by (auto simp: peek_def Let_def)

lemma is_word_skip:
  assumes "q < length s" "wordc (s ! q)"
  shows "is_word s q (skip wordc s q)"
proof -
  have "q < skip wordc s q" using assms by (simp add: skip_def Cons_nth_drop_Suc [symmetric])
  then show ?thesis using assms skip_le [of q s wordc] skip_stop [of q s wordc] skip_all [of q _ wordc s]
    by (auto simp: is_word_def)
qed

lemma symbols_cases: "symbols c \<longleftrightarrow> c \<in> set (lit ''|();&<'') \<or> c = 62"
  by (auto simp: symbols_def lit_def)

lemma gettoken_pos:
  assumes "gettoken s ps = (r, q, eq, p)" "ps \<le> length s"
  shows "ps \<le> p" "p \<le> length s" "r \<noteq> 0 \<Longrightarrow> ps < p" "r = 97 \<Longrightarrow> is_word s q eq"
proof -
  define q' where "q' = skip whitespace s ps"
  define c where "c = char_at s q'"
  have fold: "(\<lambda>c. \<not> whitespace c \<and> \<not> symbols c) = wordc" by (auto simp: wordc_def)
  have q': "ps \<le> q'" "q' \<le> length s" "q' < length s \<Longrightarrow> \<not> whitespace (s ! q')"
    using skip_le [of ps s whitespace] skip_stop [of ps s whitespace] assms by (auto simp: q'_def)
  have cw: "q' < length s \<and> c = s ! q'" if "c \<noteq> 0" using that char_at_nonzero by (auto simp: c_def)
  have eqs: "q = q' \<and> p = skip whitespace s eq \<and> (r, eq) =
      (if c = 0 then (0, q') else if c \<in> set (lit ''|();&<'') then (c, q' + 1)
       else if c = 62 then (if char_at s (q' + 1) = 62 then (43, q' + 2) else (62, q' + 1))
       else (97, skip wordc s q'))"
    using assms(1) unfolding gettoken_def Let_def fold q'_def [symmetric] c_def [symmetric] by (auto simp: lit_def split: prod.splits if_splits)
  consider (none) "c = 0" "r = 0" "eq = q'" | (sym) "c \<noteq> 0" "r \<noteq> 97" "q' < eq" "eq \<le> length s"
    | (word) "c \<noteq> 0" "is_word s q eq"
  proof -
    have "is_word s q' (skip wordc s q')" if "c \<noteq> 0" "c \<notin> set (lit ''|();&<'')" "c \<noteq> 62"
      using that cw q' is_word_skip [of q' s] symbols_cases [of c] by (auto simp: wordc_def)
    moreover have "q' + 1 < length s" if "char_at s (q' + 1) = 62"
      using char_at_nonzero [of s "q' + 1"] that by auto
    ultimately show thesis using that eqs cw by (auto simp: lit_def split: if_splits)
  qed
  then have "q' \<le> eq \<and> eq \<le> length s \<and> (r \<noteq> 0 \<longrightarrow> q' < eq) \<and> (r = 97 \<longrightarrow> is_word s q eq)"
    using eqs q' by cases (auto simp: is_word_def)
  moreover have "eq \<le> p" "eq \<le> length s \<Longrightarrow> p \<le> length s"
    using eqs skip_le [of eq s whitespace] by auto
  ultimately show "ps \<le> p" "p \<le> length s" "r \<noteq> 0 \<Longrightarrow> ps < p" "r = 97 \<Longrightarrow> is_word s q eq"
    using q'(1) by auto
qed

text \<open>The words of a command: its arguments and the names of the files it redirects to or from.\<close>

fun cmd_words :: "cmd \<Rightarrow> (nat \<times> nat) list" where
  "cmd_words (EXEC args) = args"
| "cmd_words (REDIR c q eq m fd) = cmd_words c @ [(q, eq)]"
| "cmd_words (PIPE c d) = cmd_words c @ cmd_words d"
| "cmd_words (LIST c d) = cmd_words c @ cmd_words d"
| "cmd_words (BACK c) = cmd_words c"

text \<open>Only standard input and output are redirected.\<close>

fun std_redirs :: "cmd \<Rightarrow> bool" where
  "std_redirs (EXEC args) \<longleftrightarrow> True"
| "std_redirs (REDIR c q eq m fd) \<longleftrightarrow> std_redirs c \<and> fd < 2"
| "std_redirs (PIPE c d) \<longleftrightarrow> std_redirs c \<and> std_redirs d"
| "std_redirs (LIST c d) \<longleftrightarrow> std_redirs c \<and> std_redirs d"
| "std_redirs (BACK c) = std_redirs c"

definition cmd_ok :: "byte list \<Rightarrow> cmd \<Rightarrow> bool" where
  "cmd_ok s c \<longleftrightarrow> list_all (\<lambda>(q, eq). is_word s q eq) (cmd_words c) \<and> std_redirs c"

lemma cmd_ok_simps [simp]:
  "cmd_ok s (EXEC args) = list_all (\<lambda>(q, eq). is_word s q eq) args"
  "cmd_ok s (REDIR c q eq m fd) \<longleftrightarrow> cmd_ok s c \<and> is_word s q eq \<and> fd < 2"
  "cmd_ok s (PIPE c d) \<longleftrightarrow> cmd_ok s c \<and> cmd_ok s d"
  "cmd_ok s (LIST c d) \<longleftrightarrow> cmd_ok s c \<and> cmd_ok s d"
  "cmd_ok s (BACK c) = cmd_ok s c"
  by (auto simp: cmd_ok_def)

lemma cmd_ok_wrap [simp]: "cmd_ok s c \<Longrightarrow> cmd_ok s e \<Longrightarrow> cmd_ok s (wrap_of c e)"
  by (induction c e rule: wrap_of.induct) auto

text \<open>A result of the parser that did not run out of depth: an error, or a command and a later position.\<close>

definition good :: "byte list \<Rightarrow> nat \<Rightarrow> perr + (cmd \<times> nat) \<Rightarrow> bool" where
  "good s ps r \<longleftrightarrow> r \<noteq> Inl Deep \<and> (\<forall>c p. r = Inr (c, p) \<longrightarrow> ps \<le> p \<and> p \<le> length s \<and> cmd_ok s c)"

lemma good_Inl [simp]: "good s ps (Inl e) \<longleftrightarrow> e \<noteq> Deep"
  by (simp add: good_def)

lemma good_Inr [simp]: "good s ps (Inr (c, p)) \<longleftrightarrow> ps \<le> p \<and> p \<le> length s \<and> cmd_ok s c"
  by (auto simp: good_def)

lemma good_mono: "good s p r \<Longrightarrow> ps \<le> p \<Longrightarrow> good s ps r"
  by (cases r) (auto simp: good_def)

lemma good_bind:
  assumes "good s p m" "\<And>c p'. p \<le> p' \<Longrightarrow> p' \<le> length s \<Longrightarrow> cmd_ok s c \<Longrightarrow> good s ps (f c p')"
  shows "good s ps (case m of Inl e \<Rightarrow> Inl e | Inr (c, p') \<Rightarrow> f c p')"
  using assms by (auto split: sum.split)

lemma peek_good:
  assumes "ps \<le> length s" "ps0 \<le> ps"
    "\<And>p. ps \<le> p \<Longrightarrow> p < length s \<Longrightarrow> s ! p \<in> set (lit toks) \<Longrightarrow> s ! p \<noteq> 0 \<Longrightarrow> \<not> whitespace (s ! p) \<Longrightarrow> good s ps0 (f p)"
    "\<And>p. ps \<le> p \<Longrightarrow> p \<le> length s \<Longrightarrow> good s ps0 (g p)"
  shows "good s ps0 (let (b, p) = peek s ps toks in if b then f p else g p)"
proof -
  obtain b p where e: "peek s ps toks = (b, p)" by (cases "peek s ps toks")
  show ?thesis using peek_pos [OF e assms(1)] assms(2-4) by (simp add: e)
qed

lemma next_pos_pos:
  assumes "p < length s" "s ! p \<noteq> 0" "\<not> whitespace (s ! p)"
  shows "p < next_pos s p" "next_pos s p \<le> length s"
proof -
  obtain r q eq p' where e: "gettoken s p = (r, q, eq, p')" by (cases "gettoken s p")
  have "skip whitespace s p = p" using assms by (simp add: skip_def Cons_nth_drop_Suc [symmetric])
  then have "r \<noteq> 0" using e assms by (auto simp: gettoken_def Let_def char_at_def lit_def split: if_splits)
  then show "p < next_pos s p" "next_pos s p \<le> length s"
    using gettoken_pos [OF e] assms(1) e by (auto simp: next_pos_def)
qed

lemma parseredirs_good:
  "ps \<le> length s \<Longrightarrow> cmd_ok s c \<Longrightarrow> length s - ps < k \<Longrightarrow> good s ps (parseredirs k s c ps)"
proof (induction k arbitrary: c ps)
  case (Suc k)
  obtain b p where pk: "peek s ps ''<>'' = (b, p)" by (cases "peek s ps ''<>''")
  obtain tok q1 eq1 p1 where t1: "gettoken s p = (tok, q1, eq1, p1)" by (cases "gettoken s p")
  obtain r q eq p2 where t2: "gettoken s p1 = (r, q, eq, p2)" by (cases "gettoken s p1")
  note p = peek_pos [OF pk Suc.prems(1)]
  note p1 = gettoken_pos(1,2) [OF t1 p(2)]
  note p2 = gettoken_pos [OF t2 p1(2)]
  have "good s p2 (parseredirs k s (REDIR c q eq m fd) p2)" if "r = 97" "fd < 2" for m fd
    by (rule Suc.IH) (use that p p1 p2 Suc.prems in auto)
  then have "good s ps (parseredirs k s (REDIR c q eq m fd) p2)" if "r = 97" "fd < 2" for m fd
    by (rule good_mono) (use that p p1 p2 in auto)
  then show ?case using p p1 p2 Suc.prems
    by (auto simp: pk t1 t2 Let_def)
qed simp

lemma parseargs_good:
  "ps \<le> length s \<Longrightarrow> cmd_ok s c \<Longrightarrow> list_all (\<lambda>(q, eq). is_word s q eq) args \<Longrightarrow> length s - ps < k \<Longrightarrow>
     good s ps (parseargs k s c args ps)"
proof (induction k arbitrary: c args ps)
  case (Suc k)
  obtain b p where pk: "peek s ps ''|)&;'' = (b, p)" by (cases "peek s ps ''|)&;''")
  obtain r q eq p1 where t1: "gettoken s p = (r, q, eq, p1)" by (cases "gettoken s p")
  note p = peek_pos [OF pk Suc.prems(1)]
  note p1 = gettoken_pos [OF t1 p(2)]
  have "good s ps (case parseredirs k s c p1 of Inl e \<Rightarrow> Inl e | Inr (c, ps) \<Rightarrow> parseargs k s c (args @ [(q, eq)]) ps)"
    if "r = 97"
  proof (rule good_bind [OF parseredirs_good])
    fix c' p' assume "p1 \<le> p'" "p' \<le> length s" "cmd_ok s c'"
    then have "good s p' (parseargs k s c' (args @ [(q, eq)]) p')"
      by (intro Suc.IH) (use that p p1 Suc.prems in auto)
    then show "good s ps (parseargs k s c' (args @ [(q, eq)]) p')"
      by (rule good_mono) (use \<open>p1 \<le> p'\<close> p p1 in simp)
  qed (use that p p1 Suc.prems in auto)
  then show ?case using p p1 Suc.prems by (auto simp: pk t1 Let_def)
qed simp

lemma parseback_good:
  "ps \<le> length s \<Longrightarrow> cmd_ok s c \<Longrightarrow> length s - ps < k \<Longrightarrow> good s ps (parseback k s c ps)"
proof (induction k arbitrary: c ps)
  case (Suc k)
  show ?case unfolding parseback.simps
  proof (rule peek_good)
    fix p assume p: "ps \<le> p" "p < length s" "s ! p \<noteq> 0" "\<not> whitespace (s ! p)"
    note n = next_pos_pos [OF p(2-4)]
    have "good s (next_pos s p) (parseback k s (BACK c) (next_pos s p))"
      by (rule Suc.IH) (use n p Suc.prems in auto)
    then show "good s ps (parseback k s (BACK c) (next_pos s p))"
      by (rule good_mono) (use n p in simp)
  qed (use Suc.prems in auto)
qed simp

text \<open>\<open>fits n k s f\<close>: with depth \<open>k\<close>, the parser \<open>f\<close> of level \<open>n\<close> does not run out on any end of the line.\<close>

definition fits :: "nat \<Rightarrow> nat \<Rightarrow> byte list \<Rightarrow> (nat \<Rightarrow> byte list \<Rightarrow> nat \<Rightarrow> perr + (cmd \<times> nat)) \<Rightarrow> bool" where
  "fits n k s f \<longleftrightarrow> (\<forall>ps. ps \<le> length s \<longrightarrow> 4 * (length s - ps) + n \<le> k \<longrightarrow> good s ps (f k s ps))"

lemma fitsD: "fits n k s f \<Longrightarrow> ps \<le> length s \<Longrightarrow> 4 * (length s - ps) + n \<le> k \<Longrightarrow> good s ps (f k s ps)"
  by (simp add: fits_def)

lemma fits_parseline:
  assumes IH: "fits 4 k s parseline" "fits 3 k s parsepipe"
  shows "fits 4 (Suc k) s parseline"
  unfolding fits_def parseline.simps
proof (intro allI impI, rule good_bind [OF fitsD [OF IH(2)]])
  fix ps c p assume k: "ps \<le> length s" "4 * (length s - ps) + 4 \<le> Suc k"
    and p: "ps \<le> p" "p \<le> length s" "cmd_ok s c"
  show "good s ps (case parseback k s c p of Inl e \<Rightarrow> Inl e | Inr (c, ps) \<Rightarrow>
      let (b, ps) = peek s ps '';'' in if b then
        (case parseline k s (next_pos s ps) of Inl e \<Rightarrow> Inl e | Inr (d, ps) \<Rightarrow> Inr (LIST c d, ps))
      else Inr (c, ps))"
  proof (rule good_bind [OF parseback_good], rule_tac [4] peek_good)
    fix c p1 p2 assume q: "p \<le> p1" "cmd_ok s c" "p1 \<le> p2" "p2 < length s" "s ! p2 \<noteq> 0" "\<not> whitespace (s ! p2)"
    note n = next_pos_pos [OF q(4-6)]
    show "good s ps (case parseline k s (next_pos s p2) of Inl e \<Rightarrow> Inl e | Inr (d, ps) \<Rightarrow> Inr (LIST c d, ps))"
      by (rule good_bind [OF fitsD [OF IH(1)]]) (use n p q k in auto)
  qed (use p k in auto)
qed auto

lemma fits_parsepipe:
  assumes IH: "fits 3 k s parsepipe" "fits 2 k s parseexec"
  shows "fits 3 (Suc k) s parsepipe"
  unfolding fits_def parsepipe.simps
proof (intro allI impI, rule good_bind [OF fitsD [OF IH(2)]], rule_tac [3] peek_good)
  fix ps c p1 p2 assume k: "ps \<le> length s" "4 * (length s - ps) + 3 \<le> Suc k"
    and q: "ps \<le> p1" "cmd_ok s c" "p1 \<le> p2" "p2 < length s" "s ! p2 \<noteq> 0" "\<not> whitespace (s ! p2)"
  note n = next_pos_pos [OF q(4-6)]
  show "good s ps (case parsepipe k s (next_pos s p2) of Inl e \<Rightarrow> Inl e | Inr (d, ps) \<Rightarrow> Inr (PIPE c d, ps))"
    by (rule good_bind [OF fitsD [OF IH(1)]]) (use n q k in auto)
qed auto

lemma fits_parseexec:
  assumes IH: "fits 1 k s parseblock"
  shows "fits 2 (Suc k) s parseexec"
  unfolding fits_def parseexec.simps
proof (intro allI impI, rule peek_good)
  fix ps p assume k: "ps \<le> length s" "4 * (length s - ps) + 2 \<le> Suc k"
  show "good s ps (parseblock k s p)" if "ps \<le> p" "p < length s"
    by (rule good_mono [OF fitsD [OF IH]]) (use that k in auto)
  show "good s ps (case parseredirs k s (EXEC []) p of Inl e \<Rightarrow> Inl e | Inr (c, ps) \<Rightarrow> parseargs k s c [] ps)"
    if "ps \<le> p" "p \<le> length s"
    by (rule good_bind [OF parseredirs_good], rule_tac [4] good_mono [OF parseargs_good]) (use that k in auto)
qed auto

lemma fits_parseblock:
  assumes IH: "fits 4 k s parseline"
  shows "fits 1 (Suc k) s parseblock"
proof -
  have swap: "(if \<not> b then x else y) = (if b then y else x)" for b and x y :: "perr + (cmd \<times> nat)" by simp
  show ?thesis unfolding fits_def parseblock.simps swap
  proof (intro allI impI, rule peek_good)
    fix ps p assume k: "ps \<le> length s" "4 * (length s - ps) + 1 \<le> Suc k"
      and p: "ps \<le> p" "p < length s" "s ! p \<noteq> 0" "\<not> whitespace (s ! p)"
    note n = next_pos_pos [OF p(2-4)]
    show "good s ps (case parseline k s (next_pos s p) of Inl e \<Rightarrow> Inl e | Inr (c, ps) \<Rightarrow>
        let (b, ps) = peek s ps '')'' in if b then parseredirs k s c (next_pos s ps)
        else Inl (Syntax ''syntax - missing )''))"
    proof (rule good_bind [OF fitsD [OF IH]], rule_tac [3] peek_good)
      fix c p1 p2 assume q: "next_pos s p \<le> p1" "cmd_ok s c" "p1 \<le> p2" "p2 < length s" "s ! p2 \<noteq> 0" "\<not> whitespace (s ! p2)"
      note n2 = next_pos_pos [OF q(4-6)]
      show "good s ps (parseredirs k s c (next_pos s p2))"
        by (rule good_mono [OF parseredirs_good]) (use n n2 p q k in auto)
    qed (use n p k in auto)
  qed auto
qed

lemma parse_fits: "fits 4 k s parseline \<and> fits 3 k s parsepipe \<and> fits 2 k s parseexec \<and> fits 1 k s parseblock"
proof (induction k)
  case 0
  then show ?case by (simp add: fits_def)
next
  case (Suc k)
  then show ?case using fits_parseline fits_parsepipe fits_parseexec fits_parseblock by blast
qed

lemma parseline_good: "good s 0 (parseline (parse_bound s) s 0)"
  using parse_fits [of "parse_bound s" s] by (simp add: fits_def parse_bound_def)

text \<open>
  C29: the shell's parser terminates on every line. The depth that \<open>parsecmd\<close> gives its mutually recursive
  routines is never used up, because each of them consumes a token before it calls \<open>parseline\<close> or \<open>parsepipe\<close>
  again: every line gives a command or a syntax error.
\<close>

theorem parsecmd_terminates: "parsecmd s \<noteq> Inl Deep"
  using parseline_good [of s] by (auto simp: parsecmd_def Let_def good_def split: sum.splits prod.splits if_splits)

section \<open>The words of a command\<close>

lemma nul_positions_words: "set (nul_positions c) = snd ` set (cmd_words c)"
  by (induction c) auto

lemma nth_fold_nul: "j < length s \<Longrightarrow> fold (\<lambda>i s. s[i := 0]) xs s ! j = (if j \<in> set xs then 0 else s ! j)"
  by (induction xs arbitrary: s) (auto simp: nth_list_update)

lemma length_fold_nul [simp]: "length (fold (\<lambda>i s. s[i := 0]) xs s) = length s"
  by (induction xs arbitrary: s) auto

lemma cstr_at:
  assumes "q \<le> eq" "eq < length t" "t ! eq = 0" "\<And>i. q \<le> i \<Longrightarrow> i < eq \<Longrightarrow> t ! i \<noteq> 0"
  shows "cstr (drop q t) = take (eq - q) (drop q t)"
  unfolding cstr_def
  by (rule takeWhile_eq_take_P_nth) (use assms in auto)

text \<open>
  C30: what the parser hands to \<open>exec\<close> and \<open>open\<close>. When a line without NUL bytes is parsed, each argument and
  file name of the command is a word of the line, a longest run of characters that are neither blanks nor
  operators; and after \<open>nulterminate\<close> the C string that starts at the word's position is exactly the word,
  although the NULs of all other words have been stored into the same buffer.
\<close>

theorem parsecmd_words_terminated:
  assumes "parsecmd s = Inr (c, t)" "0 \<notin> set s" "(q, eq) \<in> set (cmd_words c)"
  shows "is_word s q eq \<and> cstr (drop q t) = take (eq - q) (drop q s)"
proof -
  obtain p where p: "parseline (parse_bound s) s 0 = Inr (c, p)" and t: "t = nulterminate c (s @ [0])"
    using assms(1) by (auto simp: parsecmd_def Let_def split: sum.splits prod.splits if_splits)
  have ok: "cmd_ok s c" using parseline_good [of s] p by simp
  then have w: "is_word s q' eq'" if "(q', eq') \<in> set (cmd_words c)" for q' eq'
    using that by (auto simp: cmd_ok_def list_all_iff)
  have word: "is_word s q eq" by (rule w [OF assms(3)])
  have tn: "t ! j = (if j \<in> snd ` set (cmd_words c) then 0 else (s @ [0]) ! j)" if "j \<le> length s" for j
    using that by (simp add: t nulterminate_def nth_fold_nul nul_positions_words)
  have keep: "t ! i = s ! i \<and> s ! i \<noteq> 0" if i: "q \<le> i" "i < eq" for i
  proof -
    have "wordc (s ! i)" "i < length s" using word i by (auto simp: is_word_def)
    then have "i \<notin> snd ` set (cmd_words c)" using w by (fastforce simp: is_word_def)
    moreover have "s ! i \<noteq> 0" using \<open>i < length s\<close> assms(2) nth_mem by metis
    ultimately show ?thesis using tn [of i] \<open>i < length s\<close> by (simp add: nth_append)
  qed
  have "eq \<in> snd ` set (cmd_words c)" using assms(3) by force
  moreover have l: "length t = Suc (length s)" by (simp add: t nulterminate_def)
  ultimately have "cstr (drop q t) = take (eq - q) (drop q t)"
    using word tn [of eq] keep by (intro cstr_at) (auto simp: is_word_def)
  also have "\<dots> = take (eq - q) (drop q s)"
    by (rule nth_equalityI) (use word l keep in \<open>auto simp: is_word_def\<close>)
  finally show ?thesis using word by simp
qed

text \<open>The line \<open>cat<a|wc\<close>.\<close>

theorem parsecmd_words_terminated_witness:
  "let s = lit ''cat<a|wc''; t = lit ''cat'' @ [0] @ lit ''a'' @ [0] @ lit ''wc'' @ [0] in
   parsecmd s = Inr (PIPE (REDIR (EXEC [(0, 3)]) 4 5 0 0) (EXEC [(6, 8)]), t) \<and>
   is_word s 6 8 \<and> cstr (drop 6 t) = lit ''wc''"
proof -
  have p: "parsecmd (lit ''cat<a|wc'') =
      Inr (PIPE (REDIR (EXEC [(0, 3)]) 4 5 0 0) (EXEC [(6, 8)]), lit ''cat'' @ [0] @ lit ''a'' @ [0] @ lit ''wc'' @ [0])"
    by code_simp
  moreover have "take (8 - 6) (drop 6 (lit ''cat<a|wc'')) = lit ''wc''" "0 \<notin> set (lit ''cat<a|wc'')" by code_simp+
  ultimately show ?thesis
    using parsecmd_words_terminated [OF p, of 6 8] by (simp add: Let_def)
qed

end
