(* ===== verification/Runcmd.thy ===== *)
theory Runcmd
  imports Sh
begin

text \<open>
  Model of the part of \<open>sh.c\<close> that runs commands, and of \<open>init.c\<close>. These programs fork, so they are not functions of one
  process: a program is the tree of the calls it makes, with the rest of the program as a function of the reply. \<open>gets\<close>
  and \<open>printf\<close>, modelled in \<open>Userland\<close>, count as calls. The loops of \<open>main\<close> have a bound on their turns, after which
  the tree is cut off with \<open>More\<close>.
\<close>

section \<open>Programs\<close>

datatype call =
    COpen "byte list" uint
  | CClose int
  | CDup int
  | CPipe
  | CFork
  | CWait
  | CExec "byte list" "byte list list"
  | CChdir "byte list"
  | CMknod "byte list" int int
  | CPrint int "byte list"
  | CGets nat

text \<open>The value of a call, the descriptors \<open>pipe\<close> stores and the line \<open>gets\<close> stores.\<close>

record reply =
  rv :: int
  rfds :: "int \<times> int"
  rline :: "byte list"

datatype prog = Exit | More | Call call "reply \<Rightarrow> prog"

section \<open>Running a command\<close>

definition sh_panic :: "string \<Rightarrow> prog" where
  "sh_panic m = Call (CPrint 2 (lit m @ [10])) (\<lambda>_. Exit)"

definition fork1 :: "(int \<Rightarrow> prog) \<Rightarrow> prog" where
  "fork1 k = Call CFork (\<lambda>r. if rv r = -1 then sh_panic ''fork'' else k (rv r))"

text \<open>
  \<open>b\<close> is the buffer with the line after \<open>nulterminate\<close>, in which the words of the command lie. The parser never
  returns a null command.
\<close>

definition word_in :: "byte list \<Rightarrow> nat \<Rightarrow> byte list" where
  "word_in b q = cstr (drop q b)"

primrec runcmd :: "byte list \<Rightarrow> cmd \<Rightarrow> prog" where
  "runcmd b (EXEC args) =
     (case args of
        [] \<Rightarrow> Exit
      | a # _ \<Rightarrow>
          Call (CExec (word_in b (fst a)) (map (\<lambda>a. word_in b (fst a)) args)) (\<lambda>_.
          Call (CPrint 2 (lit ''exec '' @ word_in b (fst a) @ lit '' failed'' @ [10])) (\<lambda>_.
          Exit)))"
| "runcmd b (REDIR c q eq mode fd) =
     Call (CClose (int fd)) (\<lambda>_.
     Call (COpen (word_in b q) mode) (\<lambda>r.
     if rv r < 0 then Call (CPrint 2 (lit ''open '' @ word_in b q @ lit '' failed'' @ [10])) (\<lambda>_. Exit)
     else runcmd b c))"
| "runcmd b (LIST c d) =
     fork1 (\<lambda>pid.
     if pid = 0 then runcmd b c else
     Call CWait (\<lambda>_.
     runcmd b d))"
| "runcmd b (PIPE c d) =
     Call CPipe (\<lambda>r.
     if rv r < 0 then sh_panic ''pipe'' else
     let p = rfds r in
     fork1 (\<lambda>pid.
     if pid = 0 then
       Call (CClose 1) (\<lambda>_.
       Call (CDup (snd p)) (\<lambda>_.
       Call (CClose (fst p)) (\<lambda>_.
       Call (CClose (snd p)) (\<lambda>_.
       runcmd b c))))
     else
     fork1 (\<lambda>pid.
     if pid = 0 then
       Call (CClose 0) (\<lambda>_.
       Call (CDup (fst p)) (\<lambda>_.
       Call (CClose (fst p)) (\<lambda>_.
       Call (CClose (snd p)) (\<lambda>_.
       runcmd b d))))
     else
     Call (CClose (fst p)) (\<lambda>_.
     Call (CClose (snd p)) (\<lambda>_.
     Call CWait (\<lambda>_.
     Call CWait (\<lambda>_.
     Exit)))))))"
| "runcmd b (BACK c) = fork1 (\<lambda>pid. if pid = 0 then runcmd b c else Exit)"

section \<open>The loop of the shell\<close>

text \<open>\<open>None\<close> at the end of the input.\<close>

definition getcmd :: "nat \<Rightarrow> (byte list option \<Rightarrow> prog) \<Rightarrow> prog" where
  "getcmd nbuf k =
     Call (CPrint 2 (lit ''$ '')) (\<lambda>_.
     Call (CGets nbuf) (\<lambda>r.
     k (if cstr (rline r) = [] then None else Some (cstr (rline r)))))"

text \<open>What the child does with a line.\<close>

definition run_line :: "byte list \<Rightarrow> prog" where
  "run_line s = (case parsecmd s of
     Inl (Syntax m) \<Rightarrow> sh_panic m
   | Inl (Leftovers l) \<Rightarrow> Call (CPrint 2 (lit ''leftovers: '' @ l @ [10])) (\<lambda>_. sh_panic ''syntax'')
   | Inl Deep \<Rightarrow> More
   | Inr (c, b) \<Rightarrow> runcmd b c)"

fun sh_open :: "nat \<Rightarrow> prog \<Rightarrow> prog" where
  "sh_open 0 k = More"
| "sh_open (Suc n) k =
     Call (COpen (lit ''console'') 2) (\<lambda>r.
     if rv r < 0 then k
     else if rv r \<ge> 3 then Call (CClose (rv r)) (\<lambda>_. k)
     else sh_open n k)"

fun sh_loop :: "nat \<Rightarrow> prog" where
  "sh_loop 0 = More"
| "sh_loop (Suc n) =
     getcmd 100 (\<lambda>l. case l of
       None \<Rightarrow> Exit
     | Some s \<Rightarrow>
         if take 3 s = lit ''cd '' then
           (let dir = drop 3 (butlast s) in
            Call (CChdir dir) (\<lambda>r.
            if rv r < 0 then Call (CPrint 2 (lit ''cannot cd '' @ dir @ [10])) (\<lambda>_. sh_loop n)
            else sh_loop n))
         else
           fork1 (\<lambda>pid.
           if pid = 0 then run_line s else
           Call CWait (\<lambda>_.
           sh_loop n)))"

definition sh_main :: "nat \<Rightarrow> prog" where
  "sh_main n = sh_open n (sh_loop n)"

section \<open>init\<close>

fun init_wait :: "nat \<Rightarrow> int \<Rightarrow> prog \<Rightarrow> prog" where
  "init_wait 0 pid k = More"
| "init_wait (Suc n) pid k =
     Call CWait (\<lambda>r.
     if rv r \<ge> 0 \<and> rv r \<noteq> pid then Call (CPrint 1 (lit ''zombie!'' @ [10])) (\<lambda>_. init_wait n pid k) else k)"

fun init_loop :: "nat \<Rightarrow> prog" where
  "init_loop 0 = More"
| "init_loop (Suc n) =
     Call (CPrint 1 (lit ''init: starting sh'' @ [10])) (\<lambda>_.
     Call CFork (\<lambda>r.
     if rv r < 0 then Call (CPrint 1 (lit ''init: fork failed'' @ [10])) (\<lambda>_. Exit)
     else if rv r = 0 then
       Call (CExec (lit ''sh'') [lit ''sh'']) (\<lambda>_.
       Call (CPrint 1 (lit ''init: exec sh failed'' @ [10])) (\<lambda>_.
       Exit))
     else init_wait n (rv r) (init_loop n)))"

definition init_main :: "nat \<Rightarrow> prog" where
  "init_main n =
     Call (COpen (lit ''console'') 2) (\<lambda>r.
     let rest = Call (CDup 0) (\<lambda>_. Call (CDup 0) (\<lambda>_. init_loop n)) in
     if rv r < 0 then
       Call (CMknod (lit ''console'') 1 1) (\<lambda>_.
       Call (COpen (lit ''console'') 2) (\<lambda>_. rest))
     else rest)"

section \<open>What the programs start\<close>

text \<open>
  The kernel as these programs see it. A process has a table of open files; \<open>open\<close>, \<open>dup\<close> and \<open>pipe\<close> take the lowest free
  descriptors, \<open>fork\<close> copies the table. Its history \<open>h\<close> lists its forks, 0 as the child and 1 as the parent, and its
  pipes, 2; a pipe is named by the history of the process that made it, so different pipes have different names however the
  processes are interleaved. \<open>world\<close> says which calls succeed. \<open>started\<close> lists the programs that all processes
  together execute, each with its arguments and its open files.
\<close>

datatype ofile_t = OFile "byte list" uint | OPipeR "nat list" | OPipeW "nat list"

type_synonym fdt = "ofile_t option list"

record world =
  open_ok :: "byte list \<Rightarrow> uint \<Rightarrow> bool"
  exec_ok :: "byte list \<Rightarrow> bool"
  fork_ok :: "nat list \<Rightarrow> bool"
  pipe_ok :: "nat list \<Rightarrow> bool"
  wait_rv :: "nat list \<Rightarrow> int"

definition fd_alloc :: "fdt \<Rightarrow> ofile_t \<Rightarrow> (nat \<times> fdt) option" where
  "fd_alloc e x = map_option (\<lambda>i. (i, e[i := Some x])) (find_idx (\<lambda>y. y = None) e)"

definition fd_at :: "int \<Rightarrow> fdt \<Rightarrow> ofile_t option" where
  "fd_at fd e = (if 0 \<le> fd \<and> nat fd < length e then e ! nat fd else None)"

definition fd_close :: "int \<Rightarrow> fdt \<Rightarrow> fdt" where
  "fd_close fd e = (if 0 \<le> fd then e[nat fd := None] else e)"

definition ans :: "int \<Rightarrow> reply" where
  "ans n = \<lparr>rv = n, rfds = (0, 0), rline = []\<rparr>"

primrec started :: "prog \<Rightarrow> world \<Rightarrow> fdt \<Rightarrow> nat list \<Rightarrow> (byte list \<times> byte list list \<times> fdt) list" where
  "started Exit = (\<lambda>w e h. [])"
| "started More = (\<lambda>w e h. [])"
| "started (Call c k) = (\<lambda>w e h. case c of
     COpen f m \<Rightarrow>
       (case (if open_ok w f m then fd_alloc e (OFile f m) else None) of
          None \<Rightarrow> started (k (ans (- 1))) w e h
        | Some (i, e1) \<Rightarrow> started (k (ans (int i))) w e1 h)
   | CClose fd \<Rightarrow> started (k (ans (if fd_at fd e = None then - 1 else 0))) w (fd_close fd e) h
   | CDup fd \<Rightarrow>
       (case Option.bind (fd_at fd e) (fd_alloc e) of
          None \<Rightarrow> started (k (ans (- 1))) w e h
        | Some (i, e1) \<Rightarrow> started (k (ans (int i))) w e1 h)
   | CPipe \<Rightarrow>
       (case (if pipe_ok w h then fd_alloc e (OPipeR h) else None) of
          None \<Rightarrow> started (k (ans (- 1))) w e h
        | Some (i, e1) \<Rightarrow>
            (case fd_alloc e1 (OPipeW h) of
               None \<Rightarrow> started (k (ans (- 1))) w e h
             | Some (j, e2) \<Rightarrow> started (k \<lparr>rv = 0, rfds = (int i, int j), rline = []\<rparr>) w e2 (h @ [2])))
   | CFork \<Rightarrow>
       if fork_ok w h then started (k (ans 0)) w e (h @ [0]) @ started (k (ans 1)) w e (h @ [1])
       else started (k (ans (- 1))) w e h
   | CWait \<Rightarrow> started (k (ans (wait_rv w h))) w e h
   | CExec f as \<Rightarrow> if exec_ok w f then [(f, as, e)] else started (k (ans (- 1))) w e h
   | _ \<Rightarrow> started (k (ans 0)) w e h)"

text \<open>
  What a command means. A pipeline starts the left command with the writing end of a pipe as its standard output and
  the right one with the reading end as its standard input.
\<close>

primrec meaning :: "byte list \<Rightarrow> cmd \<Rightarrow> world \<Rightarrow> fdt \<Rightarrow> nat list \<Rightarrow> (byte list \<times> byte list list \<times> fdt) list" where
  "meaning b (EXEC args) = (\<lambda>w e h.
     if args \<noteq> [] \<and> exec_ok w (word_in b (fst (hd args)))
     then [(word_in b (fst (hd args)), map (\<lambda>a. word_in b (fst a)) args, e)] else [])"
| "meaning b (REDIR c q eq m fd) = (\<lambda>w e h.
     if open_ok w (word_in b q) m then meaning b c w (e[fd := Some (OFile (word_in b q) m)]) h else [])"
| "meaning b (PIPE c d) = (\<lambda>w e h.
     meaning b c w (e[1 := Some (OPipeW h)]) (h @ [2, 0]) @ meaning b d w (e[0 := Some (OPipeR h)]) (h @ [2, 1, 0]))"
| "meaning b (LIST c d) = (\<lambda>w e h. meaning b c w e (h @ [0]) @ meaning b d w e (h @ [1]))"
| "meaning b (BACK c) = (\<lambda>w e h. meaning b c w e (h @ [0]))"

text \<open>Exactly the three standard descriptors are open, of the 16 a process has.\<close>

definition std :: "fdt \<Rightarrow> bool" where
  "std e \<longleftrightarrow> length e = 16 \<and> (\<forall>i < 16. e ! i = None \<longleftrightarrow> 3 \<le> i)"

lemma std_cases:
  assumes "std e"
  obtains x y z where "e = Some x # Some y # Some z # replicate 13 None"
proof -
  have n: "e ! 0 \<noteq> None" "e ! 1 \<noteq> None" "e ! 2 \<noteq> None" "length e = 16" "\<And>i. 3 \<le> i \<Longrightarrow> i < 16 \<Longrightarrow> e ! i = None"
    using assms by (auto simp: std_def)
  then obtain x y z where x: "e ! 0 = Some x" "e ! 1 = Some y" "e ! 2 = Some z" by auto
  have "e = take 3 e @ drop 3 e" by simp
  moreover have "take 3 e = [Some x, Some y, Some z]" using x n(4) by (intro nth_equalityI) (auto simp: less_Suc_eq numeral_3_eq_3 numeral_2_eq_2)
  moreover have "drop 3 e = replicate 13 None" using n(4,5) by (intro nth_equalityI) auto
  ultimately show thesis using that by auto
qed

lemma std_list: "std (Some x # Some y # Some z # replicate 13 None)"
  by (auto simp: std_def nth_Cons split: nat.splits)

lemma free_fds: "replicate 13 None = None # None # replicate 11 (None :: ofile_t option)"
  by (simp add: numeral_eq_Suc)

lemma started_fork1:
  "fork_ok w h \<Longrightarrow> started (fork1 k) w e h = started (k 0) w e (h @ [0]) @ started (k 1) w e (h @ [1])"
  by (simp add: fork1_def ans_def)

lemma runcmd_meaning:
  assumes "\<And>h. fork_ok w h" "\<And>h. pipe_ok w h"
  shows "std_redirs c \<Longrightarrow> std e \<Longrightarrow> started (runcmd b c) w e h = meaning b c w e h \<and> list_all (\<lambda>x. std (snd (snd x))) (meaning b c w e h)"
proof (induction c arbitrary: e h)
  case (EXEC args)
  then show ?case by (cases args) auto
next
  case (REDIR c q eq m fd)
  obtain x y z where e: "e = Some x # Some y # Some z # replicate 13 None" using std_cases [OF REDIR.prems(2)] .
  have fd: "fd = 0 \<or> fd = 1" using REDIR.prems(1) by auto
  then have "std (e[fd := Some (OFile (word_in b q) m)])" by (auto simp: e std_list)
  note IH = REDIR.IH [OF _ this]
  show ?case using fd IH REDIR.prems(1)
    by (auto simp: e fd_close_def fd_alloc_def ans_def)
next
  case (PIPE c d)
  obtain x y z where e: "e = Some x # Some y # Some z # replicate 13 None" using std_cases [OF PIPE.prems(2)] .
  have "std (e[1 := Some (OPipeW h)])" "std (e[0 := Some (OPipeR h)])" by (auto simp: e std_list)
  note IH = PIPE.IH(1) [OF _ this(1)] PIPE.IH(2) [OF _ this(2)]
  show ?case using IH PIPE.prems(1)
    by (auto simp: e free_fds fd_close_def fd_alloc_def fd_at_def Let_def started_fork1 assms)
next
  case (LIST c d)
  then show ?case by (auto simp: started_fork1 assms)
next
  case (BACK c)
  then show ?case by (auto simp: started_fork1 assms)
qed

section \<open>Properties\<close>

text \<open>
  C9: the shell runs a command line as it is meant. For every line the parser accepts, with the three standard
  descriptors open and \<open>fork\<close> and \<open>pipe\<close> succeeding, the programs that \<open>runcmd\<close> executes, their arguments and their
  open files are those of the meaning of the command: redirections replace standard input or output, the commands of a
  pipeline are connected by its pipe, and no program has a descriptor open but the three standard ones, so no
  end of a pipe is left open by accident.
\<close>

theorem shell_runs_meaning:
  assumes "parsecmd s = Inr (c, b)" "std e" "\<And>h. fork_ok w h" "\<And>h. pipe_ok w h"
  shows "started (run_line s) w e h = meaning b c w e h \<and> (\<forall>(f, args, d) \<in> set (started (run_line s) w e h). std d)"
proof -
  obtain p where "parseline (parse_bound s) s 0 = Inr (c, p)"
    using assms(1) by (auto simp: parsecmd_def Let_def split: sum.splits prod.splits if_splits)
  then have "cmd_ok s c" using parseline_good [of s] by simp
  then have "std_redirs c" by (simp add: cmd_ok_def)
  then show ?thesis using runcmd_meaning [of w c e b h] assms by (auto simp: run_line_def list_all_iff)
qed

text \<open>The line \<open>cat<a|wc\<close>, with the console as the three standard descriptors.\<close>

definition ex_world :: world where
  "ex_world = \<lparr>open_ok = \<lambda>_ _. True, exec_ok = \<lambda>_. True, fork_ok = \<lambda>_. True, pipe_ok = \<lambda>_. True, wait_rv = \<lambda>_. 1\<rparr>"

theorem shell_runs_meaning_witness:
  "let tty = Some (OFile (lit ''console'') 2); e = [tty, tty, tty] @ replicate 13 None in
   started (run_line (lit ''cat<a|wc'')) ex_world e [] =
     [(lit ''cat'', [lit ''cat''], e[1 := Some (OPipeW []), 0 := Some (OFile (lit ''a'') 0)]),
      (lit ''wc'', [lit ''wc''], e[0 := Some (OPipeR [])])]"
proof -
  let ?tty = "Some (OFile (lit ''console'') 2)"
  have p: "parsecmd (lit ''cat<a|wc'') =
      Inr (PIPE (REDIR (EXEC [(0, 3)]) 4 5 0 0) (EXEC [(6, 8)]), lit ''cat'' @ [0] @ lit ''a'' @ [0] @ lit ''wc'' @ [0])"
    by code_simp
  have s: "std ([?tty, ?tty, ?tty] @ replicate 13 None)" by (simp add: std_list)
  show ?thesis
    using shell_runs_meaning [OF p s, of ex_world "[]"]
    by (simp add: Let_def ex_world_def word_in_def cstr_def lit_def)
qed

end
