(* ===== verification/Umalloc.thy ===== *)
theory Umalloc
  imports Userland
begin

text \<open>
  Model of \<open>umalloc.c\<close>, the memory allocator of user programs, and of \<open>thread.c\<close>, which takes thread stacks
  from it. Free blocks form a circular list through their headers of 8 bytes: the address of the next block,
  then the size in units of 8 bytes. \<open>base\<close> is the address of the static list head. The walks along the list
  have a bound \<open>k\<close> on their steps. \<open>sbrk\<close>, \<open>clone\<close> and \<open>join\<close> are system calls and arguments of the routines.
\<close>

record heap =
  hmem :: mem
  freep :: uint
  base :: uint

definition h_ptr :: "uint \<Rightarrow> (heap, uint) kfun" where
  "h_ptr p = gets (\<lambda>s. load32 (hmem s) p)"

definition h_size :: "uint \<Rightarrow> (heap, uint) kfun" where
  "h_size p = gets (\<lambda>s. load32 (hmem s) (p + 4))"

definition set_ptr :: "uint \<Rightarrow> uint \<Rightarrow> (heap, unit) kfun" where
  "set_ptr p v = modify (\<lambda>s. s\<lparr>hmem := store32 (hmem s) p v\<rparr>)"

definition set_size :: "uint \<Rightarrow> uint \<Rightarrow> (heap, unit) kfun" where
  "set_size p v = modify (\<lambda>s. s\<lparr>hmem := store32 (hmem s) (p + 4) v\<rparr>)"

text \<open>The loop of \<open>free\<close>: the block after which \<open>bp\<close> belongs.\<close>

fun free_find :: "nat \<Rightarrow> uint \<Rightarrow> uint \<Rightarrow> (heap, uint) kfun" where
  "free_find 0 bp p = stuck"
| "free_find (Suc k) bp p =
     mbind (h_ptr p) (\<lambda>n.
     if bp > p \<and> bp < n then ret p
     else if p \<ge> n \<and> (bp > p \<or> bp < n) then ret p
     else free_find k bp n)"

definition free :: "nat \<Rightarrow> uint \<Rightarrow> (heap, unit) kfun" where
  "free k ap =
     (let bp = ap - 8 in
      mbind (gets freep) (\<lambda>f.
      mbind (free_find k bp f) (\<lambda>p.
      mbind (h_ptr p) (\<lambda>n.
      mbind (h_size bp) (\<lambda>bsize.
      mbind (if bp + 8 * bsize = n then
               mbind (h_size n) (\<lambda>nsize.
               mbind (set_size bp (bsize + nsize)) (\<lambda>_.
               mbind (h_ptr n) (\<lambda>nn.
               set_ptr bp nn)))
             else set_ptr bp n) (\<lambda>_.
      mbind (h_size p) (\<lambda>psize.
      mbind (if p + 8 * psize = bp then
               mbind (h_size bp) (\<lambda>bsize.
               mbind (set_size p (psize + bsize)) (\<lambda>_.
               mbind (h_ptr bp) (\<lambda>bn.
               set_ptr p bn)))
             else set_ptr p bp) (\<lambda>_.
      modify (\<lambda>s. s\<lparr>freep := p\<rparr>)))))))))"

definition morecore :: "(uint \<Rightarrow> (heap, uint) kfun) \<Rightarrow> nat \<Rightarrow> uint \<Rightarrow> (heap, uint) kfun" where
  "morecore sbrk k nu =
     (let nu = (if nu < 4096 then 4096 else nu) in
      mbind (sbrk (nu * 8)) (\<lambda>p.
      if p = 0xFFFFFFFF then ret 0 else
      mbind (set_size p nu) (\<lambda>_.
      mbind (free k (p + 8)) (\<lambda>_.
      gets freep))))"

fun malloc_loop :: "(uint \<Rightarrow> (heap, uint) kfun) \<Rightarrow> nat \<Rightarrow> uint \<Rightarrow> uint \<Rightarrow> uint \<Rightarrow> (heap, uint) kfun" where
  "malloc_loop sbrk 0 nunits prevp p = stuck"
| "malloc_loop sbrk (Suc k) nunits prevp p =
     mbind (h_size p) (\<lambda>psize.
     if psize \<ge> nunits then
       mbind (if psize = nunits then
                mbind (h_ptr p) (\<lambda>n.
                mbind (set_ptr prevp n) (\<lambda>_.
                ret p))
              else
                mbind (set_size p (psize - nunits)) (\<lambda>_.
                let q = p + 8 * (psize - nunits) in
                mbind (set_size q nunits) (\<lambda>_.
                ret q))) (\<lambda>q.
       mbind (modify (\<lambda>s. s\<lparr>freep := prevp\<rparr>)) (\<lambda>_.
       ret (q + 8)))
     else
       mbind (gets freep) (\<lambda>f.
       if p = f then
         mbind (morecore sbrk k nunits) (\<lambda>p.
         if p = 0 then ret 0 else
         mbind (h_ptr p) (\<lambda>n. malloc_loop sbrk k nunits p n))
       else mbind (h_ptr p) (\<lambda>n. malloc_loop sbrk k nunits p n)))"

definition malloc :: "(uint \<Rightarrow> (heap, uint) kfun) \<Rightarrow> nat \<Rightarrow> uint \<Rightarrow> (heap, uint) kfun" where
  "malloc sbrk k nbytes =
     (let nunits = (nbytes + 8 - 1) div 8 + 1 in
      mbind (gets freep) (\<lambda>f.
      mbind (if f = 0 then
               mbind (gets base) (\<lambda>b.
               mbind (set_ptr b b) (\<lambda>_.
               mbind (modify (\<lambda>s. s\<lparr>freep := b\<rparr>)) (\<lambda>_.
               mbind (set_size b 0) (\<lambda>_.
               ret b))))
             else ret f) (\<lambda>prevp.
      mbind (h_ptr prevp) (\<lambda>p.
      malloc_loop sbrk k nunits prevp p))))"

section \<open>Threads\<close>

text \<open>A stack that is not page aligned is moved up to the next page boundary.\<close>

definition thread_stack :: "uint \<Rightarrow> uint" where
  "thread_stack stack = (if stack mod 4096 \<noteq> 0 then stack + (4096 - stack mod 4096) else stack)"

definition thread_create :: "(uint \<Rightarrow> (heap, uint) kfun) \<Rightarrow> (uint \<Rightarrow> uint \<Rightarrow> uint \<Rightarrow> (heap, int) kfun) \<Rightarrow>
    nat \<Rightarrow> uint \<Rightarrow> uint \<Rightarrow> (heap, int) kfun" where
  "thread_create sbrk clone k function arg =
     mbind (malloc sbrk k 4096) (\<lambda>stack.
     if stack = 0 then ret (-1) else clone function arg (thread_stack stack))"

text \<open>\<open>join\<close> returns its result and the value it stored in \<open>stack\<close>, which stays uninitialised when it fails.\<close>

definition thread_join :: "(int \<Rightarrow> (heap, int \<times> uint option) kfun) \<Rightarrow> nat \<Rightarrow> int \<Rightarrow> (heap, int) kfun" where
  "thread_join join k tid =
     mbind (join tid) (\<lambda>(r, stack).
     case stack of
       None \<Rightarrow> undef ''uninitialised pointer freed''
     | Some st \<Rightarrow> mbind (free k st) (\<lambda>_. ret r))"

end
