(* ===== verification/Mkfs.thy ===== *)
theory Mkfs
  imports Inode
begin

text \<open>
  Model of \<open>mkfs.c\<close>, the program that builds the initial file system image, with the same disk layout and inode
  format as the kernel's \<open>fs.c\<close>. The image file is a list of blocks; the files to put into it are given with
  their names and contents. The conversions \<open>xshort\<close> and \<open>xint\<close> to little-endian byte order are part of storing a
  field in a block. A failed \<open>assert\<close> or read is a panic.
\<close>

record mkfs_state =
  img :: "block list"
  msb :: superblock
  freeinode :: uint
  freeblock :: uint

abbreviation FSBLOCKS :: nat where "FSBLOCKS \<equiv> 1000"
abbreviation NINODES :: nat where "NINODES \<equiv> 200"

definition nbitmap :: nat where "nbitmap = FSBLOCKS div (BSIZE * 8) + 1"
definition ninodeblocks :: nat where "ninodeblocks = NINODES div IPB + 1"
definition nmeta :: nat where "nmeta = 2 + LOGSIZE + ninodeblocks + nbitmap"

definition mkfs_sb :: superblock where
  "mkfs_sb = \<lparr>sb_size = of_nat FSBLOCKS, nblocks = of_nat (FSBLOCKS - nmeta), ninodes = of_nat NINODES, nlog = of_nat LOGSIZE,
     logstart = 2, inodestart = of_nat (2 + LOGSIZE), bmapstart = of_nat (2 + LOGSIZE + ninodeblocks)\<rparr>"

definition encode_sb :: "superblock \<Rightarrow> byte list" where
  "encode_sb b = concat (map le32 [sb_size b, nblocks b, ninodes b, nlog b, logstart b, inodestart b, bmapstart b])"

text \<open>
  The position of a sector in the image file, whose byte offset is computed in 32 bits. Writing past the end
  of the file makes it longer; reading there fails.
\<close>

definition sector :: "uint \<Rightarrow> nat" where
  "sector sec = unat (sec * 512) div 512"

definition wsect :: "uint \<Rightarrow> block \<Rightarrow> (mkfs_state, unit) kfun" where
  "wsect sec b = modify (\<lambda>s.
     s\<lparr>img := (img s @ replicate (Suc (sector sec) - length (img s)) (replicate BSIZE 0))[sector sec := b]\<rparr>)"

definition rsect :: "uint \<Rightarrow> (mkfs_state, block) kfun" where
  "rsect sec = (\<lambda>s. if sector sec < length (img s) then Ret (img s ! sector sec) s else Stop (Panic ''read''))"

definition blank_inode :: inode where
  "blank_inode = \<lparr>idev = 0, inum = 0, iref = 0, ivalid = False, itype = 0, imajor = 0, iminor = 0, inlink = 0,
     isize = 0, iaddrs = replicate (NDIRECT + 1) 0\<rparr>"

definition winode :: "uint \<Rightarrow> inode \<Rightarrow> (mkfs_state, unit) kfun" where
  "winode n ip =
     mbind (gets msb) (\<lambda>b.
     let bn = IBLOCK n b in
     mbind (rsect bn) (\<lambda>d.
     wsect bn (din_put (unat n mod IPB) ip d)))"

definition rinode :: "uint \<Rightarrow> (mkfs_state, inode) kfun" where
  "rinode n =
     mbind (gets msb) (\<lambda>b.
     mbind (rsect (IBLOCK n b)) (\<lambda>d.
     ret (din_get (unat n mod IPB) d blank_inode)))"

definition mk_ialloc :: "ushort \<Rightarrow> (mkfs_state, uint) kfun" where
  "mk_ialloc type =
     mbind (gets freeinode) (\<lambda>n.
     mbind (modify (\<lambda>s. s\<lparr>freeinode := freeinode s + 1\<rparr>)) (\<lambda>_.
     mbind (winode n (blank_inode\<lparr>itype := type, inlink := 1, isize := 0\<rparr>)) (\<lambda>_.
     ret n)))"

definition mk_balloc :: "int \<Rightarrow> (mkfs_state, unit) kfun" where
  "mk_balloc used =
     (if \<not> used < int (BSIZE * 8) then panic ''assert'' else
      mbind (gets msb) (\<lambda>b.
      wsect (bmapstart b) (fold set_bit_of [0..<nat used] (replicate BSIZE 0))))"

definition take_block :: "(mkfs_state, uint) kfun" where
  "take_block = (\<lambda>s. Ret (freeblock s) (s\<lparr>freeblock := freeblock s + 1\<rparr>))"

text \<open>The disk block that holds block \<open>fbn\<close> of the file, allocated if there is none, and the changed inode.\<close>

definition mk_bmap :: "inode \<Rightarrow> nat \<Rightarrow> (mkfs_state, inode \<times> uint) kfun" where
  "mk_bmap din fbn =
     (if fbn < NDIRECT then
        if iaddrs din ! fbn = 0 then
          mbind take_block (\<lambda>x. ret (din\<lparr>iaddrs := (iaddrs din)[fbn := x]\<rparr>, x))
        else ret (din, iaddrs din ! fbn)
      else
        mbind (if iaddrs din ! NDIRECT = 0 then
                 mbind take_block (\<lambda>x. ret (din\<lparr>iaddrs := (iaddrs din)[NDIRECT := x]\<rparr>))
               else ret din) (\<lambda>din.
        let ind = iaddrs din ! NDIRECT; j = fbn - NDIRECT in
        mbind (rsect ind) (\<lambda>d.
        if get32 d (4 * j) = 0 then
          mbind take_block (\<lambda>x.
          mbind (wsect ind (put32 (4 * j) x d)) (\<lambda>_.
          ret (din, x)))
        else ret (din, get32 d (4 * j)))))"

function iappend_loop :: "inode \<Rightarrow> nat \<Rightarrow> byte list \<Rightarrow> (mkfs_state, inode \<times> nat) kfun" where
  "iappend_loop din a p =
     (if p = [] then ret (din, a) else
      let fbn = a div BSIZE in
      if \<not> fbn < MAXFILE then panic ''assert'' else
      mbind (mk_bmap din fbn) (\<lambda>(din, x).
      let n1 = min (length p) ((fbn + 1) * BSIZE - a) in
      mbind (rsect x) (\<lambda>buf.
      mbind (wsect x (splice_at (a - fbn * BSIZE) (take n1 p) buf)) (\<lambda>_.
      iappend_loop din (a + n1) (drop n1 p)))))"
  by pat_completeness auto
termination
proof (relation "measure (\<lambda>(_, _, p). length p)")
  fix a :: nat
  have "0 < (a div BSIZE + 1) * BSIZE - a" using dividend_less_div_times [of BSIZE a] by simp
  then show "p \<noteq> [] \<Longrightarrow> x = a div BSIZE \<Longrightarrow> xa = min (length p) ((x + 1) * BSIZE - a) \<Longrightarrow>
      ((din', a + xa, drop xa p), din, a, p) \<in> measure (\<lambda>(_, _, p). length p)" for p :: "byte list" and din' din :: inode and x xa
    by simp
qed auto

declare iappend_loop.simps [simp del]

definition iappend :: "uint \<Rightarrow> byte list \<Rightarrow> (mkfs_state, unit) kfun" where
  "iappend n p =
     mbind (rinode n) (\<lambda>din.
     mbind (iappend_loop din (unat (isize din)) p) (\<lambda>(din, a).
     winode n (din\<lparr>isize := of_nat a\<rparr>)))"

text \<open>A directory entry; \<open>strcpy\<close> and \<open>strncpy\<close> into a cleared \<open>struct dirent\<close>.\<close>

definition mk_dirent :: "uint \<Rightarrow> byte list \<Rightarrow> byte list" where
  "mk_dirent n name = le16 (ucast n) @ take 14 (name @ replicate 14 0)"

text \<open>The contents of a file are read in pieces of one block.\<close>

function append_all :: "uint \<Rightarrow> byte list \<Rightarrow> (mkfs_state, unit) kfun" where
  "append_all n c =
     (if c = [] then ret () else
      mbind (iappend n (take BSIZE c)) (\<lambda>_. append_all n (drop BSIZE c)))"
  by pat_completeness auto
termination
  by (relation "measure (\<lambda>(_, c). length c)") auto

declare append_all.simps [simp del]

definition add_file :: "uint \<Rightarrow> byte list \<Rightarrow> byte list \<Rightarrow> (mkfs_state, unit) kfun" where
  "add_file rootino name c =
     (if 47 \<in> set name then panic ''assert'' else
      let name = (if name \<noteq> [] \<and> hd name = 95 then tl name else name) in
      mbind (mk_ialloc T_FILE) (\<lambda>n.
      mbind (iappend rootino (mk_dirent n name)) (\<lambda>_.
      append_all n c)))"

definition mkfs_main :: "(byte list \<times> byte list) list \<Rightarrow> (mkfs_state, unit) kfun" where
  "mkfs_main files =
     mbind (modify (\<lambda>s. s\<lparr>msb := mkfs_sb, freeinode := 1, freeblock := of_nat nmeta, img := []\<rparr>)) (\<lambda>_.
     mbind (mforeach [0..<FSBLOCKS] (\<lambda>i. wsect (of_nat i) (replicate BSIZE 0))) (\<lambda>_.
     mbind (wsect 1 (splice_at 0 (encode_sb mkfs_sb) (replicate BSIZE 0))) (\<lambda>_.
     mbind (mk_ialloc T_DIR) (\<lambda>rootino.
     if rootino \<noteq> ROOTINO then panic ''assert'' else
     mbind (iappend rootino (mk_dirent rootino [46])) (\<lambda>_.
     mbind (iappend rootino (mk_dirent rootino [46, 46])) (\<lambda>_.
     mbind (mforeach files (\<lambda>(name, c). add_file rootino name c)) (\<lambda>_.
     mbind (rinode rootino) (\<lambda>din.
     let a = (unat (isize din) div BSIZE + 1) * BSIZE in
     mbind (winode rootino (din\<lparr>isize := of_nat a\<rparr>)) (\<lambda>_.
     mbind (gets freeblock) (\<lambda>used.
     mk_balloc (sint used)))))))))))"

end
