(* ===== verification/Spec2Isabelle.thy ===== *)
theory Spec2Isabelle
  imports Balloc Waiting Boot Bootmain Ide Grep Runcmd Umalloc Mkfs
begin

text \<open>
  A verification library for the operating system under \<open>src/xv6\<close>: a teaching kernel for multiprocessor PCs with three
  scheduling policies and threads, its boot loader, its user programs and the program that builds its disk. This root
  theory imports all others; the properties stand in the theory of the component they are about.

  \<^bold>\<open>The shape of the model.\<close> A routine of the kernel is a function from the state to a result \<open>res\<close> (\<open>Prelude\<close>): \<open>Ret\<close>
  with a value and the new state, \<open>Swtch\<close> when it gives the processor away in \<open>sched\<close>, \<open>Spin\<close> when it meets a lock
  another processor holds, \<open>Stop\<close> for a panic, for behaviour that C leaves undefined, or for a bound that is used up.
  Routines are composed by \<open>mbind\<close> in the order of the code. The state is an extensible record that each component
  extends by its own variables, in the order of the imports: \<open>machine\<close> (processors, interrupt flags, locks),
  \<open>kmem_state\<close> (memory), \<open>vm_state\<close>, \<open>pstate\<close>, \<open>sl_state\<close>, \<open>bio_state\<close>, \<open>log_state\<close>, \<open>fs_state\<close>, \<open>con_state\<close>, \<open>pipe_state\<close>,
  \<open>file_state\<close>, \<open>life_state\<close>, \<open>trap_state\<close>, \<open>boot_kernel\<close>. Routines are polymorphic in the extension, so a lemma about a
  component holds in the whole kernel. Machine integers are words of their width; addresses are 32-bit words into a
  byte-addressed memory that holds page tables, free pages, trap frames and user memory. Pointers to the elements of
  a static array are indices into a list. Names of definitions are those of the C functions.

  A routine that sleeps ends with \<open>Swtch\<close>; the part that runs when the process is resumed is a definition of its own
  (\<open>acquiresleep_resume\<close>, \<open>iderw_resume\<close>, the loops of \<open>begin_op\<close>, \<open>pipewrite\<close>, \<open>piperead\<close>, \<open>consoleread\<close>). Interleaving of processors is
  explicit in \<open>Spinlock\<close>, where \<open>smp_step\<close> is a step of any processor. \<open>swtch\<close>, written in assembly, is an argument of the schedulers.

  \<^bold>\<open>Kernel.\<close>
  \<^item> \<open>Spinlock\<close>: \<open>spinlock.c\<close>, \<open>mycpu\<close> and \<open>cpuid\<close> of \<open>proc.c\<close>. Mutual exclusion under every interleaving, by rule induction over \<open>smp_step\<close>.
  \<^item> \<open>Memory\<close>: \<open>string.c\<close> over the memory. \<open>memmove\<close> on overlapping areas, \<open>safestrcpy\<close>.
  \<^item> \<open>Kalloc\<close>: \<open>kalloc.c\<close>. The free list through the pages, \<open>kalloc\<close> and \<open>kfree\<close> as an allocator, the pages after \<open>kinit1\<close> and \<open>kinit2\<close>.
  \<^item> \<open>Vm\<close>, \<open>Usermem\<close>: \<open>vm.c\<close>, and facts on accesses to user memory.
  \<^item> \<open>Proc\<close>, \<open>Mlfq\<close>, \<open>Sched\<close>: scheduling, \<open>sleep\<close>, \<open>wakeup\<close>, \<open>kill\<close> of \<open>proc.c\<close>. The multi-level queues refine lists; what a
    turn of each policy runs and where it puts the process afterwards; aging; no wakeup is lost.
  \<^item> \<open>Proclife\<close>, \<open>Waiting\<close>, \<open>Ps\<close>: creation and termination of processes and threads, \<open>wait\<close>, \<open>waitx\<close> and \<open>join\<close> without an ended child, listings.
  \<^item> \<open>Sleeplock\<close>: \<open>sleeplock.c\<close>. One holder, sleeping and waking of the others. Its \<open>quiet\<close> describes the normal state of
    a process in the kernel, and its lemmas the effect of locking from there.
  \<^item> \<open>Bio\<close>, \<open>Ide\<close>: the buffer cache \<open>bio.c\<close> over the disk of \<open>memide.c\<close>, and the driver \<open>ide.c\<close>. Coherence of reads and writes, the LRU
    order, the queue of requests.
  \<^item> \<open>Log\<close>: \<open>log.c\<close>. Atomicity of a commit under a crash after any number of disk writes, the header, admission, absorption.
  \<^item> \<open>Bytes\<close>, \<open>Inode\<close>, \<open>Balloc\<close>, \<open>Fs\<close>: \<open>fs.c\<close>. The inode cache, inodes on the disk, allocation of blocks inside a transaction, path names.
  \<^item> \<open>Pipe\<close>, \<open>File\<close>: \<open>pipe.c\<close> and \<open>file.c\<close>. A pipe is a queue whose counters may wrap; reference counts of open files.
  \<^item> \<open>Sysargs\<close>, \<open>Syscall\<close>, \<open>Sysfile\<close>, \<open>Exec\<close>, \<open>Trap\<close>: \<open>syscall.c\<close>, \<open>sysproc.c\<close>, \<open>sysfile.c\<close>, \<open>exec.c\<close>, \<open>trap.c\<close>. Checks of user pointers, the clock interrupt.
  \<^item> \<open>Ports\<close>, \<open>Apic\<close>, \<open>Uart\<close>, \<open>Kbd\<close>, \<open>Digits\<close>, \<open>Console\<close>: the devices. What a device answers is arbitrary: the values of all later reads are part of
    the state, and outputs are recorded. Typing is read as it is meant; numbers are printed and read.
  \<^item> \<open>Mp\<close>, \<open>Boot\<close>, \<open>Bootmain\<close>: \<open>mp.c\<close>, \<open>main.c\<close> with the start of the other processors, \<open>bootmain.c\<close>.

  \<^bold>\<open>Programs.\<close>
  \<^item> \<open>Userland\<close>, \<open>Grep\<close>, \<open>Umalloc\<close>: \<open>ulib.c\<close>, \<open>printf.c\<close>, the small programs, \<open>grep.c\<close>, \<open>umalloc.c\<close> and \<open>thread.c\<close>, with the system
    calls as arguments. \<open>wc\<close> counts, \<open>grep\<close> decides its language and prints the matching lines.
  \<^item> \<open>Sh\<close>, \<open>Runcmd\<close>: \<open>sh.c\<close> and \<open>init.c\<close>. The parser ends and yields words of the line; the processes the shell starts are
    those of the meaning of the command.
  \<^item> \<open>Mkfs\<close>: \<open>mkfs.c\<close>.

  \<^bold>\<open>Interfaces.\<close> \<open>Contracts\<close> has the locales \<open>allocator\<close>, \<open>soft_allocator\<close> and \<open>recycler\<close>; \<open>Kalloc\<close> interprets them on the page
  allocator (\<open>page\<close>) and \<open>File\<close> on the file table (\<open>ftable\<close>). \<open>Fifo\<close> has the locale of a bounded queue, interpreted on the ring
  buffer of a pipe (\<open>ring\<close>). \<open>Split\<close> has the reference for splitting paths and texts.

  \<^bold>\<open>Bounds.\<close> A loop over memory or a table is a recursion that ends. Loops that wait for a device (\<open>idewait\<close>, \<open>waitdisk\<close>, \<open>lapicinit\<close>,
  \<open>cmostime\<close>) take a bound on their turns; the properties hold for every positive bound while the device is
  ready. Loops that read a file to its end take a bound, and the property of \<open>wc\<close> has as hypothesis only that the
  file ends. The depth of the shell's parser is bounded by \<open>parse_bound\<close>, which is proved to be enough for every line. The walk over
  the processor table is a partial function, with \<open>None\<close> for a walk that never ends. Walks along the list of \<open>umalloc.c\<close>
  and the loops of the shell's and of init's \<open>main\<close> are cut off at a bound.

  \<^bold>\<open>Idealisations.\<close> The tick and process numbers of \<open>proc.c\<close> and the counters of \<open>wc.c\<close> are unbounded. A step of \<open>smp_step\<close> is an
  \<open>acquire\<close> up to its first \<open>xchg\<close>, one more \<open>xchg\<close>, or a \<open>release\<close>. Properties about \<open>quiet\<close> states speak of one processor in the
  routine while no other one holds its locks. The file system runs on the memory disk, which never sleeps or fails.

  \<^bold>\<open>Not modelled.\<close> The assembly files, which switch processor modes, stacks and registers; the instructions \<open>lgdt\<close>, \<open>lidt\<close> and
  \<open>ltr\<close>, which only load registers; the call stacks a lock records; the test programs (\<open>usertests.c\<close>, \<open>forktest.c\<close>, \<open>stressfs.c\<close> and
  others), which exercise the kernel and print what they see.
\<close>

end
